(* ===== verification/Prelude.thy ===== *)
theory Prelude
  imports
    Main
    "HOL-Library.AList"
    "HOL-Library.Char_ord"
    "HOL-Library.List_Lexorder"
    "HOL-Library.Multiset"
    "HOL-Library.Sublist"
begin

section \<open>Prelude: shared types, collections and generic lemmas\<close>

text \<open>
  What every component of the development uses: Go strings and byte slices as
  lists of bytes, Go maps as association lists with distinct keys, and
  \<open>sort.Slice\<close> as a sort by a comparison function.

  \<^item> A Go \<open>string\<close> and a \<open>[]byte\<close> are both sequences of bytes: type \<open>bytes\<close>, which
    is Isabelle's \<open>string\<close> (a \<open>char\<close> is one byte).
  \<^item> A Go map is an association list whose keys are distinct. The order of the list
    stands for the iteration order, which Go leaves open; results that must not
    depend on it are stated for every list that represents the same map. Lookup is
    \<open>map_of\<close>, store and delete are the library's \<open>AList.update\<close> and \<open>AList.delete\<close>.
    A nil map and an empty map read the same and are both the empty list.
  \<^item> Instants (\<open>time.Time\<close>) and durations are integers, in nanoseconds.
\<close>

type_synonym bytes = string

type_synonym ('k, 'v) gomap = "('k \<times> 'v) list"

text \<open>The value of a byte as a number.\<close>

abbreviation bval :: "char \<Rightarrow> nat" where
  "bval c \<equiv> of_char c"

named_theorems status_simps \<open>the delivery status constants and their differences\<close>
named_theorems map_simps \<open>lookups after stores and deletions in Go maps\<close>
named_theorems frame_simps \<open>fields an operation leaves unchanged\<close>

subsection \<open>Go maps\<close>

text \<open>Indexing a map gives the zero value of its element type for an absent key.\<close>

definition lookup_or :: "'v \<Rightarrow> ('k, 'v) gomap \<Rightarrow> 'k \<Rightarrow> 'v" where
  "lookup_or z m k = (case map_of m k of None \<Rightarrow> z | Some v \<Rightarrow> v)"

definition gokeys :: "('k, 'v) gomap \<Rightarrow> 'k list" where
  "gokeys m = List.map fst m"

definition gomap_ok :: "('k, 'v) gomap \<Rightarrow> bool" where
  "gomap_ok m = distinct (List.map fst m)"

lemma map_of_update [map_simps]: "map_of (AList.update k v m) = (map_of m)(k \<mapsto> v)"
  by (simp add: AList.update_conv')

lemma map_of_delete [map_simps]: "map_of (AList.delete k m) = (map_of m)(k := None)"
  by (simp add: AList.delete_conv')

lemma gomap_ok_Nil [simp, intro]: "gomap_ok []"
  by (simp add: gomap_ok_def)

lemma gomap_ok_update [intro]: "gomap_ok m \<Longrightarrow> gomap_ok (AList.update k v m)"
  by (simp add: gomap_ok_def AList.distinct_update)

lemma gomap_ok_delete [intro]: "gomap_ok m \<Longrightarrow> gomap_ok (AList.delete k m)"
  by (simp add: gomap_ok_def AList.distinct_delete)

lemma lookup_or_update [map_simps]:
  "lookup_or z (AList.update k v m) k' = (if k' = k then v else lookup_or z m k')"
  by (simp add: lookup_or_def map_of_update)

lemma lookup_or_delete [map_simps]:
  "lookup_or z (AList.delete k m) k' = (if k' = k then z else lookup_or z m k')"
  by (simp add: lookup_or_def map_of_delete)

lemma gomap_ok_mem: "gomap_ok m \<Longrightarrow> (k, v) \<in> set m \<longleftrightarrow> map_of m k = Some v"
  by (simp add: gomap_ok_def)

text \<open>Two maps with the same entries have the same lookups, whatever the iteration order.\<close>

lemma same_lookups_mset:
  assumes "gomap_ok m" "gomap_ok m'" "map_of m = map_of m'"
  shows "mset m = mset m'"
proof -
  have "distinct m" "distinct m'"
    using assms(1,2) by (auto simp: gomap_ok_def distinct_map)
  moreover have "set m = set m'"
    using assms by (auto simp: gomap_ok_mem)
  ultimately show ?thesis
    by (simp add: set_eq_iff_mset_eq_distinct)
qed

subsection \<open>\<open>sort.Slice\<close>: sorting by a comparison function\<close>

fun insert_by :: "('a \<Rightarrow> 'a \<Rightarrow> bool) \<Rightarrow> 'a \<Rightarrow> 'a list \<Rightarrow> 'a list" where
  "insert_by lt x [] = [x]"
| "insert_by lt x (y # ys) = (if lt y x then y # insert_by lt x ys else x # y # ys)"

fun sort_by :: "('a \<Rightarrow> 'a \<Rightarrow> bool) \<Rightarrow> 'a list \<Rightarrow> 'a list" where
  "sort_by lt [] = []"
| "sort_by lt (x # xs) = insert_by lt x (sort_by lt xs)"

lemma mset_insert_by [simp]: "mset (insert_by lt x xs) = add_mset x (mset xs)"
  by (induction xs) auto

lemma mset_sort_by [simp]: "mset (sort_by lt xs) = mset xs"
  by (induction xs) auto

lemma set_sort_by [simp]: "set (sort_by lt xs) = set xs"
  by (metis mset_sort_by set_mset_mset)

lemma length_sort_by [simp]: "length (sort_by lt xs) = length xs"
  by (metis mset_sort_by size_mset)

lemma distinct_sort_by [simp]: "distinct (sort_by lt xs) = distinct xs"
  by (metis mset_sort_by mset_eq_imp_distinct_iff)

text \<open>
  The comparisons of the code order by a key: \<open>lt x y\<close> is \<open>f x < f y\<close> in a linear
  order. For those the result is sorted, and it is the only sorted arrangement when the
  keys are distinct, so that it does not matter which algorithm \<open>sort.Slice\<close> runs
  (it is not stable) nor in which order its input came.
\<close>

lemma sorted_insert_by:
  fixes f :: "'a \<Rightarrow> 'k::linorder"
  assumes "sorted (List.map f xs)"
  shows "sorted (List.map f (insert_by (\<lambda>x y. f x < f y) x xs))"
  using assms
proof (induction xs)
  case Nil
  then show ?case by simp
next
  case (Cons y ys)
  have set_ins: "set (insert_by lt x zs) = insert x (set zs)" for lt zs
    by (metis mset_insert_by set_mset_add_mset_insert set_mset_mset)
  show ?case
    using Cons by (auto simp: set_ins)
qed

lemma sorted_sort_by:
  fixes f :: "'a \<Rightarrow> 'k::linorder"
  shows "sorted (List.map f (sort_by (\<lambda>x y. f x < f y) xs))"
  by (induction xs) (auto intro: sorted_insert_by)

lemma sort_by_unique:
  fixes f :: "'a \<Rightarrow> 'k::linorder"
  assumes "mset xs = mset ys" "inj_on f (set xs)" "sorted (List.map f ys)"
  shows "sort_by (\<lambda>x y. f x < f y) xs = ys"
proof -
  let ?zs = "sort_by (\<lambda>x y. f x < f y) xs"
  have "mset ?zs = mset ys"
    using assms(1) by simp
  then have "List.map f ?zs = List.map f ys"
    using sorted_sort_by [of f xs] assms(3)
    by (metis mset_map properties_for_sort sorted_sort_id)
  moreover have "inj_on f (set ?zs \<union> set ys)"
    using assms(1,2) by (metis Un_absorb \<open>mset ?zs = mset ys\<close> set_mset_mset set_sort_by)
  ultimately show ?thesis
    by (simp add: map_injective inj_on_map_eq_map)
qed

lemma sort_by_perm:
  fixes f :: "'a \<Rightarrow> 'k::linorder"
  assumes "mset xs = mset ys" "inj_on f (set xs)"
  shows "sort_by (\<lambda>x y. f x < f y) xs = sort_by (\<lambda>x y. f x < f y) ys"
  using assms by (intro sort_by_unique) (auto intro: sorted_sort_by)

text \<open>\<open>sort.Strings\<close>\<close>

definition sort_strings :: "bytes list \<Rightarrow> bytes list" where
  "sort_strings = sort_by (<)"

lemma sort_strings_perm: "mset xs = mset ys \<Longrightarrow> sort_strings xs = sort_strings ys"
  using sort_by_perm [where f = "\<lambda>x. x"] by (simp add: sort_strings_def)

lemma set_sort_strings [simp]: "set (sort_strings xs) = set xs"
  by (simp add: sort_strings_def)

lemma sorted_sort_strings: "sorted (sort_strings xs)"
  using sorted_sort_by [where f = "\<lambda>x. x"] by (simp add: sort_strings_def)

lemma mset_sort_strings [simp]: "mset (sort_strings xs) = mset xs"
  by (simp add: sort_strings_def)

lemma distinct_sort_strings [simp]: "distinct (sort_strings xs) = distinct xs"
  by (simp add: sort_strings_def)

lemma length_sort_strings [simp]: "length (sort_strings xs) = length xs"
  by (simp add: sort_strings_def)

end
