(* ===== verification/GoText.thy ===== *)
theory GoText
  imports Prelude
begin

section \<open>The text functions of the Go standard library the code uses\<close>

text \<open>
  \<open>strings.TrimSpace\<close>, \<open>strings.ToUpper\<close>, \<open>strings.ContainsAny\<close>, \<open>strings.Cut\<close>,
  \<open>http.CanonicalHeaderKey\<close>, decimal printing (\<open>fmt\<close>'s \<open>%d\<close>, \<open>strconv.Itoa\<close>),
  \<open>encoding/hex\<close> and \<open>encoding/base64\<close> (standard alphabet, strict decoding), over
  bytes. The lemmas are what the components need of them: trimmed and canonical
  text is a fixed point, decimals hold digits only and determine their number, hex and
  base64 determine the bytes they encode.
\<close>

subsection \<open>Character classes\<close>

definition is_digit :: "char \<Rightarrow> bool" where
  "is_digit c \<longleftrightarrow> 48 \<le> bval c \<and> bval c \<le> 57"

definition is_upper :: "char \<Rightarrow> bool" where
  "is_upper c \<longleftrightarrow> 65 \<le> bval c \<and> bval c \<le> 90"

definition is_lower :: "char \<Rightarrow> bool" where
  "is_lower c \<longleftrightarrow> 97 \<le> bval c \<and> bval c \<le> 122"

definition is_ascii :: "char \<Rightarrow> bool" where
  "is_ascii c \<longleftrightarrow> bval c < 128"

definition upper_char :: "char \<Rightarrow> char" where
  "upper_char c = (if is_lower c then char_of (bval c - 32) else c)"

definition lower_char :: "char \<Rightarrow> char" where
  "lower_char c = (if is_upper c then char_of (bval c + 32) else c)"

lemma bval_lt [simp]: "bval c < 256"
  by (metis mod_less_divisor of_char_mod_256 zero_less_numeral)

lemma bval_inject: "bval c = bval d \<longleftrightarrow> c = d"
  by (rule of_char_eq_iff)

lemma bval_char_of: "n < 256 \<Longrightarrow> bval (char_of n) = n"
  by simp

lemma bval_upper_char: "bval (upper_char c) = (if is_lower c then bval c - 32 else bval c)"
  by (auto simp: upper_char_def is_lower_def)

lemma bval_lower_char: "bval (lower_char c) = (if is_upper c then bval c + 32 else bval c)"
  by (auto simp: lower_char_def is_upper_def)

lemma upper_char_idem [simp]: "upper_char (upper_char c) = upper_char c"
  by (auto simp: upper_char_def is_lower_def)

lemma lower_char_idem [simp]: "lower_char (lower_char c) = lower_char c"
  by (auto simp: lower_char_def is_upper_def)

lemma not_lower_upper_char: "\<not> is_lower (upper_char c)"
  by (auto simp: is_lower_def bval_upper_char)

subsection \<open>\<open>strings.TrimSpace\<close>\<close>

text \<open>
  The UTF-8 encodings of the white space characters of \<open>unicode.IsSpace\<close>: the ASCII
  ones, U+0085, U+00A0, U+1680, U+2000 to U+200A, U+2028, U+2029, U+202F, U+205F, U+3000.
\<close>

definition ascii_spaces :: "char list" where
  "ascii_spaces = [CHR 0x09, CHR 0x0A, CHR 0x0B, CHR 0x0C, CHR 0x0D, CHR 0x20]"

definition spaces2 :: "bytes list" where
  "spaces2 = [[CHR 0xC2, CHR 0x85], [CHR 0xC2, CHR 0xA0]]"

definition spaces3 :: "bytes list" where
  "spaces3 =
     [[CHR 0xE1, CHR 0x9A, CHR 0x80], [CHR 0xE2, CHR 0x80, CHR 0x80], [CHR 0xE2, CHR 0x80, CHR 0x81],
      [CHR 0xE2, CHR 0x80, CHR 0x82], [CHR 0xE2, CHR 0x80, CHR 0x83], [CHR 0xE2, CHR 0x80, CHR 0x84],
      [CHR 0xE2, CHR 0x80, CHR 0x85], [CHR 0xE2, CHR 0x80, CHR 0x86], [CHR 0xE2, CHR 0x80, CHR 0x87],
      [CHR 0xE2, CHR 0x80, CHR 0x88], [CHR 0xE2, CHR 0x80, CHR 0x89], [CHR 0xE2, CHR 0x80, CHR 0x8A],
      [CHR 0xE2, CHR 0x80, CHR 0xA8], [CHR 0xE2, CHR 0x80, CHR 0xA9], [CHR 0xE2, CHR 0x80, CHR 0xAF],
      [CHR 0xE2, CHR 0x81, CHR 0x9F], [CHR 0xE3, CHR 0x80, CHR 0x80]]"

definition space_prefix :: "bytes \<Rightarrow> nat" where
  "space_prefix s =
     (case s of
        [] \<Rightarrow> 0
      | c # _ \<Rightarrow>
          if c \<in> set ascii_spaces then 1
          else if take 2 s \<in> set spaces2 then 2
          else if take 3 s \<in> set spaces3 then 3
          else 0)"

text \<open>The number of bytes of the white space character that ends \<open>rev r\<close>.\<close>

definition space_suffix :: "bytes \<Rightarrow> nat" where
  "space_suffix r =
     (case r of
        [] \<Rightarrow> 0
      | c # _ \<Rightarrow>
          if c \<in> set ascii_spaces then 1
          else if rev (take 2 r) \<in> set spaces2 then 2
          else if rev (take 3 r) \<in> set spaces3 then 3
          else 0)"

function trim_left :: "bytes \<Rightarrow> bytes" where
  "trim_left s = (if space_prefix s = 0 then s else trim_left (drop (space_prefix s) s))"
  by pat_completeness auto
termination
  by (relation "measure length") (auto simp: space_prefix_def split: list.splits if_splits)

declare trim_left.simps [simp del]

function trim_rev :: "bytes \<Rightarrow> bytes" where
  "trim_rev r = (if space_suffix r = 0 then r else trim_rev (drop (space_suffix r) r))"
  by pat_completeness auto
termination
  by (relation "measure length") (auto simp: space_suffix_def split: list.splits if_splits)

declare trim_rev.simps [simp del]

definition trim_space :: "bytes \<Rightarrow> bytes" where
  "trim_space s = rev (trim_rev (rev (trim_left s)))"

lemma trim_left_fixed: "space_prefix s = 0 \<Longrightarrow> trim_left s = s"
  by (simp add: trim_left.simps)

lemma trim_rev_fixed: "space_suffix r = 0 \<Longrightarrow> trim_rev r = r"
  by (simp add: trim_rev.simps)

lemma space_prefix_trim_left: "space_prefix (trim_left s) = 0"
  by (induction s rule: trim_left.induct) (metis trim_left.simps)

lemma space_suffix_trim_rev: "space_suffix (trim_rev r) = 0"
  by (induction r rule: trim_rev.induct) (metis trim_rev.simps)

lemma trim_left_suffix: "\<exists>p. s = p @ trim_left s"
proof (induction s rule: trim_left.induct)
  case (1 s)
  show ?case
  proof (cases "space_prefix s = 0")
    case True
    then show ?thesis by (simp add: trim_left_fixed)
  next
    case False
    with 1 obtain p where "drop (space_prefix s) s = p @ trim_left (drop (space_prefix s) s)"
      by blast
    then have "s = (take (space_prefix s) s @ p) @ trim_left s"
      using False by (metis append.assoc append_take_drop_id trim_left.simps)
    then show ?thesis ..
  qed
qed

lemma trim_rev_suffix: "\<exists>p. s = p @ trim_rev s"
proof (induction s rule: trim_rev.induct)
  case (1 s)
  show ?case
  proof (cases "space_suffix s = 0")
    case True
    then show ?thesis by (simp add: trim_rev_fixed)
  next
    case False
    with 1 obtain p where "drop (space_suffix s) s = p @ trim_rev (drop (space_suffix s) s)"
      by blast
    then have "s = (take (space_suffix s) s @ p) @ trim_rev s"
      using False by (metis append.assoc append_take_drop_id trim_rev.simps)
    then show ?thesis ..
  qed
qed

lemma trim_space_sublist: "\<exists>p q. s = p @ trim_space s @ q"
proof -
  obtain p where p: "s = p @ trim_left s"
    using trim_left_suffix by blast
  obtain q where "rev (trim_left s) = q @ trim_rev (rev (trim_left s))"
    using trim_rev_suffix by blast
  then have "trim_left s = trim_space s @ rev q"
    unfolding trim_space_def by (metis rev_append rev_rev_ident)
  with p show ?thesis by metis
qed

lemma length_trim_space: "length (trim_space s) \<le> length s"
  by (metis le_add1 le_add2 le_trans length_append trim_space_sublist)

lemma set_trim_space: "set (trim_space s) \<subseteq> set s"
  using trim_space_sublist [of s] by (metis UnCI set_append subsetI)

text \<open>Trimmed text is not trimmed again.\<close>

lemma take_mem_append: "take n s \<in> W \<Longrightarrow> \<forall>w \<in> W. length w = n \<Longrightarrow> take n (s @ t) \<in> W"
  by (metis diff_is_0_eq' append.right_neutral length_take min.absorb_iff2 min.commute take0 take_append)

lemma space_prefix_append_0:
  assumes "space_prefix (s @ t) = 0"
  shows "space_prefix s = 0"
proof (cases s)
  case (Cons c cs)
  have "\<forall>w \<in> set spaces2. length w = 2" "\<forall>w \<in> set spaces3. length w = 3"
    by (auto simp: spaces2_def spaces3_def)
  then have "take 2 s \<in> set spaces2 \<Longrightarrow> take 2 (s @ t) \<in> set spaces2"
    and "take 3 s \<in> set spaces3 \<Longrightarrow> take 3 (s @ t) \<in> set spaces3"
    by (simp_all only: take_mem_append)
  then show ?thesis
    using assms Cons unfolding space_prefix_def
    by (auto simp del: take_append take_Suc_Cons split: if_splits)
qed (simp add: space_prefix_def)

lemma trim_space_idem [simp]: "trim_space (trim_space s) = trim_space s"
proof -
  let ?l = "trim_left s"
  obtain q where q: "?l = trim_space s @ q"
    using trim_rev_suffix [of "rev ?l"] unfolding trim_space_def
    by (metis rev_append rev_rev_ident)
  have "space_prefix (trim_space s) = 0"
    using space_prefix_trim_left [of s] q by (metis space_prefix_append_0)
  then have "trim_left (trim_space s) = trim_space s"
    by (rule trim_left_fixed)
  moreover have "trim_rev (rev (trim_space s)) = rev (trim_space s)"
    by (simp add: trim_space_def trim_rev_fixed space_suffix_trim_rev)
  ultimately show ?thesis
    by (simp add: trim_space_def)
qed

subsection \<open>\<open>strings.ToUpper\<close>, \<open>strings.ContainsAny\<close>, \<open>strings.Cut\<close>\<close>

text \<open>
  Upper case of ASCII letters, and the two characters beyond ASCII whose upper case is
  an ASCII letter: dotless i (U+0131, bytes C4 B1) and long s (U+017F, bytes C5 BF). The
  upper case of any other character beyond ASCII is beyond ASCII; its bytes are kept
  here, which its only caller cannot tell apart, since it refuses every such byte.
\<close>

fun to_upper :: "bytes \<Rightarrow> bytes" where
  "to_upper [] = []"
| "to_upper [c] = [upper_char c]"
| "to_upper (c # d # cs) =
     (if c = CHR 0xC4 \<and> d = CHR 0xB1 then CHR ''I'' # to_upper cs
      else if c = CHR 0xC5 \<and> d = CHR 0xBF then CHR ''S'' # to_upper cs
      else upper_char c # to_upper (d # cs))"

lemma not_lower_IS: "\<not> is_lower (CHR ''I'')" "\<not> is_lower (CHR ''S'')"
  by (simp_all add: is_lower_def)

lemma to_upper_no_lower: "c \<in> set (to_upper s) \<Longrightarrow> \<not> is_lower c"
proof (induction s rule: to_upper.induct)
  case (3 x d cs)
  then show ?case
    by (auto simp: not_lower_upper_char not_lower_IS split: if_splits)
qed (auto simp: not_lower_upper_char)

lemma to_upper_ascii_fixed:
  "\<forall>c \<in> set s. is_ascii c \<and> \<not> is_lower c \<Longrightarrow> to_upper s = s"
  by (induction s rule: to_upper.induct) (auto simp: upper_char_def is_ascii_def)

definition contains_any :: "bytes \<Rightarrow> bytes \<Rightarrow> bool" where
  "contains_any s chars = list_ex (\<lambda>c. c \<in> set chars) s"

text \<open>\<open>strings.Cut\<close> at the first occurrence of a one-byte separator.\<close>

definition cut_at :: "char \<Rightarrow> bytes \<Rightarrow> bytes \<times> bytes \<times> bool" where
  "cut_at c s =
     (case dropWhile (\<lambda>x. x \<noteq> c) s of
        [] \<Rightarrow> (s, [], False)
      | _ # after \<Rightarrow> (takeWhile (\<lambda>x. x \<noteq> c) s, after, True))"

subsection \<open>\<open>http.CanonicalHeaderKey\<close>\<close>

text \<open>The bytes of an HTTP token (RFC 9110).\<close>

definition token_byte :: "char \<Rightarrow> bool" where
  "token_byte c \<longleftrightarrow>
     is_digit c \<or> is_upper c \<or> is_lower c \<or> c \<in> set ''!#$%&'' \<or> c = CHR 0x27 \<or> c \<in> set ''*+-.^_`|~''"

fun canon_key :: "bool \<Rightarrow> bytes \<Rightarrow> bytes" where
  "canon_key up [] = []"
| "canon_key up (c # cs) =
     (let c' = (if up then upper_char c else lower_char c)
      in c' # canon_key (c' = CHR ''-'') cs)"

definition canonical_header_key :: "bytes \<Rightarrow> bytes" where
  "canonical_header_key s = (if list_all token_byte s then canon_key True s else s)"

lemma canon_key_idem [simp]: "canon_key up (canon_key up s) = canon_key up s"
  by (induction up s rule: canon_key.induct) (auto simp: Let_def)

lemma token_byte_case [simp]:
  "token_byte c \<Longrightarrow> token_byte (upper_char c)" "token_byte c \<Longrightarrow> token_byte (lower_char c)"
  by (auto simp: token_byte_def is_lower_def is_upper_def bval_upper_char bval_lower_char
      upper_char_def lower_char_def)

lemma token_canon_key: "list_all token_byte s \<Longrightarrow> list_all token_byte (canon_key up s)"
  by (induction up s rule: canon_key.induct) (auto simp: Let_def)

lemma length_canon_key [simp]: "length (canon_key up s) = length s"
  by (induction up s rule: canon_key.induct) (auto simp: Let_def)

lemma canonical_header_key_idem [simp]:
  "canonical_header_key (canonical_header_key s) = canonical_header_key s"
  by (simp add: canonical_header_key_def token_canon_key)

lemma canonical_header_key_Nil_iff [simp]: "canonical_header_key s = [] \<longleftrightarrow> s = []"
  by (metis canonical_header_key_def length_0_conv length_canon_key)

subsection \<open>Decimal numbers: \<open>fmt\<close>'s \<open>%d\<close> and \<open>strconv.Itoa\<close>\<close>

definition digit_char :: "nat \<Rightarrow> char" where
  "digit_char n = char_of (48 + n)"

fun show_nat :: "nat \<Rightarrow> bytes" where
  "show_nat n = (if n < 10 then [digit_char n] else show_nat (n div 10) @ [digit_char (n mod 10)])"

declare show_nat.simps [simp del]

definition show_int :: "int \<Rightarrow> bytes" where
  "show_int i = (if i < 0 then CHR ''-'' # show_nat (nat (- i)) else show_nat (nat i))"

definition read_nat :: "bytes \<Rightarrow> nat" where
  "read_nat s = foldl (\<lambda>a c. 10 * a + (bval c - 48)) 0 s"

definition read_int :: "bytes \<Rightarrow> int" where
  "read_int s =
     (case s of
        [] \<Rightarrow> 0
      | c # cs \<Rightarrow> if c = CHR ''-'' then - int (read_nat cs) else int (read_nat s))"

lemma digit_char_simps: "n < 10 \<Longrightarrow> bval (digit_char n) = 48 + n" "n < 10 \<Longrightarrow> is_digit (digit_char n)"
  by (simp_all add: digit_char_def is_digit_def)

lemma show_nat_digits: "list_all is_digit (show_nat n)"
proof (induction n rule: show_nat.induct)
  case (1 n)
  then show ?case
    by (subst show_nat.simps) (auto simp: digit_char_simps)
qed

lemma show_nat_nonempty [simp]: "show_nat n \<noteq> []"
  by (subst show_nat.simps) simp

lemma read_show_nat [simp]: "read_nat (show_nat n) = n"
proof (induction n rule: show_nat.induct)
  case (1 n)
  then show ?case
    by (subst show_nat.simps) (auto simp: digit_char_simps read_nat_def)
qed

lemma show_nat_inject [simp]: "show_nat m = show_nat n \<longleftrightarrow> m = n"
  by (metis read_show_nat)

lemma hd_show_nat_digit: "is_digit (hd (show_nat n))"
  by (metis list.set_sel(1) list_all_iff show_nat_digits show_nat_nonempty)

lemma digit_not_minus: "is_digit c \<Longrightarrow> c \<noteq> CHR ''-''"
  by (auto simp: is_digit_def)

lemma read_show_int [simp]: "read_int (show_int i) = i"
proof (cases "i < 0")
  case True
  then show ?thesis by (simp add: show_int_def read_int_def)
next
  case False
  then have "show_int i = show_nat (nat i)"
    by (simp add: show_int_def)
  moreover have "hd (show_nat (nat i)) \<noteq> CHR ''-''"
    using hd_show_nat_digit digit_not_minus by blast
  ultimately show ?thesis
    using False read_show_nat [of "nat i"]
    by (cases "show_nat (nat i)") (auto simp: read_int_def simp del: read_show_nat)
qed

lemma show_int_inject [simp]: "show_int i = show_int j \<longleftrightarrow> i = j"
  by (metis read_show_int)

lemma show_int_chars: "c \<in> set (show_int i) \<Longrightarrow> is_digit c \<or> c = CHR ''-''"
  using show_nat_digits by (fastforce simp: show_int_def list_all_iff split: if_splits)

lemma show_int_nonneg: "0 \<le> i \<Longrightarrow> list_all is_digit (show_int i)"
  by (simp add: show_int_def show_nat_digits)

text \<open>The first character of a decimal is zero for the number zero only.\<close>

lemma hd_show_nat_zero: "hd (show_nat n) = CHR ''0'' \<longleftrightarrow> n = 0"
proof (induction n rule: show_nat.induct)
  case (1 n)
  show ?case
  proof (cases "n < 10")
    case True
    then have "bval (digit_char n) = 48 + n"
      by (rule digit_char_simps)
    then have "digit_char n = CHR ''0'' \<longleftrightarrow> n = 0"
      by (simp add: bval_inject [symmetric] del: of_char_eq_iff)
    then show ?thesis
      using True by (subst show_nat.simps) simp
  next
    case False
    then show ?thesis
      using "1" by (subst show_nat.simps) auto
  qed
qed

subsection \<open>\<open>encoding/hex\<close>\<close>

definition hex_char :: "nat \<Rightarrow> char" where
  "hex_char n = (if n < 10 then char_of (48 + n) else char_of (87 + n))"

fun hex_encode :: "bytes \<Rightarrow> bytes" where
  "hex_encode [] = []"
| "hex_encode (c # cs) = hex_char (bval c div 16) # hex_char (bval c mod 16) # hex_encode cs"

definition hex_digit :: "char \<Rightarrow> bool" where
  "hex_digit c \<longleftrightarrow> is_digit c \<or> (97 \<le> bval c \<and> bval c \<le> 102)"

lemma bval_hex_char: "n < 16 \<Longrightarrow> bval (hex_char n) = (if n < 10 then 48 + n else 87 + n)"
  by (simp add: hex_char_def)

lemma hex_char_inject: "m < 16 \<Longrightarrow> n < 16 \<Longrightarrow> hex_char m = hex_char n \<longleftrightarrow> m = n"
  by (auto simp: bval_hex_char simp flip: bval_inject split: if_splits)

lemma hex_digit_hex_char: "n < 16 \<Longrightarrow> hex_digit (hex_char n)"
  by (auto simp: hex_digit_def is_digit_def bval_hex_char)

lemma bval_div_16: "bval c div 16 < 16"
  using bval_lt [of c] by (simp add: less_mult_imp_div_less)

lemma length_hex_encode [simp]: "length (hex_encode s) = 2 * length s"
  by (induction s) auto

lemma hex_encode_digits: "list_all hex_digit (hex_encode s)"
  by (induction s) (auto simp: hex_digit_hex_char bval_div_16)

lemma hex_encode_inject [simp]: "hex_encode s = hex_encode t \<longleftrightarrow> s = t"
proof (induction s arbitrary: t)
  case Nil
  then show ?case by (cases t) auto
next
  case (Cons c cs)
  show ?case
  proof (cases t)
    case (Cons d ds)
    have "c = d" if "bval c div 16 = bval d div 16" "bval c mod 16 = bval d mod 16"
      using that by (metis bval_inject div_mult_mod_eq)
    with Cons Cons.IH show ?thesis
      by (auto simp: hex_char_inject bval_div_16)
  qed simp
qed

subsection \<open>\<open>base64.StdEncoding\<close>\<close>

definition b64_char :: "nat \<Rightarrow> char" where
  "b64_char n =
     (if n < 26 then char_of (65 + n)
      else if n < 52 then char_of (71 + n)
      else if n < 62 then char_of (n - 4)
      else if n = 62 then CHR ''+'' else CHR ''/'')"

definition b64_val :: "char \<Rightarrow> nat option" where
  "b64_val c =
     (if is_upper c then Some (bval c - 65)
      else if is_lower c then Some (bval c - 71)
      else if is_digit c then Some (bval c + 4)
      else if c = CHR ''+'' then Some 62
      else if c = CHR ''/'' then Some 63
      else None)"

fun b64_encode :: "bytes \<Rightarrow> bytes" where
  "b64_encode [] = []"
| "b64_encode [x] = [b64_char (bval x div 4), b64_char (bval x mod 4 * 16), CHR ''='', CHR ''='']"
| "b64_encode [x, y] =
     [b64_char (bval x div 4), b64_char (bval x mod 4 * 16 + bval y div 16),
      b64_char (bval y mod 16 * 4), CHR ''='']"
| "b64_encode (x # y # z # s) =
     b64_char (bval x div 4) # b64_char (bval x mod 4 * 16 + bval y div 16)
     # b64_char (bval y mod 16 * 4 + bval z div 64) # b64_char (bval z mod 64) # b64_encode s"

definition join1 :: "nat \<Rightarrow> nat \<Rightarrow> char" where
  "join1 i j = char_of (i * 4 + j div 16)"

definition join2 :: "nat \<Rightarrow> nat \<Rightarrow> char" where
  "join2 j k = char_of (j mod 16 * 16 + k div 4)"

definition join3 :: "nat \<Rightarrow> nat \<Rightarrow> char" where
  "join3 k l = char_of (k mod 4 * 64 + l)"

text \<open>
  Strict decoding of a text without line breaks: full groups of four, and a last group
  with one or two padding characters whose unused bits are zero.
\<close>

fun b64_groups :: "bytes \<Rightarrow> bytes option" where
  "b64_groups [] = Some []"
| "b64_groups (a # b # c # d # s) =
     (case (b64_val a, b64_val b) of
        (Some i, Some j) \<Rightarrow>
          (case b64_val c of
             None \<Rightarrow>
               if c = CHR ''='' \<and> d = CHR ''='' \<and> s = [] \<and> j mod 16 = 0
               then Some [join1 i j] else None
           | Some k \<Rightarrow>
               (case b64_val d of
                  None \<Rightarrow>
                    if d = CHR ''='' \<and> s = [] \<and> k mod 4 = 0
                    then Some [join1 i j, join2 j k]
                    else None
                | Some l \<Rightarrow>
                    map_option (\<lambda>r. join1 i j # join2 j k # join3 k l # r) (b64_groups s)))
      | _ \<Rightarrow> None)"
| "b64_groups _ = None"

text \<open>\<open>Strict().DecodeString\<close>: line breaks are skipped, wherever they are.\<close>

definition b64_decode :: "bytes \<Rightarrow> bytes option" where
  "b64_decode s = b64_groups (filter (\<lambda>c. c \<noteq> CHR 0x0A \<and> c \<noteq> CHR 0x0D) s)"

definition b64_byte :: "char \<Rightarrow> bool" where
  "b64_byte c \<longleftrightarrow> is_upper c \<or> is_lower c \<or> is_digit c \<or> c \<in> set ''+/=''"

lemma bval_b64_char:
  "n < 64 \<Longrightarrow> bval (b64_char n) =
     (if n < 26 then 65 + n else if n < 52 then 71 + n else if n < 62 then n - 4
      else if n = 62 then 43 else 47)"
  by (auto simp: b64_char_def)

lemma b64_val_char [simp]: "n < 64 \<Longrightarrow> b64_val (b64_char n) = Some n"
  unfolding b64_val_def is_upper_def is_lower_def is_digit_def
  by (auto simp: bval_b64_char simp flip: bval_inject)

lemma b64_val_pad [simp]: "b64_val (CHR ''='') = None"
  by (simp add: b64_val_def is_upper_def is_lower_def is_digit_def)

lemma b64_byte_char: "n < 64 \<Longrightarrow> b64_byte (b64_char n)"
  unfolding b64_byte_def is_upper_def is_lower_def is_digit_def
  by (auto simp: bval_b64_char simp flip: bval_inject)

lemma byte_quotients: "bval x div 4 < 64" "bval x div 16 < 16" "bval x div 64 < 4"
  using bval_lt [of x] by (simp_all add: less_mult_imp_div_less)

lemma mod_times_lt: "0 < m \<Longrightarrow> r < k \<Longrightarrow> (a::nat) mod m * k + r < m * k"
proof -
  assume "0 < m" "r < k"
  then have "a mod m * k + r < Suc (a mod m) * k"
    by simp
  also have "\<dots> \<le> m * k"
    using \<open>0 < m\<close> by (intro mult_le_mono1) (simp add: Suc_leI)
  finally show ?thesis .
qed

lemma sextets [simp]:
  "bval x div 4 < 64" "bval x mod 4 * 16 < 64" "bval x mod 4 * 16 + bval y div 16 < 64"
  "bval y mod 16 * 4 < 64" "bval y mod 16 * 4 + bval z div 64 < 64" "bval z mod 64 < 64"
  using mod_times_lt [of 4 "bval y div 16" 16 "bval x"] mod_times_lt [of 4 0 16 "bval x"]
    mod_times_lt [of 16 "bval z div 64" 4 "bval y"] mod_times_lt [of 16 0 4 "bval y"]
  by (simp_all add: byte_quotients)

lemma split_join: "r < k \<Longrightarrow> (a * k + r) div k = (a::nat)" "r < k \<Longrightarrow> (a * k + r) mod k = r"
  by (simp_all add: div_mult_self3 mod_mult_self3)

lemma join_split [simp]:
  "join1 (bval x div 4) (bval x mod 4 * 16) = x"
  "join1 (bval x div 4) (bval x mod 4 * 16 + bval y div 16) = x"
  "join2 (bval x mod 4 * 16 + bval y div 16) (bval y mod 16 * 4) = y"
  "join2 (bval x mod 4 * 16 + bval y div 16) (bval y mod 16 * 4 + bval z div 64) = y"
  "join3 (bval y mod 16 * 4 + bval z div 64) (bval z mod 64) = z"
proof -
  have "(bval x mod 4 * 16 + bval y div 16) div 16 = bval x mod 4"
    "(bval x mod 4 * 16 + bval y div 16) mod 16 = bval y div 16"
    "(bval y mod 16 * 4 + bval z div 64) div 4 = bval y mod 16"
    "(bval y mod 16 * 4 + bval z div 64) mod 4 = bval z div 64"
    "bval x mod 4 * 16 div 16 = bval x mod 4" "bval y mod 16 * 4 div 4 = bval y mod 16"
    by (simp_all only: split_join byte_quotients nonzero_mult_div_cancel_right
        zero_neq_numeral not_False_eq_True)
  then show "join1 (bval x div 4) (bval x mod 4 * 16) = x"
    "join1 (bval x div 4) (bval x mod 4 * 16 + bval y div 16) = x"
    "join2 (bval x mod 4 * 16 + bval y div 16) (bval y mod 16 * 4) = y"
    "join2 (bval x mod 4 * 16 + bval y div 16) (bval y mod 16 * 4 + bval z div 64) = y"
    "join3 (bval y mod 16 * 4 + bval z div 64) (bval z mod 64) = z"
    by (simp_all only: join1_def join2_def join3_def div_mult_mod_eq char_of_char)
qed

lemma b64_groups_encode [simp]: "b64_groups (b64_encode s) = Some s"
  by (induction s rule: b64_encode.induct) simp_all

lemma b64_byte_pad: "b64_byte (CHR ''='')"
  by (simp add: b64_byte_def)

lemma b64_encode_bytes: "list_all b64_byte (b64_encode s)"
  by (induction s rule: b64_encode.induct) (auto simp: b64_byte_char b64_byte_pad)

lemma b64_decode_encode [simp]: "b64_decode (b64_encode s) = Some s"
proof -
  have "filter (\<lambda>c. c \<noteq> CHR 0x0A \<and> c \<noteq> CHR 0x0D) (b64_encode s) = b64_encode s"
    using b64_encode_bytes [of s]
    by (auto simp: filter_id_conv list_all_iff b64_byte_def is_upper_def is_lower_def is_digit_def)
  then show ?thesis
    by (simp add: b64_decode_def)
qed

lemma b64_encode_Nil_iff [simp]: "b64_encode s = [] \<longleftrightarrow> s = []"
  by (cases s rule: b64_encode.cases) auto

end
