(* ===== verification/JsonScan.thy ===== *)
theory JsonScan
  imports GoText
begin

section \<open>The JSON scanner of \<open>encoding/json\<close>\<close>

text \<open>
  \<open>json.Valid\<close>, \<open>json.Marshal\<close> and \<open>json.Unmarshal\<close> all run the same pushdown
  scanner over their text: a state, and a stack that says for each open object or array
  what the scanner waits for. The stack holds at most \<open>lim\<close> entries (10000 in the
  library); a text nested deeper is refused. The model keeps that limit, since what the
  journal can hold depends on it: every level of wrapping uses one of the levels.

  The lemmas are what the journal needs: a text scanned inside a container scans as it
  does alone (\<open>scan_frame\<close>), the value of a member ends where it should
  (\<open>value_run\<close>), and no proper prefix of an object is a valid text.
\<close>

datatype pstate = ParseObjectKey | ParseObjectValue | ParseArrayValue

datatype jstate =
    BeginValueOrEmpty | BeginValue | BeginStringOrEmpty | BeginString | EndValue | EndTop
  | InString | InStringEsc | InHex nat
  | Neg | Num1 | Num0 | Dot | Dot0 | ExpE | ExpSign | Exp0
  | InLit bytes | ScanError

type_synonym scanner = "jstate \<times> pstate list"

definition is_jspace :: "char \<Rightarrow> bool" where
  "is_jspace c \<longleftrightarrow> c = CHR '' '' \<or> c = CHR 0x09 \<or> c = CHR 0x0D \<or> c = CHR 0x0A"

definition is_hex :: "char \<Rightarrow> bool" where
  "is_hex c \<longleftrightarrow> is_digit c \<or> (97 \<le> bval c \<and> bval c \<le> 102) \<or> (65 \<le> bval c \<and> bval c \<le> 70)"

text \<open>\<open>pushParseState\<close> and \<open>popParseState\<close>.\<close>

definition push_state :: "nat \<Rightarrow> pstate \<Rightarrow> jstate \<Rightarrow> pstate list \<Rightarrow> scanner" where
  "push_state lim p q st = (if length st < lim then (q, p # st) else (ScanError, st))"

definition pop_state :: "pstate list \<Rightarrow> scanner" where
  "pop_state st = (if st = [] then EndTop else EndValue, st)"

text \<open>\<open>stateEndValue\<close>: what may follow a value.\<close>

fun end_value :: "pstate list \<Rightarrow> char \<Rightarrow> scanner" where
  "end_value [] c = (if is_jspace c then (EndTop, []) else (ScanError, []))"
| "end_value (p # st) c =
     (if is_jspace c then (EndValue, p # st)
      else case p of
        ParseObjectKey \<Rightarrow>
          if c = CHR '':'' then (BeginValue, ParseObjectValue # st) else (ScanError, p # st)
      | ParseObjectValue \<Rightarrow>
          if c = CHR '','' then (BeginString, ParseObjectKey # st)
          else if c = CHR ''}'' then pop_state st else (ScanError, p # st)
      | ParseArrayValue \<Rightarrow>
          if c = CHR '','' then (BeginValue, p # st)
          else if c = CHR '']'' then pop_state st else (ScanError, p # st))"

definition begin_value :: "nat \<Rightarrow> pstate list \<Rightarrow> char \<Rightarrow> scanner" where
  "begin_value lim st c =
     (if is_jspace c then (BeginValue, st)
      else if c = CHR ''{'' then push_state lim ParseObjectKey BeginStringOrEmpty st
      else if c = CHR ''['' then push_state lim ParseArrayValue BeginValueOrEmpty st
      else if c = CHR 0x22 then (InString, st)
      else if c = CHR ''-'' then (Neg, st)
      else if c = CHR ''0'' then (Num0, st)
      else if is_digit c then (Num1, st)
      else if c = CHR ''t'' then (InLit ''rue'', st)
      else if c = CHR ''f'' then (InLit ''alse'', st)
      else if c = CHR ''n'' then (InLit ''ull'', st)
      else (ScanError, st))"

definition begin_string :: "pstate list \<Rightarrow> char \<Rightarrow> scanner" where
  "begin_string st c =
     (if is_jspace c then (BeginString, st)
      else if c = CHR 0x22 then (InString, st)
      else (ScanError, st))"

text \<open>\<open>state0\<close>: after the integer part of a number.\<close>

definition after_int :: "pstate list \<Rightarrow> char \<Rightarrow> scanner" where
  "after_int st c =
     (if c = CHR ''.'' then (Dot, st)
      else if c = CHR ''e'' \<or> c = CHR ''E'' then (ExpE, st)
      else end_value st c)"

fun jstep :: "nat \<Rightarrow> scanner \<Rightarrow> char \<Rightarrow> scanner" where
  "jstep lim (BeginValueOrEmpty, st) c =
     (if is_jspace c then (BeginValueOrEmpty, st)
      else if c = CHR '']'' then end_value st c
      else begin_value lim st c)"
| "jstep lim (BeginValue, st) c = begin_value lim st c"
| "jstep lim (BeginStringOrEmpty, st) c =
     (if is_jspace c then (BeginStringOrEmpty, st)
      else if c = CHR ''}'' then end_value (ParseObjectValue # tl st) c
      else begin_string st c)"
| "jstep lim (BeginString, st) c = begin_string st c"
| "jstep lim (EndValue, st) c = end_value st c"
| "jstep lim (EndTop, st) c = (if is_jspace c then (EndTop, st) else (ScanError, st))"
| "jstep lim (InString, st) c =
     (if c = CHR 0x22 then (EndValue, st)
      else if c = CHR 0x5C then (InStringEsc, st)
      else if bval c < 32 then (ScanError, st)
      else (InString, st))"
| "jstep lim (InStringEsc, st) c =
     (if c \<in> set ''bfnrt/'' \<or> c = CHR 0x5C \<or> c = CHR 0x22 then (InString, st)
      else if c = CHR ''u'' then (InHex 3, st)
      else (ScanError, st))"
| "jstep lim (InHex n, st) c =
     (if is_hex c then (if n = 0 then (InString, st) else (InHex (n - 1), st))
      else (ScanError, st))"
| "jstep lim (Neg, st) c =
     (if c = CHR ''0'' then (Num0, st) else if is_digit c then (Num1, st) else (ScanError, st))"
| "jstep lim (Num1, st) c = (if is_digit c then (Num1, st) else after_int st c)"
| "jstep lim (Num0, st) c = after_int st c"
| "jstep lim (Dot, st) c = (if is_digit c then (Dot0, st) else (ScanError, st))"
| "jstep lim (Dot0, st) c =
     (if is_digit c then (Dot0, st)
      else if c = CHR ''e'' \<or> c = CHR ''E'' then (ExpE, st)
      else end_value st c)"
| "jstep lim (ExpE, st) c =
     (if c = CHR ''+'' \<or> c = CHR ''-'' then (ExpSign, st)
      else if is_digit c then (Exp0, st) else (ScanError, st))"
| "jstep lim (ExpSign, st) c = (if is_digit c then (Exp0, st) else (ScanError, st))"
| "jstep lim (Exp0, st) c = (if is_digit c then (Exp0, st) else end_value st c)"
| "jstep lim (InLit w, st) c =
     (case w of
        [] \<Rightarrow> (ScanError, st)
      | x # xs \<Rightarrow>
          if c = x then (if xs = [] then EndValue else InLit xs, st) else (ScanError, st))"
| "jstep lim (ScanError, st) c = (ScanError, st)"

definition scan :: "nat \<Rightarrow> scanner \<Rightarrow> bytes \<Rightarrow> scanner" where
  "scan lim r s = foldl (jstep lim) r s"

text \<open>\<open>json.Valid\<close> (\<open>checkValid\<close>): scan the text, then one space as the end of input.\<close>

definition json_valid_lim :: "nat \<Rightarrow> bytes \<Rightarrow> bool" where
  "json_valid_lim lim s = (fst (jstep lim (scan lim (BeginValue, []) s) (CHR '' '')) = EndTop)"

definition max_nesting :: nat where
  "max_nesting = 10000"

definition json_valid :: "bytes \<Rightarrow> bool" where
  "json_valid s = json_valid_lim max_nesting s"

lemma scan_Nil [simp]: "scan lim r [] = r"
  by (simp add: scan_def)

lemma scan_Cons [simp]: "scan lim r (c # s) = scan lim (jstep lim r c) s"
  by (simp add: scan_def)

lemma scan_append [simp]: "scan lim r (s @ t) = scan lim (scan lim r s) t"
  by (simp add: scan_def)

lemma jstep_error [simp]: "jstep lim (ScanError, st) c = (ScanError, st)"
  by simp

lemma scan_error: "scan lim (ScanError, st) s = (ScanError, st)"
  by (induction s) auto

lemma scan_ok_prefix: "fst (scan lim r (s @ t)) \<noteq> ScanError \<Longrightarrow> fst (scan lim r s) \<noteq> ScanError"
  by (metis prod.collapse scan_append scan_error)

subsection \<open>Scanning inside a container\<close>

text \<open>Where the stack cannot be empty, where it must be, and what a literal holds.\<close>

definition scanner_ok :: "scanner \<Rightarrow> bool" where
  "scanner_ok r \<longleftrightarrow>
     (fst r \<in> {BeginStringOrEmpty, BeginValueOrEmpty} \<longrightarrow> snd r \<noteq> []) \<and>
     (fst r = EndTop \<longrightarrow> snd r = []) \<and> (\<forall>w. fst r = InLit w \<longrightarrow> list_all is_lower w)"

lemmas step_defs = begin_value_def begin_string_def after_int_def push_state_def pop_state_def

lemma end_value_ok: "scanner_ok (end_value st c)"
  by (cases st) (auto simp: scanner_ok_def pop_state_def split: pstate.splits)

lemma jstep_ok: "scanner_ok r \<Longrightarrow> scanner_ok (jstep lim r c)"
  using end_value_ok
  by (cases "(lim, r, c)" rule: jstep.cases)
    (auto simp: scanner_ok_def step_defs is_lower_def split: list.splits)

lemma scan_ok: "scanner_ok r \<Longrightarrow> scanner_ok (scan lim r s)"
  by (induction s arbitrary: r) (simp_all only: scan_Nil scan_Cons jstep_ok)

text \<open>The state of a scanner that runs on top of the open containers \<open>b\<close>.\<close>

definition frame :: "pstate list \<Rightarrow> scanner \<Rightarrow> scanner" where
  "frame b r = (if fst r = EndTop then (EndValue, b) else (fst r, snd r @ b))"

lemma frame_end_value:
  assumes "b \<noteq> []" "fst (end_value st c) \<noteq> ScanError"
  shows "end_value (st @ b) c = frame b (end_value st c)"
proof (cases st)
  case Nil
  then have "is_jspace c"
    using assms(2) by (auto split: if_splits)
  then show ?thesis
    using Nil assms(1) by (cases b) (auto simp: frame_def)
next
  case (Cons p ps)
  then show ?thesis
    using assms by (cases p) (auto simp: frame_def pop_state_def split: if_splits)
qed

lemma end_value_space: "b \<noteq> [] \<Longrightarrow> is_jspace c \<Longrightarrow> end_value b c = (EndValue, b)"
  by (cases b) auto

lemma frame_jstep:
  assumes "b \<noteq> []" "scanner_ok r" "lim + length b \<le> lim'" "fst (jstep lim r c) \<noteq> ScanError"
  shows "jstep lim' (frame b r) c = frame b (jstep lim r c)"
proof (cases "(lim, r, c)" rule: jstep.cases)
  case (3 l st d)
  then obtain p ps where "st = p # ps"
    using assms(2) by (cases st) (auto simp: scanner_ok_def)
  with 3 assms show ?thesis
    by (auto simp: frame_def step_defs split: if_splits)
qed (use assms in \<open>auto simp: frame_end_value end_value_space frame_def step_defs split: if_splits list.splits\<close>)


lemma frame_scan:
  assumes "b \<noteq> []" "scanner_ok r" "lim + length b \<le> lim'" "fst (scan lim r s) \<noteq> ScanError"
  shows "scan lim' (frame b r) s = frame b (scan lim r s)"
  using assms(2,4)
proof (induction s arbitrary: r)
  case (Cons c s)
  then have "fst (jstep lim r c) \<noteq> ScanError"
    using scan_ok_prefix [of lim r "[c]" s] by simp
  with Cons assms(1,3) show ?case
    by (simp add: frame_jstep jstep_ok)
qed simp

text \<open>With the same limit the stack may overflow; nothing else can differ.\<close>

lemma frame_jstep_or_error:
  assumes "b \<noteq> []" "scanner_ok r" "fst (jstep lim r c) \<noteq> ScanError"
  shows "jstep lim (frame b r) c = frame b (jstep lim r c) \<or> fst (jstep lim (frame b r) c) = ScanError"
proof (cases "(lim, r, c)" rule: jstep.cases)
  case (3 l st d)
  then obtain p ps where "st = p # ps"
    using assms(2) by (cases st) (auto simp: scanner_ok_def)
  with 3 assms show ?thesis
    by (auto simp: frame_def step_defs split: if_splits)
qed (use assms in \<open>auto simp: frame_end_value end_value_space frame_def step_defs
      split: if_splits list.splits\<close>)

lemma frame_scan_or_error:
  assumes "b \<noteq> []" "scanner_ok r" "fst (scan lim r s) \<noteq> ScanError"
  shows "scan lim (frame b r) s = frame b (scan lim r s) \<or> fst (scan lim (frame b r) s) = ScanError"
  using assms(2,3)
proof (induction s arbitrary: r)
  case (Cons c s)
  then have ok: "fst (jstep lim r c) \<noteq> ScanError"
    using scan_ok_prefix [of lim r "[c]" s] by simp
  from frame_jstep_or_error [OF assms(1) Cons.prems(1) ok] show ?case
  proof
    assume "jstep lim (frame b r) c = frame b (jstep lim r c)"
    with Cons ok show ?thesis by (simp add: jstep_ok)
  next
    assume "fst (jstep lim (frame b r) c) = ScanError"
    then show ?thesis
      by (metis prod.collapse scan_Cons scan_error)
  qed
qed simp

text \<open>A scanner that has read a complete value with the containers \<open>b\<close> open.\<close>

definition ended :: "pstate list \<Rightarrow> scanner \<Rightarrow> bool" where
  "ended b r \<longleftrightarrow> fst r \<in> {EndValue, Num1, Num0, Dot0, Exp0} \<and> snd r = b"

lemma ended_step:
  "ended b r \<Longrightarrow> c \<in> set '',}]:'' \<Longrightarrow> jstep lim r c = end_value b c"
  by (cases r) (auto simp: ended_def after_int_def is_digit_def)

lemma end_value_top: "is_jspace c \<Longrightarrow> fst (end_value st c) = EndTop \<longleftrightarrow> st = []"
  by (cases st) auto

lemma space_to_top:
  assumes "fst (jstep lim r (CHR '' '')) = EndTop" "scanner_ok r"
  shows "snd r = [] \<and> (fst r = EndTop \<or> ended [] r)"
proof -
  have "is_jspace (CHR '' '')" "\<not> is_digit (CHR '' '')"
    by (simp_all add: is_jspace_def is_digit_def)
  with assms show ?thesis
    by (cases "(lim, r, CHR '' '')" rule: jstep.cases)
      (auto simp: ended_def step_defs scanner_ok_def is_hex_def end_value_top
        split: if_splits list.splits)
qed

lemma valid_scan:
  assumes "json_valid_lim lim v"
  shows "fst (scan lim (BeginValue, []) v) = EndTop \<or> ended [] (scan lim (BeginValue, []) v)"
    and "snd (scan lim (BeginValue, []) v) = []" and "fst (scan lim (BeginValue, []) v) \<noteq> ScanError"
proof -
  let ?r = "scan lim (BeginValue, []) v"
  have "scanner_ok ?r"
    by (rule scan_ok) (simp add: scanner_ok_def)
  with assms have "snd ?r = [] \<and> (fst ?r = EndTop \<or> ended [] ?r)"
    unfolding json_valid_lim_def by (intro space_to_top) auto
  then show "fst ?r = EndTop \<or> ended [] ?r" "snd ?r = []" "fst ?r \<noteq> ScanError"
    by (auto simp: ended_def)
qed

lemma value_run:
  assumes "json_valid_lim lim v" "b \<noteq> []" "lim + length b \<le> lim'"
  shows "ended b (scan lim' (BeginValue, b) v)"
proof -
  have "scan lim' (frame b (BeginValue, [])) v = frame b (scan lim (BeginValue, []) v)"
    using assms valid_scan(3) by (intro frame_scan) (auto simp: scanner_ok_def)
  then show ?thesis
    using valid_scan [OF assms(1)] by (auto simp: frame_def ended_def)
qed

lemma jstep_mono:
  assumes "fst (jstep lim r c) \<noteq> ScanError" "lim \<le> lim'"
  shows "jstep lim' r c = jstep lim r c"
proof (cases "(lim, r, c)" rule: jstep.cases)
qed (use assms in \<open>auto simp: step_defs split: if_splits\<close>)

lemma scan_mono:
  "fst (scan lim r s) \<noteq> ScanError \<Longrightarrow> lim \<le> lim' \<Longrightarrow> scan lim' r s = scan lim r s"
proof (induction s arbitrary: r)
  case (Cons c s)
  then have "fst (jstep lim r c) \<noteq> ScanError"
    using scan_ok_prefix [of lim r "[c]" s] by simp
  then have "jstep lim' r c = jstep lim r c"
    using Cons.prems(2) by (rule jstep_mono)
  with Cons show ?case
    by simp
qed simp

lemma json_valid_mono:
  assumes "json_valid_lim lim v" "lim \<le> lim'"
  shows "json_valid_lim lim' v"
proof -
  let ?s = "v @ '' ''"
  have "fst (scan lim (BeginValue, []) ?s) = EndTop"
    using assms(1) by (simp add: json_valid_lim_def)
  then have "scan lim' (BeginValue, []) ?s = scan lim (BeginValue, []) ?s"
    using assms(2) by (intro scan_mono) simp_all
  with assms(1) show ?thesis
    by (simp add: json_valid_lim_def)
qed

subsection \<open>Prefixes of an object, and what may follow them\<close>

text \<open>Once the scanner has closed the last container it only accepts white space.\<close>

definition closed_ok :: "scanner \<Rightarrow> bool" where
  "closed_ok r \<longleftrightarrow> (snd r = [] \<longrightarrow> fst r = EndTop \<or> fst r = ScanError)"

lemma closed_ok_end_value: "closed_ok (end_value st c)"
  by (cases st) (auto simp: closed_ok_def pop_state_def split: pstate.splits)

lemma closed_ok_jstep:
  assumes "closed_ok r"
  shows "closed_ok (jstep lim r c)"
proof (cases "(lim, r, c)" rule: jstep.cases)
qed (use assms closed_ok_end_value in \<open>auto simp: closed_ok_def step_defs split: list.splits\<close>)

lemma closed_ok_scan: "closed_ok r \<Longrightarrow> closed_ok (scan lim r s)"
  by (induction s arbitrary: r) (simp_all only: scan_Nil scan_Cons closed_ok_jstep)

lemma scan_top_spaces:
  "fst (scan lim (EndTop, st) s) \<noteq> ScanError \<Longrightarrow> \<forall>c \<in> set s. is_jspace c"
  by (induction s) (auto simp: scan_error split: if_splits)

lemma open_not_top:
  assumes "snd r \<noteq> []" "scanner_ok r"
  shows "fst (jstep lim r (CHR '' '')) \<noteq> EndTop"
  using assms space_to_top by blast

text \<open>The text of an object: valid, from its brace to its closing brace.\<close>

definition object_text :: "nat \<Rightarrow> bytes \<Rightarrow> bool" where
  "object_text lim t \<longleftrightarrow> json_valid_lim lim t \<and> t \<noteq> [] \<and> hd t = CHR ''{'' \<and> last t = CHR ''}''"

lemma object_brace:
  assumes "fst (jstep lim (BeginValue, []) (CHR ''{'')) \<noteq> ScanError"
  shows "jstep lim (BeginValue, []) (CHR ''{'') = (BeginStringOrEmpty, [ParseObjectKey])"
  using assms by (auto simp: step_defs is_jspace_def split: if_splits)

lemma object_open_prefix:
  assumes t: "object_text lim t" and p: "t = p @ q" "p \<noteq> []" "q \<noteq> []"
  defines "r \<equiv> scan lim (BeginValue, []) p"
  shows "fst r \<noteq> ScanError" "snd r \<noteq> []" "scanner_ok r"
proof -
  have err: "fst (scan lim (BeginValue, []) t) \<noteq> ScanError"
    using t valid_scan(3) by (simp add: object_text_def)
  then show ok: "fst r \<noteq> ScanError"
    unfolding r_def p(1) by (rule scan_ok_prefix)
  show "scanner_ok r"
    unfolding r_def by (rule scan_ok) (simp add: scanner_ok_def)
  obtain p' where p': "p = CHR ''{'' # p'"
    using t p by (cases p) (auto simp: object_text_def)
  have "fst (jstep lim (BeginValue, []) (CHR ''{'')) \<noteq> ScanError"
    using scan_ok_prefix [of lim "(BeginValue, [])" "[CHR ''{'']"] ok by (simp add: r_def p')
  then have "r = scan lim (BeginStringOrEmpty, [ParseObjectKey]) p'"
    using object_brace [of lim] by (simp add: r_def p' del: jstep.simps)
  then have "closed_ok r"
    by (simp only:) (rule closed_ok_scan, simp add: closed_ok_def)
  show "snd r \<noteq> []"
  proof
    assume "snd r = []"
    with \<open>closed_ok r\<close> ok have "r = (EndTop, [])"
      by (cases r) (auto simp: closed_ok_def)
    then have "\<forall>c \<in> set q. is_jspace c"
      using err scan_top_spaces [of lim "[]" q] unfolding p(1) scan_append r_def by simp
    moreover have "last t \<in> set q"
      using p by simp
    ultimately have "is_jspace (last t)"
      by blast
    moreover have "last t = CHR ''}''"
      using t by (simp add: object_text_def)
    ultimately show False
      by (simp add: is_jspace_def)
  qed
qed

text \<open>No proper prefix of an object is a valid text.\<close>

lemma object_prefix_invalid:
  assumes "object_text lim t" "t = p @ q" "q \<noteq> []"
  shows "\<not> json_valid_lim lim p"
proof (cases "p = []")
  case True
  then show ?thesis
    by (simp add: json_valid_lim_def begin_value_def is_jspace_def)
next
  case False
  let ?r = "scan lim (BeginValue, []) p"
  have "snd ?r \<noteq> []" "scanner_ok ?r"
    using object_open_prefix(2,3) [OF assms(1,2) False assms(3)] by simp_all
  then show ?thesis
    unfolding json_valid_lim_def by (rule open_not_top)
qed

text \<open>
  A line that starts with a torn record and goes on with a complete one is not valid
  either: wherever the first object was cut (a nonempty prefix of it, or all of it), no
  state of the scanner accepts an object whose first key starts with a letter.
\<close>

lemma error_step: "fst r = ScanError \<Longrightarrow> fst (jstep lim r c) = ScanError"
  by (cases r) simp

lemma brace_elsewhere:
  assumes "scanner_ok r" "fst r \<noteq> BeginValue" "fst r \<noteq> BeginValueOrEmpty"
  shows "fst (jstep lim r (CHR ''{'')) = ScanError \<or> jstep lim r (CHR ''{'') = (InString, snd r) \<and> fst r = InString"
proof -
  have "\<not> is_jspace (CHR ''{'')" "\<not> is_digit (CHR ''{'')" "\<not> is_hex (CHR ''{'')" "\<not> is_lower (CHR ''{'')"
    by (simp_all add: is_jspace_def is_digit_def is_hex_def is_lower_def)
  moreover have "fst (end_value st (CHR ''{'')) = ScanError" for st
    using \<open>\<not> is_jspace (CHR ''{'')\<close> by (cases st) (auto split: pstate.splits)
  ultimately show ?thesis
    using assms
    by (cases "(lim, r, CHR ''{'')" rule: jstep.cases)
      (auto simp: scanner_ok_def step_defs split: list.splits)
qed

lemma brace_quote_v:
  assumes "scanner_ok r" "fst r \<noteq> BeginValue" "fst r \<noteq> BeginValueOrEmpty"
  shows "fst (scan lim r (CHR ''{'' # CHR 0x22 # CHR ''v'' # w)) = ScanError"
proof -
  have v: "fst (end_value st (CHR ''v'')) = ScanError" for st
    by (cases st) (auto simp: is_jspace_def split: pstate.splits)
  from brace_elsewhere [OF assms, of lim]
  have "fst (scan lim r [CHR ''{'', CHR 0x22, CHR ''v'']) = ScanError"
    by (elim disjE conjE) (auto simp: v error_step)
  then show ?thesis
    using scan_ok_prefix [of lim r "[CHR ''{'', CHR 0x22, CHR ''v'']" w] by auto
qed

lemma glued_not_top:
  assumes r: "scanner_ok r" "snd r \<noteq> []"
    and u: "json_valid_lim lim u" "u = CHR ''{'' # CHR 0x22 # CHR ''v'' # w"
  shows "fst (jstep lim (scan lim r u) (CHR '' '')) \<noteq> EndTop"
proof (cases "fst r = BeginValue \<or> fst r = BeginValueOrEmpty")
  case True
  then obtain st where st: "r = (BeginValue, st) \<or> r = (BeginValueOrEmpty, st)" "st \<noteq> []"
    using r(2) by (cases r) auto
  have same: "scan lim r u = scan lim (frame st (BeginValue, [])) u"
    using st(1) by (auto simp: u(2) frame_def is_jspace_def)
  have "scan lim r u = frame st (scan lim (BeginValue, []) u) \<or> fst (scan lim r u) = ScanError"
    unfolding same using st(2) valid_scan(3) [OF u(1)]
    by (intro frame_scan_or_error) (auto simp: scanner_ok_def)
  then show ?thesis
  proof
    assume "scan lim r u = frame st (scan lim (BeginValue, []) u)"
    then have "scan lim r u = (EndValue, st) \<or> ended st (scan lim r u)"
      using valid_scan [OF u(1)] by (auto simp: frame_def ended_def)
    then show ?thesis
      using st(2) open_not_top [of "scan lim r u" lim] by (auto simp: ended_def scanner_ok_def)
  next
    assume "fst (scan lim r u) = ScanError"
    then show ?thesis
      using error_step by fastforce
  qed
next
  case False
  then have "fst (scan lim r u) = ScanError"
    using r(1) brace_quote_v unfolding u(2) by blast
  then show ?thesis
    using error_step by fastforce
qed

lemma glued_invalid:
  assumes t: "object_text lim t" "t = p @ q" "p \<noteq> []"
    and u: "json_valid_lim lim u" "u = CHR ''{'' # CHR 0x22 # CHR ''v'' # w"
  shows "\<not> json_valid_lim lim (p @ u)"
proof -
  let ?r = "scan lim (BeginValue, []) p"
  have "scanner_ok ?r"
    by (rule scan_ok) (simp add: scanner_ok_def)
  show ?thesis
  proof (cases "q = []")
    case False
    then have "snd ?r \<noteq> []"
      using t object_open_prefix(2) by blast
    with \<open>scanner_ok ?r\<close> have "fst (jstep lim (scan lim ?r u) (CHR '' '')) \<noteq> EndTop"
      using u by (rule glued_not_top)
    then show ?thesis
      by (simp only: json_valid_lim_def scan_append not_False_eq_True)
  next
    case True
    then have "json_valid_lim lim p"
      using t by (simp add: object_text_def)
    then have "fst ?r \<noteq> BeginValue" "fst ?r \<noteq> BeginValueOrEmpty"
      using valid_scan(1) by (fastforce simp: ended_def)+
    then have "fst (scan lim ?r u) = ScanError"
      using \<open>scanner_ok ?r\<close> brace_quote_v unfolding u(2) by blast
    then show ?thesis
      unfolding json_valid_lim_def scan_append using error_step by fastforce
  qed
qed

subsection \<open>How deep a text may nest\<close>

text \<open>\<open>n\<close> arrays inside one another.\<close>

definition nested :: "nat \<Rightarrow> bytes" where
  "nested n = replicate n (CHR ''['') @ replicate n (CHR '']'')"

lemma scan_open_arrays:
  "0 < n \<Longrightarrow> fst r = BeginValue \<or> fst r = BeginValueOrEmpty \<Longrightarrow>
   length (snd r) + n \<le> lim \<Longrightarrow>
   scan lim r (replicate n (CHR ''['')) = (BeginValueOrEmpty, replicate n ParseArrayValue @ snd r)"
proof (induction n arbitrary: r)
  case (Suc n)
  have "jstep lim r (CHR ''['') = (BeginValueOrEmpty, ParseArrayValue # snd r)"
    using Suc.prems by (cases r) (auto simp: step_defs is_jspace_def)
  moreover have "scan lim (BeginValueOrEmpty, ParseArrayValue # snd r) (replicate n (CHR ''['')) =
      (BeginValueOrEmpty, replicate n ParseArrayValue @ ParseArrayValue # snd r)"
    using Suc by (cases "n = 0") auto
  ultimately show ?case
    by (simp add: replicate_app_Cons_same del: jstep.simps)
qed simp

lemma scan_open_overflow:
  assumes "fst r = BeginValue \<or> fst r = BeginValueOrEmpty" "lim < length (snd r) + n" "length (snd r) \<le> lim"
  shows "fst (scan lim r (replicate n (CHR ''[''))) = ScanError"
  using assms
proof (induction n arbitrary: r)
  case (Suc n)
  show ?case
  proof (cases "length (snd r) < lim")
    case True
    then have "jstep lim r (CHR ''['') = (BeginValueOrEmpty, ParseArrayValue # snd r)"
      using Suc.prems by (cases r) (auto simp: step_defs is_jspace_def)
    then show ?thesis
      using Suc True by simp
  next
    case False
    then have "fst (jstep lim r (CHR ''['')) = ScanError"
      using Suc.prems by (cases r) (auto simp: step_defs is_jspace_def)
    then show ?thesis
      using scan_error [of lim "snd (jstep lim r (CHR ''[''))"] by (metis fst_conv prod.collapse replicate_Suc scan_Cons)
  qed
qed simp

lemma scan_close_arrays:
  "scan lim (EndValue, replicate n ParseArrayValue) (replicate n (CHR '']'')) =
     (if n = 0 then EndValue else EndTop, [])"
proof (induction n)
  case (Suc n)
  then show ?case
    by (cases n) (auto simp: pop_state_def is_jspace_def)
qed simp

lemma json_valid_nested:
  assumes "0 < n"
  shows "json_valid_lim lim (nested n) \<longleftrightarrow> n \<le> lim"
proof (cases "n \<le> lim")
  case True
  then have "scan lim (BeginValue, []) (replicate n (CHR ''['')) =
      (BeginValueOrEmpty, replicate n ParseArrayValue)"
    using assms scan_open_arrays [of n "(BeginValue, [])" lim] by simp
  moreover have "jstep lim (BeginValueOrEmpty, replicate n ParseArrayValue) (CHR '']'') =
      jstep lim (EndValue, replicate n ParseArrayValue) (CHR '']'')"
    by (simp add: is_jspace_def)
  ultimately have "scan lim (BeginValue, []) (nested n) = (EndTop, [])"
    using assms scan_close_arrays [of lim n] unfolding nested_def by (cases n) auto
  with True show ?thesis
    by (simp add: json_valid_lim_def is_jspace_def)
next
  case False
  then have "fst (scan lim (BeginValue, []) (replicate n (CHR ''[''))) = ScanError"
    by (intro scan_open_overflow) auto
  then have "fst (scan lim (BeginValue, []) (nested n)) = ScanError"
    unfolding nested_def scan_append using scan_error by (metis prod.collapse)
  with False show ?thesis
    unfolding json_valid_lim_def using error_step by fastforce
qed

end
