(* ===== verification/JsonText.thy ===== *)
theory JsonText
  imports JsonScan
begin

section \<open>JSON strings and compaction\<close>

text \<open>
  How \<open>encoding/json\<close> writes and reads a string, and \<open>compact\<close>, which
  \<open>json.Marshal\<close> applies to a \<open>json.RawMessage\<close> and to what a \<open>MarshalJSON\<close> method
  returns. Both escape the characters \<open>< > &\<close> and the line separators U+2028 and U+2029;
  writing replaces bytes that are not UTF-8 by U+FFFD.
\<close>

subsection \<open>UTF-8\<close>

definition continuation :: "char \<Rightarrow> bool" where
  "continuation c \<longleftrightarrow> 128 \<le> bval c \<and> bval c < 192"

text \<open>The range of the second byte depends on the first (\<open>unicode/utf8\<close>).\<close>

definition second_ok :: "char \<Rightarrow> char \<Rightarrow> bool" where
  "second_ok c d \<longleftrightarrow>
     (if bval c = 224 then 160 \<le> bval d \<and> bval d < 192
      else if bval c = 237 then 128 \<le> bval d \<and> bval d < 160
      else if bval c = 240 then 144 \<le> bval d \<and> bval d < 192
      else if bval c = 244 then 128 \<le> bval d \<and> bval d < 144
      else continuation d)"

text \<open>The length of the valid encoding at the start of a text; 0 if there is none.\<close>

definition rune_len :: "bytes \<Rightarrow> nat" where
  "rune_len s =
     (case s of
        [] \<Rightarrow> 0
      | c # cs \<Rightarrow>
          if bval c < 128 then 1
          else if 194 \<le> bval c \<and> bval c < 224 then
            (case cs of d # _ \<Rightarrow> if second_ok c d then 2 else 0 | _ \<Rightarrow> 0)
          else if 224 \<le> bval c \<and> bval c < 240 then
            (case cs of d # e # _ \<Rightarrow> if second_ok c d \<and> continuation e then 3 else 0 | _ \<Rightarrow> 0)
          else if 240 \<le> bval c \<and> bval c < 245 then
            (case cs of
               d # e # f # _ \<Rightarrow> if second_ok c d \<and> continuation e \<and> continuation f then 4 else 0
             | _ \<Rightarrow> 0)
          else 0)"

definition replacement :: bytes where
  "replacement = [CHR 0xEF, CHR 0xBF, CHR 0xBD]"

text \<open>A text with every byte that is not part of a valid encoding replaced by U+FFFD.\<close>

function valid_utf8 :: "bytes \<Rightarrow> bytes" where
  "valid_utf8 s =
     (case s of
        [] \<Rightarrow> []
      | c # cs \<Rightarrow>
          if rune_len s = 0 then replacement @ valid_utf8 cs
          else take (rune_len s) s @ valid_utf8 (drop (rune_len s) s))"
  by pat_completeness auto
termination
  by (relation "measure length") auto

declare valid_utf8.simps [simp del]

definition is_utf8 :: "bytes \<Rightarrow> bool" where
  "is_utf8 s \<longleftrightarrow> valid_utf8 s = s"

definition encode_rune :: "nat \<Rightarrow> bytes" where
  "encode_rune r =
     (if r < 128 then [char_of r]
      else if r < 2048 then [char_of (192 + r div 64), char_of (128 + r mod 64)]
      else if r < 65536 then
        [char_of (224 + r div 4096), char_of (128 + r div 64 mod 64), char_of (128 + r mod 64)]
      else
        [char_of (240 + r div 262144), char_of (128 + r div 4096 mod 64),
         char_of (128 + r div 64 mod 64), char_of (128 + r mod 64)])"

subsection \<open>Writing strings\<close>

definition is_html :: "char \<Rightarrow> bool" where
  "is_html c \<longleftrightarrow> c = CHR ''<'' \<or> c = CHR ''>'' \<or> c = CHR ''&''"

definition unicode_escape :: "char \<Rightarrow> bytes" where
  "unicode_escape c =
     [CHR 0x5C, CHR ''u'', CHR ''0'', CHR ''0'', hex_char (bval c div 16), hex_char (bval c mod 16)]"

definition escape_char :: "char \<Rightarrow> bytes" where
  "escape_char c =
     (if c = CHR 0x22 \<or> c = CHR 0x5C then [CHR 0x5C, c]
      else if c = CHR 0x08 then [CHR 0x5C, CHR ''b'']
      else if c = CHR 0x0C then [CHR 0x5C, CHR ''f'']
      else if c = CHR 0x0A then [CHR 0x5C, CHR ''n'']
      else if c = CHR 0x0D then [CHR 0x5C, CHR ''r'']
      else if c = CHR 0x09 then [CHR 0x5C, CHR ''t'']
      else if bval c < 32 \<or> is_html c then unicode_escape c
      else [c])"

definition line_sep :: "bytes \<Rightarrow> bool" where
  "line_sep s \<longleftrightarrow>
     take 3 s = [CHR 0xE2, CHR 0x80, CHR 0xA8] \<or> take 3 s = [CHR 0xE2, CHR 0x80, CHR 0xA9]"

definition line_sep_escape :: "bytes \<Rightarrow> bytes" where
  "line_sep_escape s =
     [CHR 0x5C, CHR ''u'', CHR ''2'', CHR ''0'', CHR ''2'',
      if take 3 s = [CHR 0xE2, CHR 0x80, CHR 0xA8] then CHR ''8'' else CHR ''9'']"

function quote_from :: "bytes \<Rightarrow> bytes" where
  "quote_from s =
     (case s of
        [] \<Rightarrow> []
      | c # cs \<Rightarrow>
          if bval c < 128 then escape_char c @ quote_from cs
          else if rune_len s = 0 then [CHR 0x5C, CHR ''u'', CHR ''f'', CHR ''f'', CHR ''f'', CHR ''d''] @ quote_from cs
          else if line_sep s then line_sep_escape s @ quote_from (drop 3 s)
          else take (rune_len s) s @ quote_from (drop (rune_len s) s))"
  by pat_completeness auto
termination
  by (relation "measure length") auto

declare quote_from.simps [simp del]

definition json_string :: "bytes \<Rightarrow> bytes" where
  "json_string s = CHR 0x22 # quote_from s @ [CHR 0x22]"

subsection \<open>Reading strings\<close>

definition hex_val :: "char \<Rightarrow> nat option" where
  "hex_val c =
     (if is_digit c then Some (bval c - 48)
      else if 97 \<le> bval c \<and> bval c \<le> 102 then Some (bval c - 87)
      else if 65 \<le> bval c \<and> bval c \<le> 70 then Some (bval c - 55)
      else None)"

fun hex4 :: "bytes \<Rightarrow> nat option" where
  "hex4 (a # b # c # d # _) =
     (case (hex_val a, hex_val b, hex_val c, hex_val d) of
        (Some i, Some j, Some k, Some l) \<Rightarrow> Some (((i * 16 + j) * 16 + k) * 16 + l)
      | _ \<Rightarrow> None)"
| "hex4 _ = None"

definition simple_escape :: "char \<Rightarrow> char option" where
  "simple_escape c =
     (if c = CHR 0x22 \<or> c = CHR 0x5C \<or> c = CHR ''/'' then Some c
      else if c = CHR ''b'' then Some (CHR 0x08)
      else if c = CHR ''f'' then Some (CHR 0x0C)
      else if c = CHR ''n'' then Some (CHR 0x0A)
      else if c = CHR ''r'' then Some (CHR 0x0D)
      else if c = CHR ''t'' then Some (CHR 0x09)
      else None)"

text \<open>
  The text of a low surrogate escape right after a high surrogate \<open>r\<close>: the character the
  pair stands for.
\<close>

definition surrogate_pair :: "nat \<Rightarrow> bytes \<Rightarrow> nat option" where
  "surrogate_pair r s =
     (case s of
        b # u # t \<Rightarrow>
          if b = CHR 0x5C \<and> u = CHR ''u'' then
            (case hex4 t of
               None \<Rightarrow> None
             | Some r2 \<Rightarrow>
                 if 55296 \<le> r \<and> r < 56320 \<and> 56320 \<le> r2 \<and> r2 < 57344
                 then Some ((r - 55296) * 1024 + (r2 - 56320) + 65536) else None)
          else None
      | _ \<Rightarrow> None)"

function unquote_from :: "bytes \<Rightarrow> bytes option" where
  "unquote_from s =
     (case s of
        [] \<Rightarrow> Some []
      | c # cs \<Rightarrow>
          if c = CHR 0x5C then
            (case cs of
               [] \<Rightarrow> None
             | d # ds \<Rightarrow>
                 if d = CHR ''u'' then
                   (case hex4 ds of
                      None \<Rightarrow> None
                    | Some r \<Rightarrow>
                        if 55296 \<le> r \<and> r < 57344 then
                          (case surrogate_pair r (drop 4 ds) of
                             Some r' \<Rightarrow> map_option ((@) (encode_rune r')) (unquote_from (drop 10 ds))
                           | None \<Rightarrow> map_option ((@) replacement) (unquote_from (drop 4 ds)))
                        else map_option ((@) (encode_rune r)) (unquote_from (drop 4 ds)))
                 else
                   (case simple_escape d of
                      None \<Rightarrow> None
                    | Some x \<Rightarrow> map_option ((#) x) (unquote_from ds)))
          else if c = CHR 0x22 \<or> bval c < 32 then None
          else if rune_len s = 0 then map_option ((@) replacement) (unquote_from cs)
          else map_option ((@) (take (rune_len s) s)) (unquote_from (drop (rune_len s) s)))"
  by pat_completeness auto
termination
  by (relation "measure length") auto

declare unquote_from.simps [simp del]

definition json_unquote :: "bytes \<Rightarrow> bytes option" where
  "json_unquote s =
     (if 2 \<le> length s \<and> hd s = CHR 0x22 \<and> last s = CHR 0x22 then unquote_from (butlast (tl s)) else None)"

subsection \<open>Runes\<close>

text \<open>A multi-byte character at the start of a text: its bytes, whatever follows.\<close>

definition is_rune :: "bytes \<Rightarrow> bool" where
  "is_rune r \<longleftrightarrow> 2 \<le> length r \<and> rune_len r = length r"

lemma rune_len_bound: "rune_len s \<le> length s"
  by (auto simp: rune_len_def split: list.splits)

lemma rune_len_append:
  assumes "rune_len s \<noteq> 0"
  shows "rune_len (s @ t) = rune_len s"
proof (cases s)
  case (Cons c cs)
  with assms show ?thesis
    by (cases cs; cases "tl cs"; cases "tl (tl cs)") (simp_all add: rune_len_def split: if_splits)
qed (use assms in \<open>simp add: rune_len_def\<close>)

lemma rune_len_take: "rune_len (take (rune_len s) s) = rune_len s"
proof (cases s)
  case (Cons c cs)
  then show ?thesis
    by (cases cs; cases "tl cs"; cases "tl (tl cs)") (simp_all add: rune_len_def split: if_splits)
qed (simp add: rune_len_def)

lemma rune_len_ascii [simp]: "bval c < 128 \<Longrightarrow> rune_len (c # cs) = 1"
  by (simp add: rune_len_def)

lemma rune_len_big: "128 \<le> bval c \<Longrightarrow> rune_len (c # cs) \<noteq> 1"
  by (auto simp: rune_len_def split: list.splits if_splits)

lemma second_ok_continuation: "second_ok c d \<Longrightarrow> continuation d"
  by (auto simp: second_ok_def continuation_def split: if_splits)

lemma rune_cases:
  assumes "128 \<le> bval c"
  obtains (bad) "rune_len (c # cs) = 0"
  | (rune) r t where "c # cs = r @ t" "is_rune r" "r = take (rune_len (c # cs)) (c # cs)"
      "t = drop (rune_len (c # cs)) (c # cs)"
proof (cases "rune_len (c # cs) = 0")
  case False
  let ?s = "c # cs"
  have "2 \<le> rune_len ?s"
    using False rune_len_big [OF assms, of cs] by linarith
  then have "is_rune (take (rune_len ?s) ?s)"
    using rune_len_bound [of ?s] rune_len_take [of ?s] by (simp only: is_rune_def length_take min.absorb2)
  then show ?thesis
    by (intro rune) simp_all
qed (rule bad)

lemma rune_bytes:
  assumes "is_rune r"
  shows "128 \<le> bval (hd r)" "\<forall>c \<in> set (tl r). continuation c" "r \<noteq> []" "\<forall>c \<in> set r. 128 \<le> bval c"
proof -
  show hd: "128 \<le> bval (hd r)" and "r \<noteq> []"
    using assms by (cases r; force simp: is_rune_def rune_len_def split: if_splits)+
  show tl: "\<forall>c \<in> set (tl r). continuation c"
    using assms by (auto simp: is_rune_def rune_len_def second_ok_continuation split: list.splits if_splits)
  with hd \<open>r \<noteq> []\<close> show "\<forall>c \<in> set r. 128 \<le> bval c"
    by (cases r) (auto simp: continuation_def)
qed

lemma rune_len_rune: "is_rune r \<Longrightarrow> rune_len (r @ t) = length r"
  using rune_len_append [of r t] by (cases r) (auto simp: is_rune_def)

text \<open>Induction on a text by characters.\<close>

lemma rune_induct [case_names Nil ascii bad rune]:
  assumes "P []"
    and "\<And>c cs. bval c < 128 \<Longrightarrow> P cs \<Longrightarrow> P (c # cs)"
    and "\<And>c cs. 128 \<le> bval c \<Longrightarrow> rune_len (c # cs) = 0 \<Longrightarrow> P cs \<Longrightarrow> P (c # cs)"
    and "\<And>r t. is_rune r \<Longrightarrow> P t \<Longrightarrow> P (r @ t)"
  shows "P s"
proof (induction s rule: length_induct)
  case (1 s)
  show ?case
  proof (cases s)
    case Nil
    with assms(1) show ?thesis by simp
  next
    case (Cons c cs)
    show ?thesis
    proof (cases "bval c < 128")
      case True
      with assms(2) 1 Cons show ?thesis by simp
    next
      case False
      then have "128 \<le> bval c" by simp
      then show ?thesis
      proof (cases rule: rune_cases [of c cs])
        case bad
        with assms(3) 1 Cons False show ?thesis by simp
      next
        case (rune r t)
        then have "length t < length s"
          using Cons rune_bytes(3) [of r] by (metis add_cancel_left_left append_eq_conv_conj length_append
              length_greater_0_conv less_add_same_cancel2)
        with assms(4) 1 Cons rune show ?thesis by metis
      qed
    qed
  qed
qed

lemma rune_shape:
  assumes "is_rune r"
  obtains c cs where "r = c # cs" "128 \<le> bval c" "\<not> bval c < 128" "c \<noteq> CHR 0x5C" "c \<noteq> CHR 0x22"
proof -
  obtain c cs where "r = c # cs" "128 \<le> bval c"
    using rune_bytes [OF assms] by (cases r) auto
  then show ?thesis
    by (intro that) auto
qed

lemma valid_utf8_simps [simp]:
  "valid_utf8 [] = []"
  "bval c < 128 \<Longrightarrow> valid_utf8 (c # cs) = c # valid_utf8 cs"
  "rune_len (c # cs) = 0 \<Longrightarrow> valid_utf8 (c # cs) = replacement @ valid_utf8 cs"
  by (simp_all add: valid_utf8.simps)

lemma valid_utf8_rune [simp]:
  assumes "is_rune r"
  shows "valid_utf8 (r @ t) = r @ valid_utf8 t"
proof -
  have "rune_len (r @ t) = length r" "r \<noteq> []"
    using assms rune_len_rune rune_bytes(3) by auto
  moreover from this(2) obtain c cs where "r @ t = c # cs"
    by (cases r) auto
  ultimately show ?thesis
    by (subst valid_utf8.simps) (simp, metis append_eq_conv_conj)
qed

lemma is_rune_replacement: "is_rune replacement"
  by (simp add: is_rune_def replacement_def rune_len_def second_ok_def continuation_def)

lemma valid_utf8_idem [simp]: "valid_utf8 (valid_utf8 s) = valid_utf8 s"
  by (induction s rule: rune_induct) (auto simp: is_rune_replacement)

lemma is_utf8_valid [simp]: "is_utf8 (valid_utf8 s)"
  by (simp add: is_utf8_def)

lemma is_utf8_ascii: "list_all is_ascii s \<Longrightarrow> is_utf8 s"
  by (induction s) (auto simp: is_utf8_def is_ascii_def)

subsection \<open>What is written reads back\<close>

lemma quote_simps [simp]:
  "quote_from [] = []"
  "bval c < 128 \<Longrightarrow> quote_from (c # cs) = escape_char c @ quote_from cs"
  "128 \<le> bval c \<Longrightarrow> rune_len (c # cs) = 0 \<Longrightarrow>
     quote_from (c # cs) = [CHR 0x5C, CHR ''u'', CHR ''f'', CHR ''f'', CHR ''f'', CHR ''d''] @ quote_from cs"
  by (simp_all add: quote_from.simps)

lemma rune_len_sep: "continuation x \<Longrightarrow> rune_len (CHR 0xE2 # CHR 0x80 # x # s) = 3"
  by (simp add: rune_len_def second_ok_def continuation_def)

lemma line_sep_length:
  assumes "is_rune r" "line_sep r"
  shows "length r = 3"
proof -
  obtain x where x: "take 3 r = [CHR 0xE2, CHR 0x80, x]" "continuation x"
    using assms(2) by (auto simp: line_sep_def continuation_def)
  then have "r = CHR 0xE2 # CHR 0x80 # x # drop 3 r"
    by (metis append_Cons append_Nil append_take_drop_id)
  then have "rune_len r = 3"
    using x(2) by (metis rune_len_sep)
  with assms(1) show ?thesis
    by (simp add: is_rune_def)
qed

lemma quote_rune:
  assumes "is_rune r"
  shows "quote_from (r @ t) = (if line_sep r then line_sep_escape r else r) @ quote_from t"
proof -
  obtain c cs where r: "r = c # cs" "\<not> bval c < 128"
    using assms by (rule rune_shape)
  have len: "rune_len (r @ t) = length r" "length r \<noteq> 0"
    using rune_len_rune [OF assms] r(1) by simp_all
  have two: "take 2 (x # y # zs) = [x, y]" for x y :: char and zs
    by (simp add: numeral_2_eq_2)
  have sep: "line_sep (r @ t) = line_sep r \<and> line_sep_escape (r @ t) = line_sep_escape r \<and> (line_sep r \<longrightarrow> length r = 3)"
  proof (cases "3 \<le> length r")
    case True
    moreover have "length r = 3" if "line_sep r"
      using assms that by (rule line_sep_length)
    moreover have "take 3 (r @ t) = take 3 r"
      using True by simp
    ultimately show ?thesis
      unfolding line_sep_def line_sep_escape_def by metis
  next
    case False
    then have "length r = 2"
      using assms by (simp add: is_rune_def)
    then obtain d where "r = [c, d]"
      using r by (cases cs) auto
    then have "bval c < 224"
      using assms by (auto simp: is_rune_def rune_len_def split: if_splits)
    then show ?thesis
      using \<open>r = [c, d]\<close> by (auto simp: line_sep_def line_sep_escape_def)
  qed
  show ?thesis
    using r len sep by (subst quote_from.simps) auto
qed


lemma append_single_eq: "(@) [c] = (#) c"
  by (intro ext) simp

lemma unquote_Nil [simp]: "unquote_from [] = Some []"
  by (simp add: unquote_from.simps)

lemma unquote_plain [simp]:
  "bval c < 128 \<Longrightarrow> 32 \<le> bval c \<Longrightarrow> c \<noteq> CHR 0x22 \<Longrightarrow> c \<noteq> CHR 0x5C \<Longrightarrow>
     unquote_from (c # cs) = map_option ((#) c) (unquote_from cs)"
  by (subst unquote_from.simps) (simp add: append_single_eq)

lemma unquote_simple [simp]:
  "d \<noteq> CHR ''u'' \<Longrightarrow> simple_escape d = Some x \<Longrightarrow>
     unquote_from (CHR 0x5C # d # cs) = map_option ((#) x) (unquote_from cs)"
  by (subst unquote_from.simps) simp

lemma unquote_hex:
  assumes "hex4 (i # j # k # l # cs) = Some r" "\<not> (55296 \<le> r \<and> r < 57344)"
  shows "unquote_from (CHR 0x5C # CHR ''u'' # i # j # k # l # cs) =
       map_option ((@) (encode_rune r)) (unquote_from cs)"
  using assms by (subst unquote_from.simps) (auto simp del: hex4.simps)

lemma unquote_rune:
  assumes "is_rune r"
  shows "unquote_from (r @ t) = map_option ((@) r) (unquote_from t)"
proof -
  obtain c cs where r: "r = c # cs" "128 \<le> bval c" "c \<noteq> CHR 0x5C" "c \<noteq> CHR 0x22"
    using assms by (rule rune_shape)
  have "rune_len (r @ t) = length r" "length r \<noteq> 0"
    using rune_len_rune [OF assms] r(1) by simp_all
  with r show ?thesis
    by (subst unquote_from.simps) auto
qed

lemma hex_val_hex_char: "n < 16 \<Longrightarrow> hex_val (hex_char n) = Some n"
  by (auto simp: hex_val_def is_digit_def bval_hex_char)

lemma hex4_escape:
  "hex4 (CHR ''0'' # CHR ''0'' # hex_char (bval c div 16) # hex_char (bval c mod 16) # cs) = Some (bval c)"
proof -
  have "hex_val (CHR ''0'') = Some 0"
    by (simp add: hex_val_def is_digit_def)
  then show ?thesis
    by (simp add: hex_val_hex_char bval_div_16)
qed

lemma unquote_escape_char:
  assumes "bval c < 128"
  shows "unquote_from (escape_char c @ s) = map_option ((#) c) (unquote_from s)"
proof -
  have "unquote_from (unicode_escape c @ s) = map_option ((#) c) (unquote_from s)"
  proof -
    have "encode_rune (bval c) = [c]"
      using assms by (simp add: encode_rune_def)
    then have "(@) (encode_rune (bval c)) = (#) c"
      by (intro ext) simp
    moreover have "\<not> (55296 \<le> bval c \<and> bval c < 57344)"
      using assms by simp
    ultimately show ?thesis
      using unquote_hex [OF hex4_escape [of c s]] by (simp add: unicode_escape_def)
  qed
  then show ?thesis
    using assms unfolding escape_char_def by (auto simp: simple_escape_def)
qed

text \<open>A string reads back as it was, but for bytes that are not UTF-8.\<close>

lemma char_of_eq_bval: "n < 256 \<Longrightarrow> char_of n = c \<longleftrightarrow> bval c = n"
  by (metis bval_char_of char_of_char)

lemma unquote_quote_from: "unquote_from (quote_from s) = Some (valid_utf8 s)"
proof (induction s rule: rune_induct)
  case (bad c cs)
  have "hex4 (CHR ''f'' # CHR ''f'' # CHR ''f'' # CHR ''d'' # quote_from cs) = Some 65533"
    by (simp add: hex_val_def is_digit_def)
  moreover have "encode_rune 65533 = replacement"
    by (simp add: encode_rune_def replacement_def char_of_eq_bval)
  ultimately show ?case
    using bad by (simp add: unquote_hex)
next
  case (rune r t)
  show ?case
  proof (cases "line_sep r")
    case True
    have e8: "encode_rune 8232 = [CHR 0xE2, CHR 0x80, CHR 0xA8]"
      "encode_rune 8233 = [CHR 0xE2, CHR 0x80, CHR 0xA9]"
      by (simp_all add: encode_rune_def char_of_eq_bval)
    define d where "d = (if take 3 r = [CHR 0xE2, CHR 0x80, CHR 0xA8] then CHR ''8'' else CHR ''9'')"
    have "length r = 3"
      using rune(1) True by (rule line_sep_length)
    then have r: "take 3 r = r"
      by simp
    have "hex4 (CHR ''2'' # CHR ''0'' # CHR ''2'' # d # quote_from t) =
        Some (if r = [CHR 0xE2, CHR 0x80, CHR 0xA8] then 8232 else 8233)"
      by (simp add: hex_val_def is_digit_def d_def r)
    moreover have "encode_rune (if r = [CHR 0xE2, CHR 0x80, CHR 0xA8] then 8232 else 8233) = r"
      using True r e8 by (auto simp: line_sep_def)
    ultimately show ?thesis
      using rune True unquote_hex by (simp add: quote_rune line_sep_escape_def d_def [symmetric])
  next
    case False
    with rune show ?thesis
      by (simp add: quote_rune unquote_rune)
  qed
qed (simp_all add: unquote_escape_char)

lemma json_unquote_string [simp]: "json_unquote (json_string s) = Some (valid_utf8 s)"
  by (simp add: json_unquote_def json_string_def unquote_quote_from)

lemma json_unquote_string_utf8: "is_utf8 s \<Longrightarrow> json_unquote (json_string s) = Some s"
  by (simp add: is_utf8_def)

subsection \<open>Compaction\<close>

text \<open>
  \<open>appendCompact\<close> with HTML escaping: whether the text is outside strings, inside one,
  or after a backslash inside one.
\<close>

datatype jmode = Out | In | Esc

definition mode_step :: "jmode \<Rightarrow> char \<Rightarrow> jmode" where
  "mode_step m c =
     (case m of
        Out \<Rightarrow> if c = CHR 0x22 then In else Out
      | In \<Rightarrow> if c = CHR 0x22 then Out else if c = CHR 0x5C then Esc else In
      | Esc \<Rightarrow> In)"

definition mode_run :: "jmode \<Rightarrow> bytes \<Rightarrow> jmode" where
  "mode_run m s = foldl mode_step m s"

function compact_from :: "jmode \<Rightarrow> bytes \<Rightarrow> bytes" where
  "compact_from m s =
     (case s of
        [] \<Rightarrow> []
      | c # cs \<Rightarrow>
          if is_html c then unicode_escape c @ compact_from (mode_step m c) cs
          else if line_sep s then line_sep_escape s @ compact_from (mode_step m c) (drop 3 s)
          else if m = Out \<and> is_jspace c then compact_from Out cs
          else c # compact_from (mode_step m c) cs)"
  by pat_completeness auto
termination
  by (relation "measure (\<lambda>(m, s). length s)") auto

declare compact_from.simps [simp del]

text \<open>\<open>compact\<close> fails on a text that is not valid.\<close>

definition json_compact :: "bytes \<Rightarrow> bytes option" where
  "json_compact s = (if json_valid s then Some (compact_from Out s) else None)"

lemma mode_run_simps [simp]:
  "mode_run m [] = m" "mode_run m (c # s) = mode_run (mode_step m c) s"
  "mode_run m (s @ t) = mode_run (mode_run m s) t"
  by (simp_all add: mode_run_def)

lemma compact_Nil [simp]: "compact_from m [] = []"
  by (simp add: compact_from.simps)

lemma compact_html: "is_html c \<Longrightarrow> compact_from m (c # cs) = unicode_escape c @ compact_from (mode_step m c) cs"
  by (subst compact_from.simps) simp

lemma compact_sep:
  "line_sep (c # cs) \<Longrightarrow> \<not> is_html c \<Longrightarrow>
   compact_from m (c # cs) = line_sep_escape (c # cs) @ compact_from (mode_step m c) (drop 2 cs)"
  by (subst compact_from.simps) (simp add: numeral_3_eq_3 numeral_2_eq_2)

lemma compact_space:
  "is_jspace c \<Longrightarrow> compact_from Out (c # cs) = compact_from Out cs"
  by (subst compact_from.simps) (auto simp: is_html_def is_jspace_def line_sep_def)

lemma compact_char:
  "\<not> is_html c \<Longrightarrow> \<not> line_sep (c # cs) \<Longrightarrow> m \<noteq> Out \<or> \<not> is_jspace c \<Longrightarrow>
   compact_from m (c # cs) = c # compact_from (mode_step m c) cs"
  by (subst compact_from.simps) auto

text \<open>Induction on compaction, case by case.\<close>

lemma compact_induct [case_names Nil html sep space char]:
  assumes "\<And>m. P m []"
    and "\<And>m c cs. is_html c \<Longrightarrow> P (mode_step m c) cs \<Longrightarrow> P m (c # cs)"
    and "\<And>m d cs. d = CHR 0xA8 \<or> d = CHR 0xA9 \<Longrightarrow> P (mode_step m (CHR 0xE2)) cs \<Longrightarrow>
           P m (CHR 0xE2 # CHR 0x80 # d # cs)"
    and "\<And>c cs. is_jspace c \<Longrightarrow> P Out cs \<Longrightarrow> P Out (c # cs)"
    and "\<And>m c cs. \<not> is_html c \<Longrightarrow> \<not> line_sep (c # cs) \<Longrightarrow> m \<noteq> Out \<or> \<not> is_jspace c \<Longrightarrow>
           P (mode_step m c) cs \<Longrightarrow> P m (c # cs)"
  shows "P m s"
proof (induction "length s" arbitrary: m s rule: less_induct)
  case less
  show ?case
  proof (cases s)
    case (Cons c cs)
    consider "is_html c" | "line_sep s" | "m = Out \<and> is_jspace c"
      | "\<not> is_html c" "\<not> line_sep s" "m \<noteq> Out \<or> \<not> is_jspace c"
      by blast
    then show ?thesis
    proof cases
      case 2
      then obtain d where d: "take 3 s = [CHR 0xE2, CHR 0x80, d]" "d = CHR 0xA8 \<or> d = CHR 0xA9"
        by (auto simp: line_sep_def)
      then have "s = CHR 0xE2 # CHR 0x80 # d # drop 3 s"
        by (metis append_Cons append_Nil append_take_drop_id)
      then show ?thesis
        using assms(3) [OF d(2), of m "drop 3 s"] less by (metis Suc_lessI length_Cons lessI less_SucI)
    qed (use less Cons assms in auto)
  qed (use assms in simp)
qed

text \<open>Which mode a scanner state is in; the two agree as long as the scanner accepts.\<close>

definition mode_of :: "jstate \<Rightarrow> jmode" where
  "mode_of q =
     (case q of InString \<Rightarrow> In | InHex _ \<Rightarrow> In | InStringEsc \<Rightarrow> Esc | _ \<Rightarrow> Out)"

lemma mode_of_end_value: "mode_of (fst (end_value st c)) = Out"
  by (cases st) (auto simp: mode_of_def pop_state_def split: pstate.splits)

lemma end_value_quote: "fst (end_value st (CHR 0x22)) = ScanError"
  by (cases st) (auto simp: is_jspace_def split: pstate.splits)

lemma mode_jstep:
  assumes "fst (jstep lim r c) \<noteq> ScanError" "scanner_ok r"
  shows "mode_of (fst (jstep lim r c)) = mode_step (mode_of (fst r)) c"
proof (cases "(lim, r, c)" rule: jstep.cases)
qed (use assms end_value_quote in \<open>auto simp: mode_of_def mode_step_def step_defs mode_of_end_value [unfolded mode_of_def]
   is_jspace_def is_digit_def is_hex_def scanner_ok_def is_lower_def split: if_splits list.splits\<close>)

text \<open>
  The scanner over the compacted text stays level with the scanner over the original:
  they are in the same state, but for a number or value whose end the original has
  already seen at a space.
\<close>

definition after_value :: "pstate list \<Rightarrow> scanner \<Rightarrow> bool" where
  "after_value b r \<longleftrightarrow> r = (EndValue, b) \<or> b = [] \<and> r = (EndTop, [])"

definition level :: "scanner \<Rightarrow> scanner \<Rightarrow> bool" where
  "level r' r \<longleftrightarrow> r' = r \<or> (\<exists>b. ended b r' \<and> after_value b r)"

lemma end_value_accepts:
  "fst (end_value st c) \<noteq> ScanError \<Longrightarrow> \<not> is_jspace c \<Longrightarrow> c \<in> set '',}]:''"
  by (cases st) (auto split: pstate.splits if_splits)

lemma level_jstep:
  assumes "level r' r" "\<not> is_jspace c" "fst (jstep lim r c) \<noteq> ScanError"
  shows "level (jstep lim r' c) (jstep lim r c)"
proof (cases "r' = r")
  case False
  then obtain b where b: "ended b r'" "after_value b r"
    using assms(1) by (auto simp: level_def)
  then have "r = (EndValue, b)"
    using assms(2,3) by (auto simp: after_value_def)
  moreover from this have "c \<in> set '',}]:''"
    using assms(2,3) by (intro end_value_accepts) auto
  ultimately show ?thesis
    using b(1) ended_step [of b r' c lim] by (simp add: level_def)
qed (simp add: level_def)

lemma level_space:
  assumes "level r' r" "is_jspace c" "mode_of (fst r) = Out" "fst (jstep lim r c) \<noteq> ScanError" "scanner_ok r"
  shows "level r' (jstep lim r c)"
proof (cases "r' = r")
  case True
  have nd: "\<not> is_digit c" "\<not> is_lower c"
    using assms(2) by (auto simp: is_jspace_def is_digit_def is_lower_def)
  have ev: "after_value st (end_value st c)" for st
    using assms(2) end_value_space by (cases st) (auto simp: after_value_def)
  show ?thesis
    unfolding True level_def
  proof (cases "(lim, r, c)" rule: jstep.cases)
  qed (use assms nd ev in \<open>auto simp: mode_of_def step_defs ended_def scanner_ok_def is_jspace_def
      is_digit_def is_hex_def split: if_splits list.splits\<close>)
next
  case False
  then obtain b where b: "ended b r'" "after_value b r"
    using assms(1) by (auto simp: level_def)
  then have "after_value b (jstep lim r c)"
    using assms(2) end_value_space [of b c] by (cases b) (auto simp: after_value_def)
  with b show ?thesis
    by (auto simp: level_def)
qed


lemma in_string_state:
  "mode_of q = In \<longleftrightarrow> q = InString \<or> (\<exists>n. q = InHex n)" "mode_of q = Esc \<longleftrightarrow> q = InStringEsc"
  by (cases q; simp add: mode_of_def)+

lemma html_in_string:
  assumes "is_html c" "fst (jstep lim r c) \<noteq> ScanError" "scanner_ok r"
  shows "r = (InString, snd r) \<and> jstep lim r c = r"
proof -
  have n: "\<not> is_jspace c" "\<not> is_digit c" "\<not> is_hex c" "\<not> is_lower c" "c \<noteq> CHR 0x22" "c \<noteq> CHR 0x5C" "\<not> bval c < 32"
    using assms(1) by (auto simp: is_html_def is_jspace_def is_digit_def is_hex_def is_lower_def)
  have e: "fst (end_value st c) = ScanError" for st
    using end_value_accepts [of st c] n(1) assms(1) by (auto simp: is_html_def)
  show ?thesis
  proof (cases "(lim, r, c)" rule: jstep.cases)
  qed (use assms n e in \<open>auto simp: step_defs scanner_ok_def is_html_def split: if_splits list.splits\<close>)
qed

lemma high_in_string:
  assumes "128 \<le> bval c" "fst (jstep lim r c) \<noteq> ScanError" "scanner_ok r"
  shows "r = (InString, snd r) \<and> jstep lim r c = r"
proof -
  have n: "\<not> is_jspace c" "\<not> is_digit c" "\<not> is_hex c" "\<not> is_lower c" "\<not> bval c < 32"
    using assms(1) by (auto simp: is_jspace_def is_digit_def is_hex_def is_lower_def)
  have m: "\<forall>x \<in> set [CHR ''{'', CHR ''['', CHR 0x22, CHR ''-'', CHR ''0'', CHR ''t'', CHR ''f'', CHR ''n'',
      CHR ''.'', CHR ''e'', CHR ''E'', CHR ''+'', CHR ''}'', CHR '']'', CHR 0x5C, CHR ''u'', CHR ''b'', CHR ''r'',
      CHR ''/'', CHR '','', CHR '':'']. c \<noteq> x"
    using assms(1) by auto
  have e: "fst (end_value st c) = ScanError" for st
    using end_value_accepts [of st c] n(1) m by auto
  show ?thesis
  proof (cases "(lim, r, c)" rule: jstep.cases)
  qed (use assms n e m in \<open>auto simp: step_defs scanner_ok_def split: if_splits list.splits\<close>)
qed

lemma scan_unicode_escape: "scan lim (InString, st) (unicode_escape c) = (InString, st)"
proof -
  have "is_hex (hex_char n)" if "n < 16" for n
    using that by (auto simp: is_hex_def is_digit_def bval_hex_char)
  moreover have "is_hex (CHR ''0'')"
    by (simp add: is_hex_def is_digit_def)
  ultimately show ?thesis
    by (simp add: unicode_escape_def bval_div_16)
qed

lemma scan_line_sep_escape: "scan lim (InString, st) (line_sep_escape s) = (InString, st)"
  by (simp add: line_sep_escape_def is_hex_def is_digit_def)

lemma compact_level:
  assumes "level r' r" "mode_of (fst r) = m" "scanner_ok r" "fst (scan lim r s) \<noteq> ScanError"
  shows "level (scan lim r' (compact_from m s)) (scan lim r s)"
  using assms
proof (induction m s arbitrary: r r' rule: compact_induct)
  case (html m c cs)
  then have ok: "fst (jstep lim r c) \<noteq> ScanError"
    using scan_ok_prefix [of lim r "[c]" cs] by simp
  with html have r: "r = (InString, snd r)" "jstep lim r c = r"
    using html_in_string by blast+
  then have "r' = r"
    using html(3) by (auto simp: level_def after_value_def)
  then have "scan lim r' (unicode_escape c) = r"
    using r scan_unicode_escape by metis
  moreover have "mode_of (fst r) = mode_step m c"
    using mode_jstep [OF ok] html.prems r by simp
  ultimately show ?case
    using html r by (simp add: compact_html level_def del: jstep.simps)
next
  case (sep m d cs)
  let ?x = "CHR 0xE2" and ?y = "CHR 0x80"
  have ok: "fst (jstep lim r ?x) \<noteq> ScanError"
    using scan_ok_prefix [of lim r "[?x]" "?y # d # cs"] sep by simp
  then have r: "r = (InString, snd r)" "jstep lim r ?x = r"
    using high_in_string [OF _ ok] sep by simp_all
  then have stay: "jstep lim r ?y = r" "jstep lim r d = r"
    using sep(1) by (cases r; auto)+
  have "r' = r"
    using sep(3) r(1) by (auto simp: level_def after_value_def)
  then have "scan lim r' (line_sep_escape (?x # ?y # d # cs)) = r"
    using r scan_line_sep_escape by metis
  moreover have "mode_of (fst r) = mode_step m ?x"
    using mode_jstep [OF ok] sep r by simp
  moreover have "compact_from m (?x # ?y # d # cs) =
      line_sep_escape (?x # ?y # d # cs) @ compact_from (mode_step m ?x) cs"
    using sep(1) by (subst compact_sep) (auto simp: line_sep_def is_html_def)
  ultimately show ?case
    using sep r stay by (simp add: level_def del: jstep.simps)
next
  case (space c cs)
  then have ok: "fst (jstep lim r c) \<noteq> ScanError"
    using scan_ok_prefix [of lim r "[c]" cs] by simp
  have "mode_of (fst (jstep lim r c)) = Out"
    using mode_jstep [OF ok] space by (auto simp: mode_step_def is_jspace_def)
  with space ok show ?case
    by (simp add: compact_space level_space jstep_ok del: jstep.simps)
next
  case (char m c cs)
  then have ok: "fst (jstep lim r c) \<noteq> ScanError"
    using scan_ok_prefix [of lim r "[c]" cs] by simp
  have "level (jstep lim r' c) (jstep lim r c)"
  proof (cases "is_jspace c")
    case True
    then have "mode_of (fst r) \<noteq> Out"
      using char by simp
    then have "r' = r"
      using char(5) by (auto simp: level_def after_value_def mode_of_def)
    then show ?thesis
      by (simp add: level_def)
  next
    case False
    with char(5) ok show ?thesis
      by (intro level_jstep)
  qed
  moreover have "mode_of (fst (jstep lim r c)) = mode_step m c"
    using mode_jstep [OF ok] char by simp
  ultimately show ?case
    using char by (simp add: compact_char jstep_ok del: jstep.simps)
qed simp


text \<open>A compacted text is as valid as the original, at every nesting limit.\<close>

lemma json_valid_compact:
  assumes "json_valid_lim lim s"
  shows "json_valid_lim lim (compact_from Out s)"
proof -
  let ?r = "scan lim (BeginValue, []) s" and ?r' = "scan lim (BeginValue, []) (compact_from Out s)"
  have "level ?r' ?r"
    using valid_scan(3) [OF assms]
    by (intro compact_level) (auto simp: level_def mode_of_def scanner_ok_def)
  moreover have "?r = (EndTop, []) \<or> ended [] ?r"
    using valid_scan [OF assms] by (cases ?r) auto
  ultimately have "?r' = (EndTop, []) \<or> ended [] ?r'"
    by (auto simp: level_def after_value_def ended_def)
  moreover have "jstep lim r (CHR '' '') = (EndTop, [])" if "ended [] r" for r
    using that by (cases r) (auto simp: ended_def is_digit_def is_jspace_def after_int_def)
  moreover have "jstep lim (EndTop, []) (CHR '' '') = (EndTop, [])"
    by (simp add: is_jspace_def)
  ultimately have "jstep lim ?r' (CHR '' '') = (EndTop, [])"
    by metis
  then show ?thesis
    by (simp add: json_valid_lim_def)
qed

subsection \<open>Compact texts\<close>

definition ascii_head :: "bytes \<Rightarrow> bool" where
  "ascii_head t \<longleftrightarrow> t = [] \<or> bval (hd t) < 128"

text \<open>A text that compaction leaves as it is, from one mode to another.\<close>

definition compacted :: "jmode \<Rightarrow> bytes \<Rightarrow> jmode \<Rightarrow> bool" where
  "compacted m s m' \<longleftrightarrow> compact_from m s = s \<and> mode_run m s = m'"

lemma line_sep_append: "ascii_head t \<Longrightarrow> line_sep (s @ t) = line_sep s"
proof -
  assume t: "ascii_head t"
  show ?thesis
  proof (cases "3 \<le> length s")
    case False
    have "take 3 (s @ t) \<noteq> [CHR 0xE2, CHR 0x80, x]" if "128 \<le> bval x" for x
    proof
      assume a: "take 3 (s @ t) = [CHR 0xE2, CHR 0x80, x]"
      have "hd t = (s @ t) ! length s" "length s < length (s @ t)"
        using a False by (cases t; auto simp: nth_append)+
      then have "hd t \<in> set (take 3 (s @ t))"
        using False by (metis in_set_conv_nth length_take min_less_iff_conj not_le nth_take)
      then have "hd t \<in> set [CHR 0xE2, CHR 0x80, x]"
        unfolding a .
      then have "128 \<le> bval (hd t)"
        using that by auto
      then show False
        using t a False by (cases t) (auto simp: ascii_head_def)
    qed
    then show ?thesis
      using False by (auto simp: line_sep_def)
  qed (simp add: line_sep_def)
qed

lemma compact_append:
  "ascii_head t \<Longrightarrow> compact_from m (s @ t) = compact_from m s @ compact_from (mode_run m s) t"
proof (induction m s rule: compact_induct)
  case (html m c cs)
  then show ?case by (simp add: compact_html)
next
  case (sep m d cs)
  have l: "line_sep (CHR 0xE2 # CHR 0x80 # d # u)" for u
    using sep by (auto simp: line_sep_def)
  have h: "\<not> is_html (CHR 0xE2)"
    by (simp add: is_html_def)
  have "mode_step (mode_step (mode_step m (CHR 0xE2)) (CHR 0x80)) d = mode_step m (CHR 0xE2)"
    using sep by (cases m) (auto simp: mode_step_def)
  then show ?case
    using sep by (simp add: compact_sep [OF l h] line_sep_escape_def)
next
  case (space c cs)
  then show ?case
    by (simp add: compact_space mode_step_def) (auto simp: is_jspace_def)
next
  case (char m c cs)
  then have "\<not> line_sep (c # cs @ t)"
    using line_sep_append [of t "c # cs"] by simp
  with char show ?case
    by (simp add: compact_char)
qed simp

lemma compacted_append:
  assumes "compacted m s m'" "compacted m' t m''" "ascii_head t"
  shows "compacted m (s @ t) m''"
  using assms by (simp add: compacted_def compact_append)

lemma compacted_Nil [simp]: "compacted m [] m' \<longleftrightarrow> m = m'"
  by (auto simp: compacted_def)

lemma compacted_single:
  "\<not> is_html c \<Longrightarrow> m \<noteq> Out \<or> \<not> is_jspace c \<Longrightarrow> bval c < 128 \<Longrightarrow> compacted m [c] (mode_step m c)"
  by (simp add: compacted_def compact_char line_sep_def)

lemma compacted_Cons:
  assumes "\<not> is_html c" "m \<noteq> Out \<or> \<not> is_jspace c" "bval c < 128" "compacted (mode_step m c) s m'"
  shows "compacted m (c # s) m'"
proof -
  have "\<not> line_sep (c # s)"
    using assms(3) by (auto simp: line_sep_def)
  with assms show ?thesis
    by (simp add: compacted_def compact_char)
qed


text \<open>Characters that are neither escaped nor dropped nor change the mode.\<close>

definition plain_char :: "char \<Rightarrow> bool" where
  "plain_char c \<longleftrightarrow>
     \<not> is_html c \<and> \<not> is_jspace c \<and> bval c < 128 \<and> c \<noteq> CHR 0x22 \<and> c \<noteq> CHR 0x5C"

lemma compacted_plain:
  "plain_char c \<Longrightarrow> m \<noteq> Esc \<Longrightarrow> compacted m t m' \<Longrightarrow> compacted m (c # t) m'"
  by (cases m) (auto intro!: compacted_Cons simp: plain_char_def mode_step_def)

lemma compacted_backslash:
  "\<not> is_html c \<Longrightarrow> bval c < 128 \<Longrightarrow> compacted In t m' \<Longrightarrow> compacted In (CHR 0x5C # c # t) m'"
  by (intro compacted_Cons) (simp_all add: mode_step_def is_html_def)

lemma plain_alnum: "is_digit c \<or> is_lower c \<or> is_upper c \<Longrightarrow> plain_char c"
  by (auto simp: plain_char_def is_html_def is_jspace_def is_digit_def is_lower_def is_upper_def)

lemma plain_literals [simp]:
  "plain_char (CHR ''0'')" "plain_char (CHR ''2'')" "plain_char (CHR ''8'')" "plain_char (CHR ''9'')"
  "plain_char (CHR ''f'')" "plain_char (CHR ''d'')" "plain_char (CHR ''u'')" "plain_char (CHR ''-'')"
  "plain_char (CHR '':'')" "plain_char (CHR '','')" "plain_char (CHR ''{'')" "plain_char (CHR ''}'')"
  by (simp_all add: plain_char_def is_html_def is_jspace_def)

lemma not_html_u: "\<not> is_html (CHR ''u'')"
  by (simp add: is_html_def)

lemma plain_hex_char:
  assumes "n < 16"
  shows "plain_char (hex_char n)"
proof -
  have "is_digit (hex_char n) \<or> is_lower (hex_char n)"
    using assms by (auto simp: is_digit_def is_lower_def bval_hex_char)
  then show ?thesis
    by (auto intro: plain_alnum)
qed

lemma compacted_unicode_escape: "compacted In t m' \<Longrightarrow> compacted In (unicode_escape c @ t) m'"
  unfolding unicode_escape_def
  by (simp add: compacted_backslash compacted_plain plain_hex_char bval_div_16 not_html_u)

lemma compacted_line_sep_escape: "compacted In t m' \<Longrightarrow> compacted In (line_sep_escape s @ t) m'"
  unfolding line_sep_escape_def
  by (simp add: compacted_backslash compacted_plain not_html_u)

lemma compacted_escape_char:
  assumes "bval c < 128" "compacted In t m'"
  shows "compacted In (escape_char c @ t) m'"
proof -
  have h: "\<not> is_html x \<and> bval x < 128" if "x \<in> set ''bfnrt'' \<or> x = CHR 0x22 \<or> x = CHR 0x5C" for x
    using that by (auto simp: is_html_def)
  have esc: "compacted In (CHR 0x5C # x # t) m'"
    if "x \<in> set ''bfnrt'' \<or> x = CHR 0x22 \<or> x = CHR 0x5C" for x
    using h [OF that] assms(2) by (simp add: compacted_backslash)
  have "compacted In (c # t) m'" if "c \<noteq> CHR 0x22" "c \<noteq> CHR 0x5C" "\<not> is_html c"
    using that assms by (intro compacted_Cons) (auto simp: mode_step_def)
  then show ?thesis
    unfolding escape_char_def using esc compacted_unicode_escape [OF assms(2)] by simp
qed

lemma not_line_sep_rune:
  assumes "is_rune r" "\<not> line_sep r"
  shows "\<not> line_sep (r @ t)"
proof (cases "3 \<le> length r")
  case False
  then have "length r = 2"
    using assms by (simp add: is_rune_def)
  then obtain c d where r: "r = [c, d]"
    by (auto simp: numeral_2_eq_2 length_Suc_conv)
  then have "rune_len [c, d] = 2"
    using assms(1) by (simp add: is_rune_def)
  then have "bval c < 224"
    by (simp add: rune_len_def split: if_splits)
  then have "c \<noteq> CHR 0xE2"
    by auto
  then show ?thesis
    by (simp add: line_sep_def r)
qed (use assms(2) in \<open>simp add: line_sep_def\<close>)

lemma compacted_high:
  assumes "\<forall>c \<in> set r. continuation c" "compacted In t In"
  shows "compacted In (r @ t) In"
  using assms(1)
proof (induction r)
  case (Cons c r)
  then have "128 \<le> bval c" "bval c < 192"
    by (simp_all add: continuation_def)
  then have "\<not> is_html c" "\<not> line_sep (c # r @ t)" "mode_step In c = In"
    by (auto simp: is_html_def line_sep_def mode_step_def)
  with Cons show ?case
    by (simp add: compacted_def compact_char)
qed (use assms(2) in simp)

lemma compacted_rune:
  assumes "is_rune r" "\<not> line_sep r" "compacted In t In"
  shows "compacted In (r @ t) In"
proof -
  obtain c cs where r: "r = c # cs" "128 \<le> bval c"
    using assms(1) by (rule rune_shape)
  then have "\<not> is_html c" "mode_step In c = In"
    by (auto simp: is_html_def mode_step_def)
  moreover have "compacted In (cs @ t) In"
    using rune_bytes(2) [OF assms(1)] r assms(3) by (intro compacted_high) auto
  ultimately show ?thesis
    using not_line_sep_rune [OF assms(1,2), of t] r by (simp add: compacted_def compact_char)
qed

lemma compacted_quote: "compacted In (quote_from s) In"
proof (induction s rule: rune_induct)
  case (ascii c cs)
  then show ?case
    by (simp add: compacted_escape_char)
next
  case (bad c cs)
  then show ?case
    by (simp add: compacted_backslash compacted_plain not_html_u)
next
  case (rune r t)
  then show ?case
    by (simp add: quote_rune compacted_rune compacted_line_sep_escape)
qed simp

lemma ascii_head_Cons [simp]: "ascii_head (c # s) \<longleftrightarrow> bval c < 128" "ascii_head []"
  by (simp_all add: ascii_head_def)

lemma compacted_json_string: "compacted Out (json_string s) Out"
proof -
  have "compacted In [CHR 0x22] Out"
    using compacted_single [of "CHR 0x22" In] by (simp add: is_html_def mode_step_def)
  then have "compacted In (quote_from s @ [CHR 0x22]) Out"
    by (intro compacted_append [OF compacted_quote]) simp_all
  then show ?thesis
    unfolding json_string_def
    by (intro compacted_Cons) (simp_all add: is_html_def is_jspace_def mode_step_def)
qed

text \<open>Scanning a written string.\<close>

lemma scan_high: "\<forall>c \<in> set r. 128 \<le> bval c \<Longrightarrow> scan lim (InString, st) r = (InString, st)"
proof (induction r)
  case (Cons c r)
  then have "jstep lim (InString, st) c = (InString, st)"
    by auto
  with Cons show ?case by simp
qed simp

lemma scan_escape_char: "bval c < 128 \<Longrightarrow> scan lim (InString, st) (escape_char c) = (InString, st)"
  unfolding escape_char_def using scan_unicode_escape [of lim st c] by auto

lemma scan_quote: "scan lim (InString, st) (quote_from s) = (InString, st)"
proof (induction s rule: rune_induct)
  case (bad c cs)
  then show ?case
    by (simp add: is_hex_def is_digit_def)
next
  case (rune r t)
  then show ?case
    using rune_bytes(4) [of r] scan_high [of r] scan_line_sep_escape by (simp add: quote_rune)
qed (simp_all add: scan_escape_char)

lemma json_valid_string: "json_valid_lim lim (json_string s)"
  by (simp add: json_valid_lim_def json_string_def begin_value_def is_jspace_def scan_quote)

lemma compact_head_high:
  assumes "compact_from In cs = x # u" "128 \<le> bval x"
  obtains cs' where "cs = x # cs'" "u = compact_from In cs'"
proof (cases cs)
  case (Cons c cs')
  have esc: "x \<noteq> CHR 0x5C"
    using assms(2) by auto
  have "\<not> is_html c"
    using assms(1) esc by (auto simp: Cons compact_html unicode_escape_def)
  moreover from this have "\<not> line_sep (c # cs')"
    using assms(1) esc by (auto simp: Cons compact_sep line_sep_escape_def)
  ultimately have "x = c" "u = compact_from (mode_step In c) cs'"
    using assms(1) by (auto simp: Cons compact_char)
  moreover have "mode_step In x = In"
    using assms(2) by (auto simp: mode_step_def)
  ultimately show ?thesis
    using Cons that by simp
qed (use assms in simp)

lemma line_sep_compact:
  assumes "line_sep (c # compact_from In cs)"
  shows "line_sep (c # cs)"
proof -
  obtain d where d: "take 3 (c # compact_from In cs) = [CHR 0xE2, CHR 0x80, d]" "d = CHR 0xA8 \<or> d = CHR 0xA9"
    using assms by (auto simp: line_sep_def)
  have c: "c = CHR 0xE2"
    using d(1) by (simp add: numeral_3_eq_3)
  have t2: "take 2 (compact_from In cs) = [CHR 0x80, d]"
    using d(1) by (simp add: numeral_3_eq_3 numeral_2_eq_2)
  then obtain u where "compact_from In cs = CHR 0x80 # u" "take 1 u = [d]"
    by (cases "compact_from In cs") (auto simp: numeral_2_eq_2)
  then obtain cs' where cs': "cs = CHR 0x80 # cs'" "take 1 (compact_from In cs') = [d]"
    using compact_head_high [of cs "CHR 0x80" u] by auto
  then obtain v where v: "compact_from In cs' = d # v"
    by (cases "compact_from In cs'") auto
  have "128 \<le> bval d"
    using d(2) by auto
  with v obtain cs'' where "cs' = d # cs''"
    by (rule compact_head_high)
  with c cs'(1) d(2) show ?thesis
    by (auto simp: line_sep_def)
qed

lemma compacted_compact:
  assumes "mode_of (fst r) = m" "scanner_ok r" "fst (scan lim r s) \<noteq> ScanError"
  shows "compacted m (compact_from m s) (mode_of (fst (scan lim r s)))"
  using assms
proof (induction m s arbitrary: r rule: compact_induct)
  case (html m c cs)
  then have ok: "fst (jstep lim r c) \<noteq> ScanError"
    using scan_ok_prefix [of lim r "[c]" cs] by simp
  with html have r: "r = (InString, snd r)" "jstep lim r c = r"
    using html_in_string by blast+
  then have m: "m = In"
    using html.prems(1) by (cases r) (auto simp: mode_of_def)
  then have "mode_step m c = In"
    using html.hyps by (auto simp: mode_step_def is_html_def)
  note m = m this
  with html r ok show ?case
    by (simp add: compact_html compacted_unicode_escape del: jstep.simps)
next
  case (sep m d cs)
  let ?x = "CHR 0xE2" and ?y = "CHR 0x80"
  have ok: "fst (jstep lim r ?x) \<noteq> ScanError"
    using scan_ok_prefix [of lim r "[?x]" "?y # d # cs"] sep by simp
  then have r: "r = (InString, snd r)" "jstep lim r ?x = r"
    using high_in_string [OF _ ok] sep by simp_all
  then have stay: "jstep lim r ?y = r" "jstep lim r d = r"
    using sep(1) by (cases r; auto)+
  have m: "m = In"
    using sep.prems(1) r(1) by (cases r) (auto simp: mode_of_def)
  then have "mode_step m ?x = In"
    by (simp add: mode_step_def)
  moreover have "compact_from m (?x # ?y # d # cs) =
      line_sep_escape (?x # ?y # d # cs) @ compact_from (mode_step m ?x) cs"
    using sep(1) by (subst compact_sep) (auto simp: line_sep_def is_html_def)
  ultimately show ?case
    using sep r stay m by (simp add: compacted_line_sep_escape del: jstep.simps)
next
  case (space c cs)
  then have ok: "fst (jstep lim r c) \<noteq> ScanError"
    using scan_ok_prefix [of lim r "[c]" cs] by simp
  have "mode_of (fst (jstep lim r c)) = Out"
    using mode_jstep [OF ok] space by (auto simp: mode_step_def is_jspace_def)
  with space ok show ?case
    by (simp add: compact_space jstep_ok del: jstep.simps)
next
  case (char m c cs)
  then have ok: "fst (jstep lim r c) \<noteq> ScanError"
    using scan_ok_prefix [of lim r "[c]" cs] by simp
  have "mode_of (fst (jstep lim r c)) = mode_step m c"
    using mode_jstep [OF ok] char by simp
  then have IH: "compacted (mode_step m c) (compact_from (mode_step m c) cs) (mode_of (fst (scan lim r (c # cs))))"
    using char ok by (simp add: jstep_ok del: jstep.simps)
  show ?case
  proof (cases "bval c < 128")
    case True
    with char IH show ?thesis
      by (simp add: compact_char compacted_Cons del: jstep.simps)
  next
    case False
    then have "r = (InString, snd r)"
      using high_in_string [OF _ ok char.prems(2)] by simp
    then have m: "m = In"
      using char.prems(1) by (cases r) (auto simp: mode_of_def)
    have "mode_step m c = In"
      using False m by (auto simp: mode_step_def)
    moreover have "\<not> line_sep (c # compact_from In cs)"
      using char(2) line_sep_compact by blast
    ultimately show ?thesis
      using char IH m by (simp add: compacted_def compact_char del: jstep.simps)
  qed
qed simp

lemma valid_mode_out:
  assumes "json_valid_lim lim s"
  shows "mode_of (fst (scan lim (BeginValue, []) s)) = Out"
  using valid_scan(1) [OF assms] by (auto simp: ended_def mode_of_def)

lemma compacted_valid:
  assumes "json_valid_lim lim s"
  shows "compacted Out (compact_from Out s) Out"
  using compacted_compact [of "(BeginValue, [])" Out lim s] valid_scan(3) [OF assms] valid_mode_out [OF assms]
  by (simp add: mode_of_def scanner_ok_def)

text \<open>Compacting twice is compacting once.\<close>

lemma json_compact_idem:
  assumes "json_compact s = Some t"
  shows "json_compact t = Some t"
  using assms json_valid_compact [of max_nesting s] compacted_valid [of max_nesting s]
  by (auto simp: json_compact_def json_valid_def compacted_def split: if_splits)

text \<open>A valid text holds no raw line break inside a string, and compaction drops the others.\<close>

lemma compact_no_newline:
  assumes "mode_of (fst r) = m" "scanner_ok r" "fst (scan lim r s) \<noteq> ScanError"
  shows "CHR 0x0A \<notin> set (compact_from m s)"
  using assms
proof (induction m s arbitrary: r rule: compact_induct)
  case (html m c cs)
  then have ok: "fst (jstep lim r c) \<noteq> ScanError"
    using scan_ok_prefix [of lim r "[c]" cs] by simp
  have "CHR 0x0A \<noteq> hex_char n" if "n < 16" for n
    using plain_hex_char [OF that] by (auto simp: plain_char_def is_jspace_def)
  then have "CHR 0x0A \<notin> set (unicode_escape c)"
    by (auto simp: unicode_escape_def bval_div_16)
  moreover have "mode_of (fst (jstep lim r c)) = mode_step m c"
    using mode_jstep [OF ok] html by simp
  ultimately show ?case
    using html ok by (simp add: compact_html jstep_ok del: jstep.simps)
next
  case (sep m d cs)
  let ?x = "CHR 0xE2" and ?y = "CHR 0x80"
  have ok: "fst (jstep lim r ?x) \<noteq> ScanError"
    using scan_ok_prefix [of lim r "[?x]" "?y # d # cs"] sep by simp
  then have r: "r = (InString, snd r)" "jstep lim r ?x = r"
    using high_in_string [OF _ ok] sep by simp_all
  then have stay: "jstep lim r ?y = r" "jstep lim r d = r"
    using sep(1) by (cases r; auto)+
  have "mode_of (fst r) = mode_step m ?x"
    using mode_jstep [OF ok] sep r by simp
  moreover have "compact_from m (?x # ?y # d # cs) =
      line_sep_escape (?x # ?y # d # cs) @ compact_from (mode_step m ?x) cs"
    using sep(1) by (subst compact_sep) (auto simp: line_sep_def is_html_def)
  ultimately show ?case
    using sep r stay by (simp add: line_sep_escape_def del: jstep.simps)
next
  case (space c cs)
  then have ok: "fst (jstep lim r c) \<noteq> ScanError"
    using scan_ok_prefix [of lim r "[c]" cs] by simp
  have "mode_of (fst (jstep lim r c)) = Out"
    using mode_jstep [OF ok] space by (auto simp: mode_step_def is_jspace_def)
  with space ok show ?case
    by (simp add: compact_space jstep_ok del: jstep.simps)
next
  case (char m c cs)
  then have ok: "fst (jstep lim r c) \<noteq> ScanError"
    using scan_ok_prefix [of lim r "[c]" cs] by simp
  have "c \<noteq> CHR 0x0A"
  proof
    assume c: "c = CHR 0x0A"
    then have "m \<noteq> Out"
      using char(3) by (simp add: is_jspace_def)
    then have "fst r = InString \<or> (\<exists>n. fst r = InHex n) \<or> fst r = InStringEsc"
      using char.prems(1) in_string_state by (cases m) auto
    then show False
      using ok c by (cases r) (auto simp: is_hex_def is_digit_def)
  qed
  moreover have "mode_of (fst (jstep lim r c)) = mode_step m c"
    using mode_jstep [OF ok] char by simp
  ultimately show ?case
    using char ok by (simp add: compact_char jstep_ok del: jstep.simps)
qed simp

lemma compact_valid_no_newline:
  "json_valid_lim lim s \<Longrightarrow> CHR 0x0A \<notin> set (compact_from Out s)"
  using compact_no_newline [of "(BeginValue, [])" Out lim s] valid_scan(3) [of lim s]
  by (simp add: mode_of_def scanner_ok_def)

end
