(* ===== verification/JsonObject.thy ===== *)
theory JsonObject
  imports JsonText
begin

section \<open>JSON objects: writing members and reading them back\<close>

text \<open>
  What \<open>json.Marshal\<close> writes for a struct or a map, an object of members, each a
  quoted name and the text of its value; and what \<open>json.Unmarshal\<close> sees of an object: for every
  member its name and the raw text of its value, found by cutting at the commas outside
  strings and inner containers. \<open>object_members_text\<close> is the round trip; the values are any
  valid compact texts.
\<close>

subsection \<open>Writing\<close>

definition member_text :: "bytes \<times> bytes \<Rightarrow> bytes" where
  "member_text m = json_string (fst m) @ CHR '':'' # snd m"

fun comma_join :: "bytes list \<Rightarrow> bytes" where
  "comma_join [] = []"
| "comma_join [x] = x"
| "comma_join (x # y # ys) = x @ CHR '','' # comma_join (y # ys)"

definition object_of :: "(bytes \<times> bytes) list \<Rightarrow> bytes" where
  "object_of ms = CHR ''{'' # comma_join (List.map member_text ms) @ [CHR ''}'']"

subsection \<open>Reading\<close>

definition js_trim :: "bytes \<Rightarrow> bytes" where
  "js_trim s = rev (dropWhile is_jspace (rev (dropWhile is_jspace s)))"

definition depth_step :: "nat \<Rightarrow> jmode \<Rightarrow> char \<Rightarrow> nat" where
  "depth_step d m c =
     (if m = Out then
        if c = CHR ''{'' \<or> c = CHR ''['' then Suc d
        else if c = CHR ''}'' \<or> c = CHR '']'' then d - 1 else d
      else d)"

text \<open>Cutting at the commas that are outside strings and inner containers.\<close>

fun split_commas :: "nat \<Rightarrow> jmode \<Rightarrow> bytes \<Rightarrow> bytes list" where
  "split_commas d m [] = [[]]"
| "split_commas d m (c # cs) =
     (if m = Out \<and> d = 0 \<and> c = CHR '','' then [] # split_commas 0 Out cs
      else
        (case split_commas (depth_step d m c) (mode_step m c) cs of
           [] \<Rightarrow> [[c]]
         | x # xs \<Rightarrow> (c # x) # xs))"

text \<open>The raw text of a string whose opening quote has been read, and what follows it.\<close>

fun take_str :: "bytes \<Rightarrow> (bytes \<times> bytes) option" where
  "take_str [] = None"
| "take_str [c] = (if c = CHR 0x22 then Some ([], []) else None)"
| "take_str (c # d # cs) =
     (if c = CHR 0x22 then Some ([], d # cs)
      else if c = CHR 0x5C then map_option (\<lambda>(k, r). (c # d # k, r)) (take_str cs)
      else map_option (\<lambda>(k, r). (c # k, r)) (take_str (d # cs)))"

definition split_member :: "bytes \<Rightarrow> (bytes \<times> bytes) option" where
  "split_member s =
     (case js_trim s of
        [] \<Rightarrow> None
      | q # cs \<Rightarrow>
          if q = CHR 0x22 then
            (case take_str cs of
               None \<Rightarrow> None
             | Some (k, r) \<Rightarrow>
                 (case js_trim r of
                    [] \<Rightarrow> None
                  | c # v \<Rightarrow>
                      if c = CHR '':'' then map_option (\<lambda>k'. (k', js_trim v)) (unquote_from k) else None))
          else None)"

definition object_members :: "bytes \<Rightarrow> (bytes \<times> bytes) list option" where
  "object_members s =
     (let t = js_trim s
      in if 2 \<le> length t \<and> hd t = CHR ''{'' \<and> last t = CHR ''}'' then
           (let inner = butlast (tl t)
            in if js_trim inner = [] then Some []
               else those (List.map split_member (split_commas 0 Out inner)))
         else None)"

subsection \<open>Values that can be members\<close>

text \<open>A valid compact text.\<close>

definition member_value :: "nat \<Rightarrow> bytes \<Rightarrow> bool" where
  "member_value lim v \<longleftrightarrow> json_valid_lim lim v \<and> compacted Out v Out"

lemma valid_nonempty: "json_valid_lim lim v \<Longrightarrow> v \<noteq> []"
  by (auto simp: json_valid_lim_def begin_value_def is_jspace_def)

lemma valid_ascii_head:
  assumes "json_valid_lim lim v"
  shows "ascii_head v"
proof (cases v)
  case (Cons c cs)
  have "fst (jstep lim (BeginValue, []) c) \<noteq> ScanError"
    using scan_ok_prefix [of lim "(BeginValue, [])" "[c]" cs] valid_scan(3) [OF assms] Cons by simp
  moreover have "scanner_ok (BeginValue, [])"
    by (simp add: scanner_ok_def)
  ultimately have "\<not> 128 \<le> bval c"
    using high_in_string [of c lim "(BeginValue, [])"] by auto
  with Cons show ?thesis
    by simp
qed simp

lemma member_value_mono: "member_value lim v \<Longrightarrow> lim \<le> lim' \<Longrightarrow> member_value lim' v"
  using json_valid_mono by (auto simp: member_value_def)

lemma member_value_string: "member_value lim (json_string s)"
  by (simp add: member_value_def json_valid_string compacted_json_string)

lemma member_value_compact: "json_valid_lim lim s \<Longrightarrow> member_value lim (compact_from Out s)"
  by (simp add: member_value_def json_valid_compact compacted_valid)

text \<open>Decimal numbers.\<close>

lemma scan_digits: "list_all is_digit s \<Longrightarrow> scan lim (Num1, st) s = (Num1, st)"
  by (induction s) auto

lemma scan_nat_from:
  assumes "q = BeginValue \<or> q = Neg"
  shows "fst (scan lim (q, st) (show_nat n)) \<in> {Num0, Num1}" "snd (scan lim (q, st) (show_nat n)) = st"
proof -
  obtain c cs where s: "show_nat n = c # cs"
    by (cases "show_nat n") auto
  then have d: "is_digit c" "list_all is_digit cs"
    using show_nat_digits [of n] by auto
  then have j: "\<not> is_jspace c" "c \<notin> set ''{[-tfn''" "c \<noteq> CHR 0x22"
    by (auto simp: is_jspace_def is_digit_def)
  have "fst (scan lim (q, st) (c # cs)) \<in> {Num0, Num1} \<and> snd (scan lim (q, st) (c # cs)) = st"
  proof (cases "c = CHR ''0''")
    case True
    then have "cs = []"
      using hd_show_nat_zero [of n] s by (auto simp: show_nat.simps [of 0])
    with True assms show ?thesis
      by (auto simp: begin_value_def is_jspace_def)
  next
    case False
    with j d(1) assms have "jstep lim (q, st) c = (Num1, st)"
      by (auto simp: begin_value_def)
    then show ?thesis
      using scan_digits [OF d(2), of lim st] by simp
  qed
  with s show "fst (scan lim (q, st) (show_nat n)) \<in> {Num0, Num1}" "snd (scan lim (q, st) (show_nat n)) = st"
    by simp_all
qed

lemma ended_valid: "ended [] (scan lim (BeginValue, []) v) \<Longrightarrow> json_valid_lim lim v"
proof -
  assume e: "ended [] (scan lim (BeginValue, []) v)"
  then have "fst (jstep lim (scan lim (BeginValue, []) v) (CHR '' '')) = EndTop"
    by (cases "scan lim (BeginValue, []) v") (auto simp: ended_def is_digit_def is_jspace_def after_int_def)
  then show ?thesis
    by (simp add: json_valid_lim_def)
qed

lemma json_valid_int: "json_valid_lim lim (show_int i)"
proof (rule ended_valid)
  have "jstep lim (BeginValue, []) (CHR ''-'') = (Neg, [])"
    by (simp add: begin_value_def is_jspace_def)
  then show "ended [] (scan lim (BeginValue, []) (show_int i))"
    using scan_nat_from [of BeginValue lim "[]" "nat i"] scan_nat_from [of Neg lim "[]" "nat (- i)"]
    by (auto simp: show_int_def ended_def simp del: jstep.simps)
qed

lemma compacted_plains: "list_all plain_char s \<Longrightarrow> compacted Out s Out"
  by (induction s) (auto intro: compacted_plain)

lemma member_value_int: "member_value lim (show_int i)"
proof -
  have "plain_char c" if "c \<in> set (show_int i)" for c
    using show_int_chars [OF that] plain_alnum by auto
  then show ?thesis
    by (simp add: member_value_def json_valid_int compacted_plains list_all_iff)
qed

subsection \<open>An object of such values is one\<close>

lemma brace_first:
  "0 < lim \<Longrightarrow> jstep lim (BeginValue, []) (CHR ''{'') = (BeginStringOrEmpty, [ParseObjectKey])"
  by (simp add: step_defs is_jspace_def)

lemma scan_member:
  assumes "json_valid_lim lim v" "q = BeginString \<or> q = BeginStringOrEmpty" "length st < k"
    and lim: "lim + k \<le> lim'"
  shows "ended (ParseObjectValue # st) (scan lim' (q, ParseObjectKey # st) (member_text (k', v)))"
proof -
  have "scan lim' (q, ParseObjectKey # st) (json_string k') = (EndValue, ParseObjectKey # st)"
    using assms(2) by (auto simp: json_string_def scan_quote step_defs is_jspace_def)
  moreover have "ended (ParseObjectValue # st) (scan lim' (BeginValue, ParseObjectValue # st) v)"
    using assms(1,3) lim by (intro value_run) auto
  ultimately show ?thesis
    by (simp add: member_text_def is_jspace_def)
qed

lemma scan_members:
  assumes "ms \<noteq> []" "\<forall>m \<in> set ms. json_valid_lim lim (snd m)" "q = BeginString \<or> q = BeginStringOrEmpty"
  shows "ended [ParseObjectValue] (scan (Suc lim) (q, [ParseObjectKey]) (comma_join (List.map member_text ms)))"
  using assms
proof (induction "List.map member_text ms" arbitrary: ms q rule: comma_join.induct)
  case (2 x)
  then obtain k v where "ms = [(k, v)]"
    by (cases ms) auto
  with 2 show ?case
    using scan_member [of lim v q "[]" 1 "Suc lim" k] by simp
next
  case (3 x y ys)
  then obtain k v ms' where ms: "ms = (k, v) # ms'" "List.map member_text ms' = y # ys"
    by (cases ms) auto
  have "ended [ParseObjectValue] (scan (Suc lim) (q, [ParseObjectKey]) (member_text (k, v)))"
    using 3 ms scan_member [of lim v q "[]" 1 "Suc lim" k] by simp
  then have "scan (Suc lim) (q, [ParseObjectKey]) (member_text (k, v) @ '','') = (BeginString, [ParseObjectKey])"
    by (simp add: ended_step is_jspace_def del: jstep.simps)
  moreover have "ended [ParseObjectValue]
      (scan (Suc lim) (BeginString, [ParseObjectKey]) (comma_join (List.map member_text ms')))"
    using 3 ms by (intro "3.hyps"(1)) auto
  ultimately show ?case
    using ms by (simp del: jstep.simps)
qed simp

lemma json_valid_object:
  assumes "\<forall>m \<in> set ms. json_valid_lim lim (snd m)"
  shows "json_valid_lim (Suc lim) (object_of ms)"
proof (cases "ms = []")
  case True
  then show ?thesis
    by (simp add: object_of_def json_valid_lim_def step_defs is_jspace_def)
next
  case False
  let ?r = "scan (Suc lim) (BeginStringOrEmpty, [ParseObjectKey]) (comma_join (List.map member_text ms))"
  have "ended [ParseObjectValue] ?r"
    using False assms by (intro scan_members) auto
  then have "jstep (Suc lim) ?r (CHR ''}'') = (EndTop, [])"
    by (simp add: ended_step is_jspace_def pop_state_def del: jstep.simps)
  then show ?thesis
    by (simp add: object_of_def json_valid_lim_def brace_first is_jspace_def del: jstep.simps)
      (simp add: is_jspace_def)
qed

lemma object_text_object_of:
  "\<forall>m \<in> set ms. json_valid_lim lim (snd m) \<Longrightarrow> object_text (Suc lim) (object_of ms)"
  by (simp add: object_text_def json_valid_object) (simp add: object_of_def)

text \<open>
  The limit counts every level: a text reaches a depth when the scanner, over some prefix
  of it, has that many containers open, and a limit below that refuses the text. An object
  reaches one level more than its members.
\<close>

definition reaches :: "nat \<Rightarrow> scanner \<Rightarrow> nat \<Rightarrow> bytes \<Rightarrow> bool" where
  "reaches lim r d s \<longleftrightarrow>
     (\<exists>p. prefix p s \<and> fst (scan lim r p) \<noteq> ScanError \<and> d \<le> length (snd (scan lim r p)))"

lemma length_end_value: "length st \<le> lim \<Longrightarrow> length (snd (end_value st c)) \<le> lim"
  by (cases st) (auto simp: pop_state_def split: pstate.splits)

lemma stack_jstep:
  assumes "length (snd r) \<le> lim" "scanner_ok r"
  shows "length (snd (jstep lim r c)) \<le> lim"
proof (cases "(lim, r, c)" rule: jstep.cases)
  case (3 l st d)
  then have "length (ParseObjectValue # tl st) \<le> lim"
    using assms by (cases st) (auto simp: scanner_ok_def)
  from length_end_value [OF this, of d] 3 assms show ?thesis
    by (auto simp: begin_string_def simp del: end_value.simps)
qed (use assms length_end_value in \<open>auto simp: step_defs simp del: end_value.simps split: list.splits\<close>)

lemma stack_scan: "length (snd r) \<le> lim \<Longrightarrow> scanner_ok r \<Longrightarrow> length (snd (scan lim r s)) \<le> lim"
  by (induction s arbitrary: r) (simp_all add: stack_jstep jstep_ok del: jstep.simps)

lemma reaches_invalid:
  assumes "reaches lim' (BeginValue, []) d s" "lim < d"
  shows "\<not> json_valid_lim lim s"
proof
  assume valid: "json_valid_lim lim s"
  obtain p q where p: "s = p @ q" "fst (scan lim' (BeginValue, []) p) \<noteq> ScanError"
      "d \<le> length (snd (scan lim' (BeginValue, []) p))"
    using assms(1) by (auto simp: reaches_def prefix_def)
  have ok: "scanner_ok (BeginValue, [])"
    by (simp add: scanner_ok_def)
  have "d \<le> lim'"
    using p(3) stack_scan [OF _ ok, of lim' p] by simp
  with assms(2) have "lim \<le> lim'"
    by simp
  have "fst (scan lim (BeginValue, []) p) \<noteq> ScanError"
    using valid_scan(3) [OF valid] p(1) scan_ok_prefix by blast
  then have "scan lim' (BeginValue, []) p = scan lim (BeginValue, []) p"
    using \<open>lim \<le> lim'\<close> by (rule scan_mono)
  then have "d \<le> lim"
    using p(3) stack_scan [OF _ ok, of lim p] by simp
  with assms(2) show False
    by simp
qed

lemma reaches_nested: "0 < n \<Longrightarrow> reaches n (BeginValue, []) n (nested n)"
  using scan_open_arrays [of n "(BeginValue, [])" n]
  by (auto simp: reaches_def nested_def intro!: exI [of _ "replicate n (CHR ''['')"])

lemma reaches_prepend:
  assumes "reaches lim (scan lim r p) d s"
  shows "reaches lim r d (p @ s)"
proof -
  obtain p' where p': "prefix p' s" "fst (scan lim (scan lim r p) p') \<noteq> ScanError"
      "d \<le> length (snd (scan lim (scan lim r p) p'))"
    using assms by (auto simp: reaches_def)
  moreover have "prefix (p @ p') (p @ s)"
    using p'(1) by simp
  ultimately show ?thesis
    unfolding reaches_def by (metis scan_append)
qed

lemma reaches_append: "reaches lim r d s \<Longrightarrow> reaches lim r d (s @ t)"
  unfolding reaches_def using prefix_prefix by blast

lemma reaches_frame:
  assumes "reaches lim (BeginValue, []) d s" "b \<noteq> []" "0 < d"
  shows "reaches (lim + length b) (BeginValue, b) (d + length b) s"
proof -
  obtain p where p: "prefix p s" "fst (scan lim (BeginValue, []) p) \<noteq> ScanError"
      "d \<le> length (snd (scan lim (BeginValue, []) p))"
    using assms by (auto simp: reaches_def)
  have "scanner_ok (scan lim (BeginValue, []) p)"
    by (rule scan_ok) (simp add: scanner_ok_def)
  then have "fst (scan lim (BeginValue, []) p) \<noteq> EndTop"
    using p(3) assms(3) by (auto simp: scanner_ok_def)
  moreover have "scan (lim + length b) (frame b (BeginValue, [])) p = frame b (scan lim (BeginValue, []) p)"
    using assms(2) p(2) by (intro frame_scan) (auto simp: scanner_ok_def)
  ultimately show ?thesis
    unfolding reaches_def using p by (intro exI [of _ p]) (auto simp: frame_def)
qed

lemma reaches_member:
  assumes "reaches lim (BeginValue, []) d v" "0 < d" "q = BeginString \<or> q = BeginStringOrEmpty"
  shows "reaches (Suc lim) (q, [ParseObjectKey]) (Suc d) (member_text (k, v))"
proof -
  have "scan (Suc lim) (q, [ParseObjectKey]) (json_string k @ '':'') = (BeginValue, [ParseObjectValue])"
    using assms(3) by (auto simp: json_string_def scan_quote step_defs is_jspace_def)
  moreover have "reaches (Suc lim) (BeginValue, [ParseObjectValue]) (Suc d) v"
    using reaches_frame [OF assms(1), of "[ParseObjectValue]"] assms(2) by simp
  ultimately show ?thesis
    using reaches_prepend [of "Suc lim" _ "json_string k @ '':''" "Suc d" v] by (simp add: member_text_def)
qed

lemma reaches_members:
  assumes "reaches lim (BeginValue, []) d v" "0 < d" "q = BeginString \<or> q = BeginStringOrEmpty"
    "\<forall>m \<in> set ms. json_valid_lim lim (snd m)"
  shows "reaches (Suc lim) (q, [ParseObjectKey]) (Suc d) (comma_join (List.map member_text (ms @ (k, v) # ms')))"
  using assms(3,4)
proof (induction ms arbitrary: q)
  case Nil
  have "reaches (Suc lim) (q, [ParseObjectKey]) (Suc d) (member_text (k, v))"
    using assms Nil by (intro reaches_member) auto
  then show ?case
    using reaches_append by (cases ms') auto
next
  case (Cons m ms)
  let ?rest = "comma_join (List.map member_text (ms @ (k, v) # ms'))"
  have j: "comma_join (List.map member_text ((m # ms) @ (k, v) # ms')) = (member_text m @ '','') @ ?rest"
    by (cases ms) simp_all
  have "ended [ParseObjectValue] (scan (Suc lim) (q, [ParseObjectKey]) (member_text m))"
    using Cons.prems scan_member [of lim "snd m" q "[]" 1 "Suc lim" "fst m"] by simp
  then have "scan (Suc lim) (q, [ParseObjectKey]) (member_text m @ '','') = (BeginString, [ParseObjectKey])"
    by (simp add: ended_step is_jspace_def del: jstep.simps)
  then show ?case
    unfolding j using Cons by (intro reaches_prepend) simp
qed

lemma reaches_object:
  assumes "reaches lim (BeginValue, []) d v" "0 < d" "\<forall>m \<in> set ms. json_valid_lim lim (snd m)"
  shows "reaches (Suc lim) (BeginValue, []) (Suc d) (object_of (ms @ (k, v) # ms'))"
proof -
  have "reaches (Suc lim) (BeginStringOrEmpty, [ParseObjectKey]) (Suc d)
      (comma_join (List.map member_text (ms @ (k, v) # ms')))"
    using assms by (intro reaches_members) auto
  then have "reaches (Suc lim) (BeginStringOrEmpty, [ParseObjectKey]) (Suc d)
      (comma_join (List.map member_text (ms @ (k, v) # ms')) @ [CHR ''}''])"
    by (rule reaches_append)
  then show ?thesis
    using reaches_prepend [of "Suc lim" "(BeginValue, [])" "[CHR ''{'']"]
    by (simp add: object_of_def brace_first del: jstep.simps)
qed

lemma ascii_head_value: "member_value lim v \<Longrightarrow> ascii_head v"
  using valid_ascii_head [of lim v] by (simp add: member_value_def)

lemma ascii_head_append: "ascii_head s \<Longrightarrow> s \<noteq> [] \<Longrightarrow> ascii_head (s @ t)"
  by (cases s) simp_all

lemma compacted_member:
  assumes "member_value lim v"
  shows "compacted Out (member_text (k, v)) Out"
proof -
  have "compacted Out (CHR '':'' # v) Out"
    using assms by (intro compacted_plain) (auto simp: member_value_def)
  then show ?thesis
    using compacted_append [OF compacted_json_string [of k], of "CHR '':'' # v"] by (simp add: member_text_def)
qed

lemma compacted_members:
  assumes "\<forall>m \<in> set ms. member_value lim (snd m)"
  shows "compacted Out (comma_join (List.map member_text ms)) Out"
  using assms
proof (induction "List.map member_text ms" arbitrary: ms rule: comma_join.induct)
  case (2 x)
  then obtain k v where "ms = [(k, v)]"
    by (cases ms) auto
  with 2 compacted_member [of lim v k] show ?case by simp
next
  case (3 x y ys)
  then obtain k v ms' where ms: "ms = (k, v) # ms'" "List.map member_text ms' = y # ys"
    by (cases ms) auto
  have "compacted Out (comma_join (y # ys)) Out"
    using 3(1) [OF ms(2) [symmetric]] 3(3) ms by simp
  then have "compacted Out (CHR '','' # comma_join (y # ys)) Out"
    by (intro compacted_plain) auto
  then have "compacted Out (member_text (k, v) @ CHR '','' # comma_join (y # ys)) Out"
    using compacted_append [OF compacted_member [of lim v k]] 3 ms by simp
  then show ?case
    using ms by simp
qed simp

lemma compacted_object:
  assumes "\<forall>m \<in> set ms. member_value lim (snd m)"
  shows "compacted Out (object_of ms) Out"
proof -
  have "compacted Out (comma_join (List.map member_text ms) @ [CHR ''}'']) Out"
    using compacted_append [OF compacted_members [OF assms], of "[CHR ''}'']"]
      compacted_plain [of "CHR ''}''" Out "[]" Out] by simp
  then show ?thesis
    by (simp add: object_of_def compacted_plain)
qed

lemma member_value_object:
  "\<forall>m \<in> set ms. member_value lim (snd m) \<Longrightarrow> member_value (Suc lim) (object_of ms)"
  using compacted_object json_valid_object by (auto simp: member_value_def)

text \<open>No line break in it.\<close>

lemma value_no_newline: "member_value lim v \<Longrightarrow> CHR 0x0A \<notin> set v"
  using compact_valid_no_newline [of lim v] by (simp add: member_value_def compacted_def)

subsection \<open>Cutting an object into its members\<close>

text \<open>White space at the ends: a compact text has none.\<close>

fun no_spaces :: "jmode \<Rightarrow> bytes \<Rightarrow> bool" where
  "no_spaces m [] = True"
| "no_spaces m (c # cs) = ((m = Out \<longrightarrow> \<not> is_jspace c) \<and> no_spaces (mode_step m c) cs)"

lemma no_spaces_append: "no_spaces m (s @ t) \<longleftrightarrow> no_spaces m s \<and> no_spaces (mode_run m s) t"
  by (induction s arbitrary: m) auto

lemma escapes_no_spaces:
  "no_spaces m (unicode_escape c)" "is_html c \<Longrightarrow> mode_run m (unicode_escape c) = mode_step m c"
  "no_spaces m (line_sep_escape s)" "mode_run m (line_sep_escape s) = mode_step m (CHR 0xE2)"
proof -
  have h: "\<not> is_jspace (hex_char n) \<and> hex_char n \<noteq> CHR 0x22 \<and> hex_char n \<noteq> CHR 0x5C" if "n < 16" for n
    using plain_hex_char [OF that] by (simp add: plain_char_def)
  then have hx: "\<not> is_jspace (hex_char (bval c div 16))" "\<not> is_jspace (hex_char (bval c mod 16))"
    "hex_char (bval c div 16) \<noteq> CHR 0x22" "hex_char (bval c mod 16) \<noteq> CHR 0x22"
    "hex_char (bval c div 16) \<noteq> CHR 0x5C" "hex_char (bval c mod 16) \<noteq> CHR 0x5C" for c
    by (simp_all add: bval_div_16)
  show "no_spaces m (unicode_escape c)" "is_html c \<Longrightarrow> mode_run m (unicode_escape c) = mode_step m c"
    "no_spaces m (line_sep_escape s)" "mode_run m (line_sep_escape s) = mode_step m (CHR 0xE2)"
    using hx [of c] by (cases m; auto simp: unicode_escape_def line_sep_escape_def mode_step_def is_jspace_def is_html_def)+
qed

lemma compact_no_spaces: "no_spaces m (compact_from m s)"
proof (induction m s rule: compact_induct)
  case (sep m d cs)
  have "line_sep (CHR 0xE2 # CHR 0x80 # d # cs)" "\<not> is_html (CHR 0xE2)"
    using sep by (auto simp: line_sep_def is_html_def)
  then show ?case
    using sep by (simp add: compact_sep no_spaces_append escapes_no_spaces)
qed (auto simp: compact_html compact_space compact_char no_spaces_append escapes_no_spaces)

lemma no_spaces_ends:
  assumes "no_spaces Out s" "mode_run Out s = Out" "s \<noteq> []"
  shows "\<not> is_jspace (hd s)" "\<not> is_jspace (last s)"
proof -
  show "\<not> is_jspace (hd s)"
    using assms(1,3) by (cases s) auto
  show "\<not> is_jspace (last s)"
  proof (cases s rule: rev_cases)
    case (snoc t c)
    with assms have "mode_run Out t = Out \<longrightarrow> \<not> is_jspace c" "mode_step (mode_run Out t) c = Out"
      by (simp_all add: no_spaces_append)
    then show ?thesis
      unfolding snoc by (cases "mode_run Out t") (auto simp: mode_step_def is_jspace_def split: if_splits)
  qed (use assms in simp)
qed

lemma dropWhile_hd: "s \<noteq> [] \<Longrightarrow> \<not> P (hd s) \<Longrightarrow> dropWhile P s = s"
  by (cases s) auto

lemma js_trim_ends: "s \<noteq> [] \<Longrightarrow> \<not> is_jspace (hd s) \<Longrightarrow> \<not> is_jspace (last s) \<Longrightarrow> js_trim s = s"
  by (simp add: js_trim_def dropWhile_hd hd_rev)

lemma js_trim_compacted:
  assumes "compacted Out s Out"
  shows "js_trim s = s"
proof (cases "s = []")
  case False
  have "no_spaces Out s" "mode_run Out s = Out"
    using assms compact_no_spaces [of Out s] by (auto simp: compacted_def)
  with False show ?thesis
    by (intro js_trim_ends no_spaces_ends)
qed (simp add: js_trim_def)

text \<open>Taking the name of a member.\<close>

lemma take_str_plain:
  "c \<noteq> CHR 0x22 \<Longrightarrow> c \<noteq> CHR 0x5C \<Longrightarrow> take_str (c # s) = map_option (\<lambda>(k, r). (c # k, r)) (take_str s)"
  by (cases s) auto

lemma map_option_pair: "map_option (\<lambda>(k, r). ([] @ k, r)) x = x"
  by (cases x) auto

lemma take_str_plains:
  assumes "\<forall>c \<in> set p. c \<noteq> CHR 0x22 \<and> c \<noteq> CHR 0x5C"
  shows "take_str (p @ s) = map_option (\<lambda>(k, r). (p @ k, r)) (take_str s)"
  using assms
  by (induction p) (auto simp: take_str_plain option.map_comp comp_def case_prod_unfold option.map_ident)

lemma take_str_escape: "take_str (CHR 0x5C # d # s) = map_option (\<lambda>(k, r). (CHR 0x5C # d # k, r)) (take_str s)"
  by simp

lemma take_str_unicode:
  "take_str (unicode_escape c @ s) = map_option (\<lambda>(k, r). (unicode_escape c @ k, r)) (take_str s)"
  "take_str (line_sep_escape u @ s) = map_option (\<lambda>(k, r). (line_sep_escape u @ k, r)) (take_str s)"
proof -
  have h: "hex_char n \<noteq> CHR 0x22 \<and> hex_char n \<noteq> CHR 0x5C" if "n < 16" for n
    using plain_hex_char [OF that] by (simp add: plain_char_def)
  show "take_str (unicode_escape c @ s) = map_option (\<lambda>(k, r). (unicode_escape c @ k, r)) (take_str s)"
    "take_str (line_sep_escape u @ s) = map_option (\<lambda>(k, r). (line_sep_escape u @ k, r)) (take_str s)"
    using h bval_div_16 by (auto simp: unicode_escape_def line_sep_escape_def take_str_plain option.map_comp
        comp_def case_prod_unfold simp del: take_str.simps(3) simp add: take_str_escape)
qed

lemma take_str_escape_char:
  "bval c < 128 \<Longrightarrow>
     take_str (escape_char c @ s) = map_option (\<lambda>(k, r). (escape_char c @ k, r)) (take_str s)"
  using take_str_unicode(1) [of c s] by (simp add: escape_char_def take_str_plain)

lemma take_str_quote: "take_str (quote_from s @ CHR 0x22 # t) = Some (quote_from s, t)"
proof (induction s rule: rune_induct)
  case Nil
  then show ?case by (cases t) simp_all
next
  case (ascii c cs)
  then show ?case by (simp add: take_str_escape_char)
next
  case (bad c cs)
  then show ?case by (simp add: take_str_plain)
next
  case (rune r t')
  have "\<forall>c \<in> set r. c \<noteq> CHR 0x22 \<and> c \<noteq> CHR 0x5C"
    using rune_bytes(4) [OF rune(1)] by fastforce
  with rune show ?case
    by (simp add: quote_rune take_str_unicode take_str_plains)
qed

lemma split_member_text:
  assumes "member_value lim v"
  shows "split_member (member_text (k, v)) = Some (valid_utf8 k, v)"
proof -
  have c: "compacted Out (CHR '':'' # v) Out"
    using assms by (intro compacted_plain) (auto simp: member_value_def)
  have "js_trim (member_text (k, v)) = member_text (k, v)" "js_trim v = v"
    using compacted_member [OF assms] assms by (simp_all add: js_trim_compacted member_value_def)
  moreover have "member_text (k, v) = CHR 0x22 # quote_from k @ CHR 0x22 # CHR '':'' # v"
    by (simp add: member_text_def json_string_def)
  ultimately show ?thesis
    using js_trim_compacted [OF c] by (simp add: split_member_def take_str_quote unquote_quote_from)
qed

text \<open>Cutting at the commas: a value has none at the outer level.\<close>

lemma depth_step_simps:
  "depth_step n In c = n" "depth_step n Esc c = n"
  "depth_step n Out (CHR ''{'') = Suc n" "depth_step n Out (CHR ''['') = Suc n"
  "depth_step n Out (CHR ''}'') = n - 1" "depth_step n Out (CHR '']'') = n - 1"
  by (simp_all add: depth_step_def)

lemma depth_step_same: "c \<notin> set ''{}[]'' \<Longrightarrow> depth_step n m c = n"
  by (simp add: depth_step_def)

lemma depth_step_digit: "is_digit c \<or> is_jspace c \<or> is_lower c \<Longrightarrow> depth_step n m c = n"
  by (rule depth_step_same) (auto simp: is_jspace_def is_digit_def is_lower_def)

lemma depth_end_value:
  "fst (end_value st c) \<noteq> ScanError \<Longrightarrow> length (snd (end_value st c)) = depth_step (length st) Out c"
  by (cases st) (auto simp: depth_step_simps depth_step_digit pop_state_def depth_step_same
      split: pstate.splits if_splits)

lemma depth_begin_value:
  "fst (begin_value lim st c) \<noteq> ScanError \<Longrightarrow> length (snd (begin_value lim st c)) = depth_step (length st) Out c"
  by (auto simp: begin_value_def push_state_def depth_step_simps depth_step_digit depth_step_same split: if_splits)

lemma depth_jstep:
  assumes "fst (jstep lim r c) \<noteq> ScanError" "scanner_ok r"
  shows "length (snd (jstep lim r c)) = depth_step (length (snd r)) (mode_of (fst r)) c"
proof (cases "(lim, r, c)" rule: jstep.cases)
  case (3 l st x)
  then have "length (ParseObjectValue # tl st) = length st"
    using assms(2) by (cases st) (auto simp: scanner_ok_def)
  with 3 assms(1) depth_end_value [of "ParseObjectValue # tl st" x] show ?thesis
    by (auto simp: mode_of_def begin_string_def depth_step_same depth_step_digit
        simp del: end_value.simps split: if_splits)
qed (use assms in \<open>auto simp: mode_of_def begin_string_def after_int_def scanner_ok_def depth_end_value
      depth_begin_value depth_step_simps(1,2) depth_step_same depth_step_digit
      simp del: end_value.simps split: if_splits list.splits\<close>)

lemma comma_at_top:
  assumes "fst (jstep lim r (CHR '','')) \<noteq> ScanError" "scanner_ok r" "mode_of (fst r) = Out"
  shows "snd r \<noteq> []"
proof
  assume "snd r = []"
  then show False
    using assms by (cases "(lim, r, CHR '','')" rule: jstep.cases)
      (auto simp: mode_of_def step_defs is_jspace_def is_digit_def scanner_ok_def is_lower_def
        split: list.splits if_splits)
qed

lemma split_commas_ne: "split_commas d m s \<noteq> []"
  by (cases s) (auto split: list.splits)

lemma split_commas_scan:
  assumes "fst (scan lim r s) \<noteq> ScanError" "scanner_ok r"
    "split_commas (length (snd (scan lim r s))) (mode_of (fst (scan lim r s))) t = x # xs"
  shows "split_commas (length (snd r)) (mode_of (fst r)) (s @ t) = (s @ x) # xs"
  using assms
proof (induction s arbitrary: r)
  case (Cons c s)
  then have ok: "fst (jstep lim r c) \<noteq> ScanError"
    using scan_ok_prefix [of lim r "[c]" s] by simp
  have "split_commas (length (snd (jstep lim r c))) (mode_of (fst (jstep lim r c))) (s @ t) = (s @ x) # xs"
    using Cons.prems jstep_ok by (intro Cons.IH) simp_all
  moreover have "length (snd (jstep lim r c)) = depth_step (length (snd r)) (mode_of (fst r)) c"
    "mode_of (fst (jstep lim r c)) = mode_step (mode_of (fst r)) c"
    using depth_jstep mode_jstep ok Cons.prems(2) by blast+
  moreover have "\<not> (mode_of (fst r) = Out \<and> length (snd r) = 0 \<and> c = CHR '','')"
    using comma_at_top [of lim r] ok Cons.prems(2) by auto
  ultimately show ?case
    by auto
qed simp

lemma split_commas_value:
  assumes "json_valid_lim lim v" "split_commas 0 Out t = x # xs"
  shows "split_commas 0 Out (v @ t) = (v @ x) # xs"
proof -
  have ok: "scanner_ok (BeginValue, [])"
    by (simp add: scanner_ok_def)
  show ?thesis
    using split_commas_scan [OF valid_scan(3) [OF assms(1)] ok, of t x xs] assms valid_scan(2) [OF assms(1)]
      valid_mode_out [OF assms(1)]
    by (simp add: mode_of_def)
qed

lemma split_commas_member:
  assumes "json_valid_lim lim v" "split_commas 0 Out t = x # xs"
  shows "split_commas 0 Out (member_text (k, v) @ t) = (member_text (k, v) @ x) # xs"
proof -
  have "split_commas 0 Out (CHR '':'' # v @ t) = (CHR '':'' # v @ x) # xs"
    using split_commas_value [OF assms] by (simp add: depth_step_def mode_step_def)
  then show ?thesis
    using split_commas_value [OF json_valid_string, of "CHR '':'' # v @ t"] by (simp add: member_text_def)
qed

lemma split_commas_members:
  assumes "ms \<noteq> []" "\<forall>m \<in> set ms. json_valid_lim lim (snd m)"
  shows "split_commas 0 Out (comma_join (List.map member_text ms)) = List.map member_text ms"
  using assms
proof (induction "List.map member_text ms" arbitrary: ms rule: comma_join.induct)
  case (2 x)
  then obtain k v where "ms = [(k, v)]"
    by (cases ms) auto
  with 2 split_commas_member [of lim v "[]"] show ?case by simp
next
  case (3 x y ys)
  then obtain k v ms' where ms: "ms = (k, v) # ms'" "List.map member_text ms' = y # ys"
    by (cases ms) auto
  have "split_commas 0 Out (comma_join (y # ys)) = y # ys"
    using 3(1) [OF ms(2) [symmetric]] 3(4) ms by auto
  then have "split_commas 0 Out (CHR '','' # comma_join (y # ys)) = [] # y # ys"
    by simp
  then show ?case
    using ms 3(4) split_commas_member [of lim v "CHR '','' # comma_join (y # ys)"] by simp
qed simp

lemma those_map_Some: "\<forall>x \<in> set xs. f x = Some (g x) \<Longrightarrow> those (List.map f xs) = Some (List.map g xs)"
  by (induction xs) auto

text \<open>What is written is what is read: the names made valid UTF-8, the values as they were.\<close>

lemma object_members_object:
  assumes "\<forall>m \<in> set ms. member_value lim (snd m)"
  shows "object_members (object_of ms) = Some (List.map (\<lambda>(k, v). (valid_utf8 k, v)) ms)"
proof -
  let ?j = "comma_join (List.map member_text ms)"
  have t: "js_trim (object_of ms) = object_of ms" "js_trim ?j = ?j"
    using compacted_object [OF assms] compacted_members [OF assms] by (simp_all add: js_trim_compacted)
  have v: "\<forall>m \<in> set ms. json_valid_lim lim (snd m)"
    using assms by (simp add: member_value_def)
  show ?thesis
  proof (cases "ms = []")
    case True
    with t show ?thesis
      by (simp add: object_members_def object_of_def)
  next
    case False
    then have "?j \<noteq> []"
      by (cases ms; cases "tl ms") (auto simp: member_text_def json_string_def)
    moreover have "those (List.map split_member (List.map member_text ms)) =
        Some (List.map (\<lambda>(k, v). (valid_utf8 k, v)) ms)"
      using assms split_member_text
      by (simp add: comp_def case_prod_unfold) (rule those_map_Some, metis prod.collapse)
    ultimately show ?thesis
      using t split_commas_members [OF False v] by (simp add: object_members_def object_of_def)
  qed
qed

end
