(* ===== verification/Delivery.thy ===== *)
theory Delivery
  imports JsonObject
begin

section \<open>Deliveries: \<open>internal/delivery\<close>\<close>

text \<open>
  The record of a delivery, the request it is created from, and \<open>New\<close> with what it
  calls: \<open>normalize\<close>, \<open>fingerprint\<close>, \<open>newID\<close>. Two library functions are arguments of the
  definitions: \<open>url.Parse\<close>, whose verdict on unusual hosts differs between releases of Go
  (its result is the record \<open>url\<close>), and SHA-256, so that the theorems hold for every hash
  function and say what rests on it being free of collisions. The bytes of
  \<open>crypto/rand\<close> are an argument too. A Go error is a constructor of \<open>delivery_error\<close>,
  one for each error val the code returns.
\<close>

subsection \<open>Status\<close>

type_synonym Status = bytes

definition StatusPending :: Status where "StatusPending = ''pending''"
definition StatusInFlight :: Status where "StatusInFlight = ''in_flight''"
definition StatusSucceeded :: Status where "StatusSucceeded = ''succeeded''"
definition StatusFailed :: Status where "StatusFailed = ''failed''"
definition StatusCanceled :: Status where "StatusCanceled = ''canceled''"

lemmas status_defs =
  StatusPending_def StatusInFlight_def StatusSucceeded_def StatusFailed_def StatusCanceled_def

lemma status_distinct [status_simps, simp]:
  "StatusPending \<noteq> StatusInFlight" "StatusPending \<noteq> StatusSucceeded" "StatusPending \<noteq> StatusFailed"
  "StatusPending \<noteq> StatusCanceled" "StatusInFlight \<noteq> StatusPending" "StatusInFlight \<noteq> StatusSucceeded"
  "StatusInFlight \<noteq> StatusFailed" "StatusInFlight \<noteq> StatusCanceled" "StatusSucceeded \<noteq> StatusPending"
  "StatusSucceeded \<noteq> StatusInFlight" "StatusSucceeded \<noteq> StatusFailed" "StatusSucceeded \<noteq> StatusCanceled"
  "StatusFailed \<noteq> StatusPending" "StatusFailed \<noteq> StatusInFlight" "StatusFailed \<noteq> StatusSucceeded"
  "StatusFailed \<noteq> StatusCanceled" "StatusCanceled \<noteq> StatusPending" "StatusCanceled \<noteq> StatusInFlight"
  "StatusCanceled \<noteq> StatusSucceeded" "StatusCanceled \<noteq> StatusFailed"
  by (simp_all add: status_defs)

lemma status_nonempty [status_simps, simp]:
  "StatusPending \<noteq> []" "StatusInFlight \<noteq> []" "StatusSucceeded \<noteq> []" "StatusFailed \<noteq> []" "StatusCanceled \<noteq> []"
  by (simp_all add: status_defs)

subsection \<open>Records\<close>

record Delivery =
  ID :: bytes
  IdempotencyKey :: bytes
  TargetURL :: bytes
  Method :: bytes
  Headers :: "(bytes, bytes) gomap"
  Body :: bytes
  Status :: Status
  Attempts :: int
  MaxAttempts :: int
  NextAttemptAt :: int
  LeaseUntil :: int
  LastError :: bytes
  LastResponseCode :: int
  CreatedAt :: int
  UpdatedAt :: int

record CreateRequest =
  reqIdempotencyKey :: bytes
  reqTargetURL :: bytes
  reqMethod :: bytes
  reqHeaders :: "(bytes, bytes) gomap"
  reqBody :: bytes
  reqMaxAttempts :: int

text \<open>The fields of \<open>url.URL\<close> the program reads; \<open>urlUser\<close> is whether \<open>User\<close> is not nil.\<close>

record url =
  urlScheme :: bytes
  urlUser :: bool
  urlHost :: bytes
  urlPath :: bytes
  urlRawQuery :: bytes
  urlFragment :: bytes

datatype delivery_error =
    KeyTooLong
  | TargetRequired
  | TargetTooLong
  | TargetUnparsable
  | TargetScheme
  | TargetHost
  | TargetUser
  | TargetFragment
  | MethodInvalid
  | MaxAttemptsRange
  | HeaderNameInvalid bytes
  | HeaderManaged bytes
  | HeaderNewline bytes
  | HeaderDuplicated bytes
  | BodyTooLong
  | IDGeneration

definition MaxBodyBytes :: int where
  "MaxBodyBytes = 2 ^ 20"

definition zero_time :: int where
  "zero_time = 0"

subsection \<open>\<open>normalize\<close>\<close>

text \<open>
  \<open>validMethod\<close> looks at runes; a byte above 127 starts a rune of at least 128 (or is
  read as U+FFFD), so that looking at bytes gives the same answer.
\<close>

definition separators :: bytes where
  "separators = ''()<>@,;:'' @ [CHR 0x5C, CHR 0x22] @ ''/[]?={}''"

definition method_char :: "char \<Rightarrow> bool" where
  "method_char c \<longleftrightarrow> 32 < bval c \<and> bval c < 127 \<and> c \<notin> set separators"

definition validMethod :: "bytes \<Rightarrow> bool" where
  "validMethod m \<longleftrightarrow> m \<noteq> [] \<and> list_all method_char m"

definition validHeaderName :: "bytes \<Rightarrow> bool" where
  "validHeaderName name = validMethod name"

definition reservedHeader :: "bytes \<Rightarrow> bool" where
  "reservedHeader name \<longleftrightarrow>
     name \<in> set [''Connection'', ''Content-Length'', ''Host'', ''Proxy-Connection'', ''Trailer'',
       ''Transfer-Encoding'', ''Upgrade'', ''X-Spoold-Attempt'', ''X-Spoold-Delivery-Id'']"

text \<open>The loop over the headers, in the order the map is iterated.\<close>

fun normalizeHeaders ::
  "(bytes \<times> bytes) list \<Rightarrow> (bytes, bytes) gomap \<Rightarrow> delivery_error + (bytes, bytes) gomap" where
  "normalizeHeaders [] acc = Inr acc"
| "normalizeHeaders ((name, val) # rest) acc =
     (let canonical = canonical_header_key (trim_space name)
      in if canonical = [] \<or> \<not> validHeaderName canonical then Inl (HeaderNameInvalid name)
         else if reservedHeader canonical then Inl (HeaderManaged name)
         else if contains_any val [CHR 0x0D, CHR 0x0A] then Inl (HeaderNewline name)
         else if map_of acc canonical \<noteq> None then Inl (HeaderDuplicated name)
         else normalizeHeaders rest (AList.update canonical val acc))"

definition normalizeTarget :: "(bytes \<Rightarrow> url option) \<Rightarrow> bytes \<Rightarrow> delivery_error option" where
  "normalizeTarget url_parse target =
     (if target = [] then Some TargetRequired
      else if 4096 < int (length target) then Some TargetTooLong
      else case url_parse target of
        None \<Rightarrow> Some TargetUnparsable
      | Some u \<Rightarrow>
          if urlScheme u \<noteq> ''http'' \<and> urlScheme u \<noteq> ''https'' then Some TargetScheme
          else if urlHost u = [] then Some TargetHost
          else if urlUser u then Some TargetUser
          else if urlFragment u \<noteq> [] then Some TargetFragment
          else None)"

definition normalizeMethod :: "bytes \<Rightarrow> bytes" where
  "normalizeMethod m = (let m' = to_upper (trim_space m) in if m' = [] then ''POST'' else m')"

definition normalizeAttempts :: "int \<Rightarrow> int" where
  "normalizeAttempts n = (if n = 0 then 8 else n)"

definition normalize :: "(bytes \<Rightarrow> url option) \<Rightarrow> CreateRequest \<Rightarrow> delivery_error + CreateRequest" where
  "normalize url_parse req =
     (let key = trim_space (reqIdempotencyKey req);
          target = trim_space (reqTargetURL req);
          m = normalizeMethod (reqMethod req);
          n = normalizeAttempts (reqMaxAttempts req)
      in if 256 < int (length key) then Inl KeyTooLong
         else case normalizeTarget url_parse target of
           Some e \<Rightarrow> Inl e
         | None \<Rightarrow>
             if \<not> validMethod m then Inl MethodInvalid
             else if n < 1 \<or> 100 < n then Inl MaxAttemptsRange
             else case normalizeHeaders (reqHeaders req) [] of
               Inl e \<Rightarrow> Inl e
             | Inr hs \<Rightarrow>
                 if MaxBodyBytes < int (length (reqBody req)) then Inl BodyTooLong
                 else Inr (req\<lparr>reqIdempotencyKey := key, reqTargetURL := target, reqMethod := m,
                   reqMaxAttempts := n, reqHeaders := hs\<rparr>))"

subsection \<open>\<open>fingerprint\<close> and \<open>binaryFingerprint\<close>\<close>

text \<open>The bytes written to the hash.\<close>

fun header_lines :: "(bytes, bytes) gomap \<Rightarrow> bytes list \<Rightarrow> bytes" where
  "header_lines hs [] = []"
| "header_lines hs (name # names) =
     name @ '':'' @ lookup_or [] hs name @ [CHR 0x0A] @ header_lines hs names"

definition json_preimage :: "CreateRequest \<Rightarrow> bytes" where
  "json_preimage req =
     reqMethod req @ [CHR 0x0A] @ reqTargetURL req @ [CHR 0x0A] @ show_int (reqMaxAttempts req) @ [CHR 0x0A] @
     header_lines (reqHeaders req) (sort_strings (gokeys (reqHeaders req))) @ reqBody req"

definition writeFingerprintField :: "bytes \<Rightarrow> bytes" where
  "writeFingerprintField v = show_nat (length v) @ '':'' @ v"

fun header_fields :: "(bytes, bytes) gomap \<Rightarrow> bytes list \<Rightarrow> bytes" where
  "header_fields hs [] = []"
| "header_fields hs (name # names) =
     writeFingerprintField name @ writeFingerprintField (lookup_or [] hs name) @ header_fields hs names"

definition binary_preimage :: "CreateRequest \<Rightarrow> bytes" where
  "binary_preimage req =
     ''spoold-request-v2'' @ [CHR 0x00] @ writeFingerprintField (reqMethod req) @
     writeFingerprintField (reqTargetURL req) @ writeFingerprintField (show_int (reqMaxAttempts req)) @
     (let names = sort_strings (gokeys (reqHeaders req))
      in show_nat (length names) @ '':'' @ header_fields (reqHeaders req) names) @
     show_nat (length (reqBody req)) @ '':'' @ reqBody req"

definition fingerprint_preimage :: "CreateRequest \<Rightarrow> bytes" where
  "fingerprint_preimage req =
     (if 0 < length (reqBody req) \<and> \<not> json_valid (reqBody req) then binary_preimage req else json_preimage req)"

definition fingerprint :: "(bytes \<Rightarrow> bytes) \<Rightarrow> CreateRequest \<Rightarrow> bytes" where
  "fingerprint sha256 req = hex_encode (sha256 (fingerprint_preimage req))"

subsection \<open>\<open>newID\<close>, \<open>New\<close>, \<open>Clone\<close>\<close>

text \<open>\<open>rand.Read\<close> gives 16 bytes, or fails.\<close>

definition newID :: "bytes option \<Rightarrow> bytes option" where
  "newID raw = map_option hex_encode raw"

definition New ::
  "(bytes \<Rightarrow> url option) \<Rightarrow> (bytes \<Rightarrow> bytes) \<Rightarrow> bytes option \<Rightarrow> CreateRequest \<Rightarrow> int \<Rightarrow>
   delivery_error + Delivery \<times> bytes" where
  "New url_parse sha256 raw req now =
     (case normalize url_parse req of
        Inl e \<Rightarrow> Inl e
      | Inr nreq \<Rightarrow>
          (case newID raw of
             None \<Rightarrow> Inl IDGeneration
           | Some i \<Rightarrow>
               Inr (\<lparr>ID = i, IdempotencyKey = reqIdempotencyKey nreq, TargetURL = reqTargetURL nreq,
                 Method = reqMethod nreq, Headers = reqHeaders nreq, Body = reqBody nreq,
                 Status = StatusPending, Attempts = 0, MaxAttempts = reqMaxAttempts nreq,
                 NextAttemptAt = now, LeaseUntil = zero_time, LastError = [], LastResponseCode = 0,
                 CreatedAt = now, UpdatedAt = now\<rparr>, fingerprint sha256 nreq)))"

text \<open>\<open>Clone\<close> copies the map and the bytes; on values that is the same delivery.\<close>

definition cloneHeaders :: "(bytes, bytes) gomap \<Rightarrow> (bytes, bytes) gomap" where
  "cloneHeaders headers =
     (if length headers = 0 then []
      else foldl (\<lambda>result (name, val). AList.update name val result) [] headers)"

definition Clone :: "Delivery \<Rightarrow> Delivery" where
  "Clone d = d\<lparr>Headers := cloneHeaders (Headers d), Body := [] @ Body d\<rparr>"

lemma update_new: "map_of m k = None \<Longrightarrow> AList.update k v m = m @ [(k, v)]"
  by (induction m) (auto split: if_splits)

lemma clone_foldl:
  "gomap_ok (acc @ hs) \<Longrightarrow> foldl (\<lambda>result (name, val). AList.update name val result) acc hs = acc @ hs"
proof (induction hs arbitrary: acc)
  case (Cons h hs)
  then have "map_of acc (fst h) = None"
    by (auto simp: gomap_ok_def map_of_eq_None_iff)
  then have "AList.update (fst h) (snd h) acc = acc @ [h]"
    using update_new [of acc "fst h" "snd h"] by simp
  with Cons show ?case
    by (simp add: case_prod_unfold)
qed simp

lemma cloneHeaders_id: "gomap_ok hs \<Longrightarrow> cloneHeaders hs = hs"
  using clone_foldl [of "[]" hs] by (simp add: cloneHeaders_def)

lemma Clone_id [simp]: "gomap_ok (Headers d) \<Longrightarrow> Clone d = d"
  by (simp add: Clone_def cloneHeaders_id)

lemma gomap_ok_cloneHeaders: "gomap_ok (cloneHeaders hs)"
proof -
  have "gomap_ok (foldl (\<lambda>result (name, val). AList.update name val result) acc hs)" if "gomap_ok acc" for acc
    using that by (induction hs arbitrary: acc) (auto simp: gomap_ok_update)
  then show ?thesis
    by (simp add: cloneHeaders_def)
qed

subsection \<open>What \<open>normalize\<close> establishes\<close>

definition header_ok :: "bytes \<times> bytes \<Rightarrow> bool" where
  "header_ok h \<longleftrightarrow>
     validHeaderName (fst h) \<and> canonical_header_key (fst h) = fst h \<and> \<not> reservedHeader (fst h) \<and>
     CHR 0x0A \<notin> set (snd h) \<and> CHR 0x0D \<notin> set (snd h)"

definition request_ok :: "(bytes \<Rightarrow> url option) \<Rightarrow> CreateRequest \<Rightarrow> bool" where
  "request_ok url_parse r \<longleftrightarrow>
     trim_space (reqIdempotencyKey r) = reqIdempotencyKey r \<and> int (length (reqIdempotencyKey r)) \<le> 256 \<and>
     trim_space (reqTargetURL r) = reqTargetURL r \<and> normalizeTarget url_parse (reqTargetURL r) = None \<and>
     validMethod (reqMethod r) \<and> list_all (\<lambda>c. \<not> is_lower c) (reqMethod r) \<and>
     1 \<le> reqMaxAttempts r \<and> reqMaxAttempts r \<le> 100 \<and>
     gomap_ok (reqHeaders r) \<and> list_all header_ok (reqHeaders r) \<and> int (length (reqBody r)) \<le> MaxBodyBytes"

lemma method_char_range: "method_char c \<Longrightarrow> 32 < bval c \<and> bval c < 127"
  by (simp add: method_char_def)

lemma space_bytes:
  "\<forall>c \<in> set ascii_spaces. bval c \<le> 32" "\<forall>w \<in> set spaces2. 127 < bval (hd w)" "\<forall>w \<in> set spaces3. 127 < bval (hd w)"
  "\<forall>w \<in> set spaces2. 127 < bval (last w)" "\<forall>w \<in> set spaces3. 127 < bval (last w)"
  "\<forall>w \<in> set spaces2. w \<noteq> []" "\<forall>w \<in> set spaces3. w \<noteq> []"
  by (simp_all add: ascii_spaces_def spaces2_def spaces3_def)

text \<open>Text without spaces, control or high bytes is left alone by \<open>TrimSpace\<close>.\<close>

lemma trim_space_visible:
  assumes "\<forall>c \<in> set s. 32 < bval c \<and> bval c < 127"
  shows "trim_space s = s"
proof -
  have "space_prefix s = 0"
  proof (cases s)
    case (Cons c cs)
    then have "hd (take 2 s) = c" "hd (take 3 s) = c" "32 < bval c" "bval c < 127"
      using assms by simp_all
    then have "c \<notin> set ascii_spaces" "take 2 s \<notin> set spaces2" "take 3 s \<notin> set spaces3"
      using space_bytes(1-3) by fastforce+
    with Cons show ?thesis
      by (simp add: space_prefix_def)
  qed (simp add: space_prefix_def)
  moreover have "space_suffix (rev s) = 0"
  proof (cases "rev s")
    case (Cons c cs)
    then have "c \<in> set s"
      by (metis list.set_intros(1) set_rev)
    then have c: "32 < bval c" "bval c < 127"
      using assms by simp_all
    have "last (rev (take 2 (rev s))) = c" "last (rev (take 3 (rev s))) = c"
      using Cons by (simp_all add: last_rev numeral_2_eq_2 numeral_3_eq_3)
    then have "c \<notin> set ascii_spaces" "rev (take 2 (rev s)) \<notin> set spaces2" "rev (take 3 (rev s)) \<notin> set spaces3"
      using space_bytes(1,4,5) c by fastforce+
    with Cons show ?thesis
      by (simp add: space_suffix_def)
  qed (simp add: space_suffix_def)
  ultimately show ?thesis
    by (simp add: trim_space_def trim_left_fixed trim_rev_fixed)
qed

lemma validMethod_trim: "validMethod m \<Longrightarrow> trim_space m = m"
  by (intro trim_space_visible) (auto simp: validMethod_def list_all_iff method_char_range)

lemma validMethod_upper:
  "validMethod m \<Longrightarrow> list_all (\<lambda>c. \<not> is_lower c) m \<Longrightarrow> normalizeMethod m = m"
proof -
  assume m: "validMethod m" "list_all (\<lambda>c. \<not> is_lower c) m"
  then have "\<forall>c \<in> set m. is_ascii c \<and> \<not> is_lower c"
    using method_char_range by (fastforce simp: validMethod_def list_all_iff is_ascii_def)
  then have "to_upper m = m"
    by (rule to_upper_ascii_fixed)
  then show ?thesis
    using m validMethod_trim [OF m(1)] by (simp add: normalizeMethod_def Let_def validMethod_def)
qed

lemma normalizeMethod_no_lower: "list_all (\<lambda>c. \<not> is_lower c) (normalizeMethod m)"
  using to_upper_no_lower by (auto simp: normalizeMethod_def Let_def list_all_iff is_lower_def)

lemma normalizeHeaders_ok:
  "normalizeHeaders hs acc = Inr res \<Longrightarrow> gomap_ok acc \<Longrightarrow> list_all header_ok acc \<Longrightarrow>
     gomap_ok res \<and> list_all header_ok res \<and> length res = length acc + length hs"
proof (induction hs acc rule: normalizeHeaders.induct)
  case (2 name val rest acc)
  let ?c = "canonical_header_key (trim_space name)"
  from "2.prems"(1) have c: "?c \<noteq> []" "validHeaderName ?c" "\<not> reservedHeader ?c"
      "\<not> contains_any val [CHR 0x0D, CHR 0x0A]" "map_of acc ?c = None"
      "normalizeHeaders rest (AList.update ?c val acc) = Inr res"
    by (auto simp: Let_def split: if_splits)
  then have "header_ok (?c, val)"
    by (auto simp: header_ok_def contains_any_def list_ex_iff)
  moreover have "gomap_ok (acc @ [(?c, val)])"
    using c(5) "2.prems"(2) by (simp add: gomap_ok_def map_of_eq_None_iff)
  ultimately have "gomap_ok res \<and> list_all header_ok res \<and>
      length res = length (AList.update ?c val acc) + length rest"
    using c "2.prems" by (intro "2.IH" [OF refl]) (auto simp: update_new)
  then show ?case
    by (simp add: update_new [OF c(5)])
qed auto

lemma header_name_fixed: "header_ok h \<Longrightarrow> canonical_header_key (trim_space (fst h)) = fst h"
  using validMethod_trim by (simp add: header_ok_def validHeaderName_def)

lemma normalizeHeaders_fixed:
  "gomap_ok (acc @ hs) \<Longrightarrow> list_all header_ok hs \<Longrightarrow> normalizeHeaders hs acc = Inr (acc @ hs)"
proof (induction hs arbitrary: acc)
  case (Cons h hs)
  obtain name val where h: "h = (name, val)"
    by (cases h)
  then have n: "canonical_header_key (trim_space name) = name"
    using header_name_fixed [of h] Cons.prems(2) by simp
  have "map_of acc name = None"
    using Cons.prems(1) h by (auto simp: gomap_ok_def map_of_eq_None_iff)
  moreover have "header_ok (name, val)" "normalizeHeaders hs (acc @ [(name, val)]) = Inr ((acc @ [(name, val)]) @ hs)"
    using Cons h by simp_all
  ultimately show ?case
    using n h by (auto simp: Let_def update_new header_ok_def validHeaderName_def validMethod_def
        contains_any_def list_ex_iff)
qed simp

lemma normalize_request_ok:
  assumes "normalize url_parse req = Inr r"
  shows "request_ok url_parse r" "reqBody r = reqBody req"
proof -
  let ?key = "trim_space (reqIdempotencyKey req)" and ?target = "trim_space (reqTargetURL req)"
  obtain hs where n: "int (length ?key) \<le> 256" "normalizeTarget url_parse ?target = None"
    "validMethod (normalizeMethod (reqMethod req))"
    "1 \<le> normalizeAttempts (reqMaxAttempts req)" "normalizeAttempts (reqMaxAttempts req) \<le> 100"
    "normalizeHeaders (reqHeaders req) [] = Inr hs" "int (length (reqBody req)) \<le> MaxBodyBytes"
    "r = req\<lparr>reqIdempotencyKey := ?key, reqTargetURL := ?target, reqMethod := normalizeMethod (reqMethod req),
      reqMaxAttempts := normalizeAttempts (reqMaxAttempts req), reqHeaders := hs\<rparr>"
    using assms by (auto simp: normalize_def Let_def not_less split: option.splits sum.splits if_splits)
  then show "request_ok url_parse r" "reqBody r = reqBody req"
    using normalizeHeaders_ok [OF n(6)] normalizeMethod_no_lower by (auto simp: request_ok_def)
qed

lemma normalize_fixed:
  assumes "request_ok url_parse r"
  shows "normalize url_parse r = Inr r"
proof -
  have "normalizeHeaders (reqHeaders r) [] = Inr (reqHeaders r)"
    using assms normalizeHeaders_fixed [of "[]"] by (simp add: request_ok_def)
  moreover have "normalizeAttempts (reqMaxAttempts r) = reqMaxAttempts r"
    using assms by (simp add: request_ok_def normalizeAttempts_def)
  ultimately show ?thesis
    using assms validMethod_upper by (simp add: normalize_def request_ok_def Let_def)
qed

subsection \<open>What the hashed text determines\<close>

text \<open>Two requests are the same for the idempotency check.\<close>

definition same_request :: "CreateRequest \<Rightarrow> CreateRequest \<Rightarrow> bool" where
  "same_request r r' \<longleftrightarrow>
     reqMethod r = reqMethod r' \<and> reqTargetURL r = reqTargetURL r' \<and> reqMaxAttempts r = reqMaxAttempts r' \<and>
     map_of (reqHeaders r) = map_of (reqHeaders r') \<and> reqBody r = reqBody r'"

lemma cut_unique: "c \<notin> set p \<Longrightarrow> c \<notin> set q \<Longrightarrow> p @ c # x = q @ c # y \<longleftrightarrow> p = q \<and> x = y"
  by (induction p arbitrary: q) (case_tac q; auto)+

lemma no_colon_digits: "CHR '':'' \<notin> set (show_nat n)" "CHR 0x0A \<notin> set (show_int i)"
  using show_nat_digits [of n] show_int_chars [of "CHR 0x0A" i] by (auto simp: list_all_iff is_digit_def)

lemma show_nat_field: "show_nat m @ CHR '':'' # x = show_nat n @ CHR '':'' # y \<longleftrightarrow> m = n \<and> x = y"
  by (simp add: cut_unique no_colon_digits)

lemma field_inject: "writeFingerprintField v @ x = writeFingerprintField w @ y \<longleftrightarrow> v = w \<and> x = y"
  by (auto simp: writeFingerprintField_def show_nat_field)

lemma header_fields_inject:
  "length names = length names' \<Longrightarrow>
   header_fields hs names @ x = header_fields hs' names' @ y \<longleftrightarrow>
     names = names' \<and> (\<forall>n \<in> set names. lookup_or [] hs n = lookup_or [] hs' n) \<and> x = y"
  by (induction names names' rule: list_induct2) (auto simp: field_inject)

text \<open>No JSON text starts like a header line.\<close>

lemma colon_at_top:
  assumes "fst (jstep lim r (CHR '':'')) \<noteq> ScanError" "scanner_ok r" "mode_of (fst r) = Out"
  shows "snd r \<noteq> []"
proof
  assume "snd r = []"
  then show False
    using assms by (cases "(lim, r, CHR '':'')" rule: jstep.cases)
      (auto simp: mode_of_def step_defs is_jspace_def is_digit_def scanner_ok_def is_lower_def
        split: list.splits if_splits)
qed

lemma scan_name:
  assumes "list_all method_char s" "fst (scan lim r s) \<noteq> ScanError" "scanner_ok r" "mode_of (fst r) = Out"
  shows "mode_of (fst (scan lim r s)) = Out \<and> length (snd (scan lim r s)) = length (snd r)"
  using assms
proof (induction s arbitrary: r)
  case (Cons c s)
  then have ok: "fst (jstep lim r c) \<noteq> ScanError"
    using scan_ok_prefix [of lim r "[c]" s] by simp
  have c: "c \<noteq> CHR 0x22" "c \<notin> set ''{}[]''"
    using Cons.prems(1) by (auto simp: method_char_def separators_def)
  have "mode_of (fst (jstep lim r c)) = Out" "length (snd (jstep lim r c)) = length (snd r)"
    using mode_jstep [OF ok Cons.prems(3)] depth_jstep [OF ok Cons.prems(3)] c Cons.prems(4)
    by (simp_all add: mode_step_def depth_step_same)
  with Cons show ?case
    by (simp add: jstep_ok del: jstep.simps)
qed simp

lemma json_not_header_line:
  assumes "list_all method_char name"
  shows "\<not> json_valid (name @ CHR '':'' # z)"
proof
  let ?r = "scan max_nesting (BeginValue, []) name"
  assume "json_valid (name @ CHR '':'' # z)"
  then have ok: "fst (scan max_nesting (BeginValue, []) (name @ CHR '':'' # z)) \<noteq> ScanError"
    unfolding json_valid_def by (rule valid_scan(3))
  have s: "scanner_ok (BeginValue, [])" "scanner_ok ?r"
    by (simp add: scanner_ok_def) (rule scan_ok, simp add: scanner_ok_def)
  have "fst ?r \<noteq> ScanError"
    using ok by (rule scan_ok_prefix)
  then have "mode_of (fst ?r) = Out" "snd ?r = []"
    using scan_name [OF assms _ s(1), of max_nesting] by (simp_all add: mode_of_def)
  moreover have "fst (jstep max_nesting ?r (CHR '':'')) \<noteq> ScanError"
    using scan_ok_prefix [of max_nesting "(BeginValue, [])" "name @ '':''" z] ok by simp
  ultimately show False
    using colon_at_top s(2) by blast
qed

definition json_body :: "bytes \<Rightarrow> bool" where
  "json_body b \<longleftrightarrow> b = [] \<or> json_valid b"

lemma header_lines_inject:
  assumes "\<forall>n \<in> set names. validHeaderName n \<and> CHR 0x0A \<notin> set (lookup_or [] hs n)"
    "\<forall>n \<in> set names'. validHeaderName n \<and> CHR 0x0A \<notin> set (lookup_or [] hs' n)"
    "json_body b" "json_body b'"
    "header_lines hs names @ b = header_lines hs' names' @ b'"
  shows "names = names' \<and> (\<forall>n \<in> set names. lookup_or [] hs n = lookup_or [] hs' n) \<and> b = b'"
proof -
  have not_line: "body \<noteq> n @ CHR '':'' # z" if "validHeaderName n" "json_body body" for body n z
    using that json_not_header_line [of n z] by (auto simp: json_body_def validHeaderName_def validMethod_def)
  have nocolon: "CHR '':'' \<notin> set n" if "validHeaderName n" for n
    using that by (auto simp: validHeaderName_def validMethod_def list_all_iff method_char_def separators_def)
  show ?thesis
    using assms
  proof (induction names arbitrary: names')
    case Nil
    then show ?case
      by (cases names') (auto dest: not_line)
  next
    case (Cons n names)
    show ?case
    proof (cases names')
      case Nil
      with Cons.prems not_line [of n b'] show ?thesis
        by (auto dest: sym)
    next
      case (Cons n' rest)
      note N = Cons
      have "n @ CHR '':'' # lookup_or [] hs n @ CHR 0x0A # header_lines hs names @ b =
          n' @ CHR '':'' # lookup_or [] hs' n' @ CHR 0x0A # header_lines hs' rest @ b'"
        using Cons.prems(5) N by simp
      then have e: "n = n' \<and> lookup_or [] hs n = lookup_or [] hs' n' \<and> header_lines hs names @ b = header_lines hs' rest @ b'"
      proof (intro conjI)
        have v: "validHeaderName n" "validHeaderName n'" "CHR 0x0A \<notin> set (lookup_or [] hs n)"
          "CHR 0x0A \<notin> set (lookup_or [] hs' n')"
          using Cons.prems(1,2) N by simp_all
        assume "n @ CHR '':'' # lookup_or [] hs n @ CHR 0x0A # header_lines hs names @ b =
          n' @ CHR '':'' # lookup_or [] hs' n' @ CHR 0x0A # header_lines hs' rest @ b'"
        then have 1: "n = n' \<and> lookup_or [] hs n @ CHR 0x0A # header_lines hs names @ b =
            lookup_or [] hs' n' @ CHR 0x0A # header_lines hs' rest @ b'"
          by (rule cut_unique [OF nocolon nocolon, OF v(1,2), THEN iffD1])
        then show "n = n'" ..
        from 1 have "lookup_or [] hs n @ CHR 0x0A # header_lines hs names @ b =
            lookup_or [] hs' n' @ CHR 0x0A # header_lines hs' rest @ b'" ..
        then have 2: "lookup_or [] hs n = lookup_or [] hs' n' \<and> header_lines hs names @ b = header_lines hs' rest @ b'"
          by (rule cut_unique [OF v(3,4), THEN iffD1])
        then show "lookup_or [] hs n = lookup_or [] hs' n'" "header_lines hs names @ b = header_lines hs' rest @ b'"
          by blast+
      qed
      then have "names = rest \<and> (\<forall>n \<in> set names. lookup_or [] hs n = lookup_or [] hs' n) \<and> b = b'"
        using Cons.prems N by (intro Cons.IH) simp_all
      with e N show ?thesis
        by auto
    qed
  qed
qed

lemma lookup_or_same:
  assumes "sort_strings (gokeys hs) = sort_strings (gokeys hs')"
    "\<forall>n \<in> set (sort_strings (gokeys hs)). lookup_or [] hs n = lookup_or [] hs' n"
  shows "map_of hs = map_of hs'"
proof
  fix n
  have k: "set (gokeys hs) = set (gokeys hs')"
    using arg_cong [OF assms(1), of set] by simp
  show "map_of hs n = map_of hs' n"
  proof (cases "n \<in> set (gokeys hs)")
    case True
    then have "map_of hs n \<noteq> None" "map_of hs' n \<noteq> None"
      using k by (simp_all add: gokeys_def map_of_eq_None_iff)
    moreover have "lookup_or [] hs n = lookup_or [] hs' n"
      using assms(2) True by simp
    ultimately show ?thesis
      by (auto simp: lookup_or_def)
  next
    case False
    with k have "map_of hs n = None" "map_of hs' n = None"
      by (simp_all add: gokeys_def map_of_eq_None_iff)
    then show ?thesis
      by simp
  qed
qed

lemma same_keys_sorted:
  assumes "gomap_ok hs" "gomap_ok hs'" "map_of hs = map_of hs'"
  shows "sort_strings (gokeys hs) = sort_strings (gokeys hs')"
proof -
  have "mset hs = mset hs'"
    using assms by (rule same_lookups_mset)
  then show ?thesis
    unfolding gokeys_def by (intro sort_strings_perm) (metis mset_map)
qed

text \<open>A header value of an accepted request, and the target and method, hold no line break.\<close>

definition rejects_control :: "(bytes \<Rightarrow> url option) \<Rightarrow> bool" where
  "rejects_control url_parse \<longleftrightarrow>
     (\<forall>s u. url_parse s = Some u \<longrightarrow> list_all (\<lambda>c. 32 \<le> bval c \<and> bval c \<noteq> 127) s)"

lemma request_lines:
  assumes "request_ok url_parse r"
  shows "CHR 0x0A \<notin> set (reqMethod r)" "CHR 0x00 \<notin> set (reqMethod r)"
    "rejects_control url_parse \<Longrightarrow> CHR 0x0A \<notin> set (reqTargetURL r)"
    "\<forall>n \<in> set (sort_strings (gokeys (reqHeaders r))). validHeaderName n \<and> CHR 0x0A \<notin> set (lookup_or [] (reqHeaders r) n)"
proof -
  have "\<forall>c \<in> set (reqMethod r). 32 < bval c"
    using assms by (auto simp: request_ok_def validMethod_def list_all_iff method_char_def)
  then show "CHR 0x0A \<notin> set (reqMethod r)" "CHR 0x00 \<notin> set (reqMethod r)"
    by auto
  show "CHR 0x0A \<notin> set (reqTargetURL r)" if "rejects_control url_parse"
    using assms that
    by (auto simp: request_ok_def normalizeTarget_def rejects_control_def list_all_iff split: if_splits option.splits)
      force+
  have "validHeaderName n \<and> CHR 0x0A \<notin> set (lookup_or [] (reqHeaders r) n)" if n: "n \<in> set (gokeys (reqHeaders r))" for n
  proof -
    obtain v where "(n, v) \<in> set (reqHeaders r)" "map_of (reqHeaders r) n = Some v"
      using n assms by (auto simp: gokeys_def request_ok_def gomap_ok_mem)
    then show ?thesis
      using assms by (auto simp: request_ok_def list_all_iff header_ok_def lookup_or_def)
  qed
  then show "\<forall>n \<in> set (sort_strings (gokeys (reqHeaders r))). validHeaderName n \<and>
      CHR 0x0A \<notin> set (lookup_or [] (reqHeaders r) n)"
    by simp
qed

lemma json_preimage_inject:
  assumes "request_ok p r" "request_ok p r'" "rejects_control p" "json_body (reqBody r)" "json_body (reqBody r')"
    "json_preimage r = json_preimage r'"
  shows "same_request r r'"
proof -
  note l = request_lines [OF assms(1)] request_lines [OF assms(2)]
  let ?ns = "sort_strings (gokeys (reqHeaders r))" and ?ns' = "sort_strings (gokeys (reqHeaders r'))"
  have eq: "reqMethod r = reqMethod r'" "reqTargetURL r = reqTargetURL r'" "reqMaxAttempts r = reqMaxAttempts r'"
    "header_lines (reqHeaders r) ?ns @ reqBody r = header_lines (reqHeaders r') ?ns' @ reqBody r'"
    using assms(6) by (simp_all add: json_preimage_def cut_unique l assms(3) no_colon_digits)
  then have "?ns = ?ns' \<and> (\<forall>n \<in> set ?ns. lookup_or [] (reqHeaders r) n = lookup_or [] (reqHeaders r') n) \<and>
      reqBody r = reqBody r'"
    using l assms by (intro header_lines_inject) auto
  then show ?thesis
    using eq lookup_or_same by (auto simp: same_request_def)
qed

lemma binary_preimage_inject:
  assumes "binary_preimage r = binary_preimage r'"
  shows "same_request r r'"
proof -
  let ?ns = "sort_strings (gokeys (reqHeaders r))" and ?ns' = "sort_strings (gokeys (reqHeaders r'))"
  have eq: "reqMethod r = reqMethod r'" "reqTargetURL r = reqTargetURL r'" "reqMaxAttempts r = reqMaxAttempts r'"
    and n: "length ?ns = length ?ns'"
    and h: "header_fields (reqHeaders r) ?ns @ show_nat (length (reqBody r)) @ '':'' @ reqBody r =
       header_fields (reqHeaders r') ?ns' @ show_nat (length (reqBody r')) @ '':'' @ reqBody r'"
    using assms by (simp_all add: binary_preimage_def field_inject show_nat_field Let_def del: length_sort_strings)
  have "?ns = ?ns' \<and> (\<forall>n \<in> set ?ns. lookup_or [] (reqHeaders r) n = lookup_or [] (reqHeaders r') n)"
    and "show_nat (length (reqBody r)) @ '':'' @ reqBody r = show_nat (length (reqBody r')) @ '':'' @ reqBody r'"
    using h unfolding header_fields_inject [OF n] by blast+
  then show ?thesis
    using eq lookup_or_same by (auto simp: same_request_def show_nat_field)
qed

lemma preimages_apart:
  assumes "request_ok p r"
  shows "json_preimage r \<noteq> binary_preimage r'"
proof
  let ?s = "''spoold-request-v2'' @ [CHR 0x00]"
  assume "json_preimage r = binary_preimage r'"
  then obtain x y where xy: "reqMethod r @ CHR 0x0A # x = ?s @ y"
    by (simp add: json_preimage_def binary_preimage_def)
  have nl: "CHR 0x0A \<notin> set ?s" and z: "CHR 0x00 \<in> set ?s"
    by simp_all
  from xy obtain us where "reqMethod r = ?s @ us \<or> reqMethod r @ us = ?s \<and> CHR 0x0A # x = us @ y"
    unfolding append_eq_append_conv2 by blast
  then show False
  proof
    assume "reqMethod r = ?s @ us"
    then show False
      using request_lines(2) [OF assms] z by (metis UnCI set_append)
  next
    assume u: "reqMethod r @ us = ?s \<and> CHR 0x0A # x = us @ y"
    have "us = []"
    proof (cases us)
      case (Cons a us')
      have "CHR 0x0A # x = us @ y"
        using u by blast
      then have "a = CHR 0x0A"
        using Cons by simp
      then have "CHR 0x0A \<in> set (reqMethod r @ us)"
        using Cons by (simp only: set_append list.set Un_iff insert_iff simp_thms)
      moreover have m: "reqMethod r @ us = ?s"
        using u by blast
      ultimately have "CHR 0x0A \<in> set ?s"
        by (simp only: m)
      with nl show ?thesis
        by (rule notE)
    qed
    then show False
      using u request_lines(2) [OF assms] z by simp
  qed
qed

lemma same_request_preimage:
  assumes "request_ok p r" "request_ok p r'" "same_request r r'"
  shows "fingerprint_preimage r = fingerprint_preimage r'"
proof -
  have keys: "sort_strings (gokeys (reqHeaders r)) = sort_strings (gokeys (reqHeaders r'))"
    using assms by (intro same_keys_sorted) (auto simp: request_ok_def same_request_def)
  have l: "lookup_or [] (reqHeaders r) = lookup_or [] (reqHeaders r')"
    using assms(3) by (auto simp: same_request_def lookup_or_def)
  then have "header_lines (reqHeaders r) ns = header_lines (reqHeaders r') ns"
    "header_fields (reqHeaders r) ns = header_fields (reqHeaders r') ns" for ns
    by (induction ns) simp_all
  then show ?thesis
    using assms(3) keys
    by (simp add: same_request_def fingerprint_preimage_def json_preimage_def binary_preimage_def)
qed

lemma fingerprint_preimage_inject:
  assumes "request_ok p r" "request_ok p r'" "rejects_control p"
  shows "fingerprint_preimage r = fingerprint_preimage r' \<longleftrightarrow> same_request r r'"
proof
  assume eq: "fingerprint_preimage r = fingerprint_preimage r'"
  show "same_request r r'"
    using eq assms json_preimage_inject [OF assms] binary_preimage_inject [of r r']
      preimages_apart [OF assms(1), of r'] preimages_apart [OF assms(2), of r]
    by (auto simp: fingerprint_preimage_def json_body_def split: if_splits)
qed (use assms same_request_preimage in blast)

end
