(* ===== verification/Rfc3339.thy ===== *)
theory Rfc3339
  imports GoText
begin

section \<open>Instants and their RFC 3339 text\<close>

text \<open>
  \<open>time.Time\<close> is an integer: nanoseconds since 0001-01-01T00:00:00 UTC, so that the
  zero time (\<open>IsZero\<close>) is 0. The code calls \<open>UTC()\<close> on every instant it stores, and
  \<open>Time.MarshalJSON\<close> writes it as RFC 3339 with the fraction's trailing zeros removed; it
  fails for a year outside 0 to 9999. Reading accepts a zone offset as well
  (\<open>parseRFC3339\<close> of package \<open>time\<close>). \<open>parse_format\<close> is the round trip.
\<close>

subsection \<open>The calendar\<close>

definition is_leap :: "int \<Rightarrow> bool" where
  "is_leap y \<longleftrightarrow> y mod 4 = 0 \<and> (y mod 100 \<noteq> 0 \<or> y mod 400 = 0)"

definition days_before_year :: "int \<Rightarrow> int" where
  "days_before_year y = 365 * (y - 1) + (y - 1) div 4 - (y - 1) div 100 + (y - 1) div 400"

definition year_of :: "int \<Rightarrow> int" where
  "year_of n =
     (let g = 400 * n div 146097 + 1 in if days_before_year (g + 1) \<le> n then g + 1 else g)"

definition month_lengths :: "bool \<Rightarrow> int list" where
  "month_lengths leap = [31, if leap then 29 else 28, 31, 30, 31, 30, 31, 31, 30, 31, 30, 31]"

fun pick_month :: "nat \<Rightarrow> int \<Rightarrow> int list \<Rightarrow> nat \<times> nat" where
  "pick_month m d [] = (m, nat d)"
| "pick_month m d (l # ls) = (if d < l then (m, nat d + 1) else pick_month (m + 1) (d - l) ls)"

text \<open>The day of a date and the date of a day; day 0 is 0001-01-01.\<close>

definition day_number :: "int \<Rightarrow> nat \<Rightarrow> nat \<Rightarrow> int" where
  "day_number y m d =
     days_before_year y + sum_list (take (m - 1) (month_lengths (is_leap y))) + int d - 1"

definition civil :: "int \<Rightarrow> int \<times> nat \<times> nat" where
  "civil n = (let y = year_of n in (y, pick_month 1 (n - days_before_year y) (month_lengths (is_leap y))))"

lemma div_bounds: "k * (x div k) \<le> x" "x < k * (x div k) + k" if "0 < k" for x k :: int
  using that pos_mod_sign [of k x] pos_mod_bound [of k x] mult_div_mod_eq [of k x] by linarith+

lemma div_pred: "(y - 1) div k = y div k - (if y mod k = 0 then 1 else 0)" if "0 < k" for y k :: int
proof (cases "y mod k = 0")
  case True
  then have "y - 1 = k * (y div k - 1) + (k - 1)"
    using mult_div_mod_eq [of k y] by (simp add: algebra_simps)
  then have "(y - 1) div k = y div k - 1"
    using that by (intro int_div_pos_eq [of _ _ _ "k - 1"]) simp_all
  with True show ?thesis by simp
next
  case False
  then have "0 < y mod k"
    using pos_mod_sign [OF that, of y] by simp
  then have "(y - 1) div k = y div k"
    using that mult_div_mod_eq [of k y] pos_mod_bound [OF that, of y]
    by (intro int_div_pos_eq [of _ _ _ "y mod k - 1"]) simp_all
  with False show ?thesis by simp
qed

lemma days_year: "days_before_year (y + 1) = days_before_year y + (if is_leap y then 366 else 365)"
proof -
  have "y mod 100 = 0" if "y mod 400 = 0"
    using that dvd_trans [of 100 400 y] by (simp add: mod_eq_0_iff_dvd)
  moreover have "y mod 4 = 0" if "y mod 100 = 0"
    using that dvd_trans [of 4 100 y] by (simp add: mod_eq_0_iff_dvd)
  ultimately consider "y mod 4 \<noteq> 0 \<and> y mod 100 \<noteq> 0 \<and> y mod 400 \<noteq> 0"
    | "y mod 4 = 0 \<and> y mod 100 \<noteq> 0 \<and> y mod 400 \<noteq> 0"
    | "y mod 4 = 0 \<and> y mod 100 = 0 \<and> y mod 400 \<noteq> 0"
    | "y mod 4 = 0 \<and> y mod 100 = 0 \<and> y mod 400 = 0"
    by argo
  then show ?thesis
  proof cases
  qed (simp_all only: days_before_year_def is_leap_def add_diff_cancel_right' div_pred [of 4 y, simplified]
      div_pred [of 100 y, simplified] div_pred [of 400 y, simplified] simp_thms if_True if_False, simp_all)
qed

lemma year_bounds: "days_before_year (year_of n) \<le> n" "n < days_before_year (year_of n + 1)"
proof -
  define y where "y = 400 * n div 146097"
  have y: "146097 * y \<le> 400 * n" "400 * n < 146097 * y + 146097"
    unfolding y_def by (rule div_bounds, simp)+
  have d: "days_before_year (x + 1) = 365 * x + x div 4 - x div 100 + x div 400" for x
    by (simp add: days_before_year_def)
  have b: "4 * (x div 4) \<le> x" "x < 4 * (x div 4) + 4" "100 * (x div 100) \<le> x" "x < 100 * (x div 100) + 100"
    "400 * (x div 400) \<le> x" "x < 400 * (x div 400) + 400" for x :: int
    by (rule div_bounds, simp)+
  have lo: "days_before_year (y + 1) \<le> n"
    using y(1) b [of y] unfolding d by linarith
  have lin: "n < 365 * z + p - q + r + 2"
    if "400 * n < 146097 * z" "z < 4 * p + 4" "100 * q \<le> z" "z < 400 * r + 400" for z p q r :: int
    using that by linarith
  have "n < days_before_year (y + 1 + 1) + 2"
    unfolding d using y(2) b [of "y + 1"] by (intro lin) simp_all
  then have "n < days_before_year (y + 1 + 1 + 1)"
    using days_year [of "y + 1 + 1"] by (simp split: if_splits)
  with lo show "days_before_year (year_of n) \<le> n" "n < days_before_year (year_of n + 1)"
    by (auto simp: year_of_def Let_def y_def [symmetric])
qed

lemma sum_month_lengths: "sum_list (month_lengths l) = (if l then 366 else 365)"
  by (simp add: month_lengths_def)

lemma pick_month:
  assumes "pick_month m d ls = (m', d')" "0 \<le> d" "d < sum_list ls" "\<forall>l \<in> set ls. 0 < l"
  shows "m \<le> m'" "m' < m + length ls" "1 \<le> d'" "int d' \<le> ls ! (m' - m)"
    "sum_list (take (m' - m) ls) + int d' - 1 = d"
proof -
  have "m \<le> m' \<and> m' < m + length ls \<and> 1 \<le> d' \<and> int d' \<le> ls ! (m' - m) \<and>
      sum_list (take (m' - m) ls) + int d' - 1 = d"
    using assms
  proof (induction m d ls rule: pick_month.induct)
    case (2 m d l ls)
    show ?case
    proof (cases "d < l")
      case False
      with 2 have "m + 1 \<le> m'" "m' < m + 1 + length ls" "1 \<le> d'" "int d' \<le> ls ! (m' - (m + 1))"
        "sum_list (take (m' - (m + 1)) ls) + int d' - 1 = d - l"
        by simp_all
      moreover from this(1) have "m' - m = Suc (m' - (m + 1))"
        by simp
      ultimately show ?thesis
        by simp
    qed (use 2 in auto)
  qed simp
  then show "m \<le> m'" "m' < m + length ls" "1 \<le> d'" "int d' \<le> ls ! (m' - m)"
    "sum_list (take (m' - m) ls) + int d' - 1 = d"
    by simp_all
qed

lemma civil_day:
  assumes "civil n = (y, m, d)"
  shows "day_number y m d = n" "1 \<le> m" "m \<le> 12" "1 \<le> d" "int d \<le> month_lengths (is_leap y) ! (m - 1)"
proof -
  have y: "y = year_of n" "pick_month 1 (n - days_before_year y) (month_lengths (is_leap y)) = (m, d)"
    using assms by (auto simp: civil_def Let_def)
  have "0 \<le> n - days_before_year y" "n - days_before_year y < sum_list (month_lengths (is_leap y))"
    using year_bounds [of n] days_year [of y] y(1) by (auto simp: sum_month_lengths)
  moreover have "\<forall>l \<in> set (month_lengths (is_leap y)). 0 < l"
    by (auto simp: month_lengths_def)
  ultimately have p: "1 \<le> m" "m < 1 + length (month_lengths (is_leap y))" "1 \<le> d"
    "int d \<le> month_lengths (is_leap y) ! (m - 1)"
    "sum_list (take (m - 1) (month_lengths (is_leap y))) + int d - 1 = n - days_before_year y"
    using pick_month [OF y(2)] by blast+
  then show "day_number y m d = n" "1 \<le> m" "1 \<le> d" "int d \<le> month_lengths (is_leap y) ! (m - 1)"
    by (simp_all add: day_number_def)
  show "m \<le> 12"
    using p(2) by (simp add: month_lengths_def)
qed

subsection \<open>Digits\<close>

text \<open>A number in a field of fixed width, and \<open>parseUint\<close> with its bounds.\<close>

fun fixed :: "nat \<Rightarrow> nat \<Rightarrow> bytes" where
  "fixed 0 n = []"
| "fixed (Suc w) n = fixed w (n div 10) @ [digit_char (n mod 10)]"

definition parse_uint :: "bytes \<Rightarrow> nat \<Rightarrow> nat \<Rightarrow> nat option" where
  "parse_uint s lo hi =
     (if list_all is_digit s \<and> lo \<le> read_nat s \<and> read_nat s \<le> hi then Some (read_nat s) else None)"

lemma length_fixed [simp]: "length (fixed w n) = w"
  by (induction w arbitrary: n) auto

lemma fixed_digits: "list_all is_digit (fixed w n)"
  by (induction w arbitrary: n) (auto simp: digit_char_simps)

lemma read_nat_snoc: "read_nat (s @ [c]) = 10 * read_nat s + (bval c - 48)"
  by (simp add: read_nat_def)

lemma read_fixed: "n < 10 ^ w \<Longrightarrow> read_nat (fixed w n) = n"
proof (induction w arbitrary: n)
  case 0
  then show ?case by (simp add: read_nat_def)
next
  case (Suc w)
  then have "read_nat (fixed w (n div 10)) = n div 10"
    by (intro Suc.IH) auto
  then show ?case
    by (simp add: read_nat_snoc digit_char_simps)
qed

lemma parse_uint_fixed: "lo \<le> n \<Longrightarrow> n \<le> hi \<Longrightarrow> n < 10 ^ w \<Longrightarrow> parse_uint (fixed w n) lo hi = Some n"
  by (simp add: parse_uint_def fixed_digits read_fixed)

subsection \<open>Fractions of a second\<close>

text \<open>Nine digits without the zeros at the end; none at all for a whole second.\<close>

definition strip_zeros :: "bytes \<Rightarrow> bytes" where
  "strip_zeros s = rev (dropWhile (\<lambda>c. c = CHR ''0'') (rev s))"

definition format_frac :: "nat \<Rightarrow> bytes" where
  "format_frac n = (if n = 0 then [] else CHR ''.'' # strip_zeros (fixed 9 n))"

text \<open>What follows the seconds: the nanoseconds and the rest of the text.\<close>

definition parse_frac :: "bytes \<Rightarrow> nat \<times> bytes" where
  "parse_frac s =
     (case s of
        c # d # t \<Rightarrow>
          if c = CHR ''.'' \<and> is_digit d then
            (let ds = takeWhile is_digit (d # t); k = take 9 ds
             in (read_nat k * 10 ^ (9 - length k), dropWhile is_digit (d # t)))
          else (0, s)
      | _ \<Rightarrow> (0, s))"

lemma read_nat_zeros: "read_nat (s @ replicate k (CHR ''0'')) = read_nat s * 10 ^ k"
  by (induction k) (simp_all add: read_nat_snoc replicate_append_same [symmetric] flip: append_assoc)

lemma strip_zeros: "\<exists>k. s = strip_zeros s @ replicate k (CHR ''0'')"
proof (induction s rule: rev_induct)
  case (snoc c s)
  then obtain k where k: "s = strip_zeros s @ replicate k (CHR ''0'')"
    by blast
  show ?case
  proof (cases "c = CHR ''0''")
    case True
    then have "strip_zeros (s @ [c]) = strip_zeros s"
      by (simp add: strip_zeros_def)
    moreover have "s @ [c] = (strip_zeros s @ replicate k (CHR ''0'')) @ [c]"
      using k by simp
    ultimately have "s @ [c] = strip_zeros (s @ [c]) @ replicate (Suc k) (CHR ''0'')"
      using True by (simp add: replicate_append_same)
    then show ?thesis by blast
  next
    case False
    then have "s @ [c] = strip_zeros (s @ [c]) @ replicate 0 (CHR ''0'')"
      by (simp add: strip_zeros_def)
    then show ?thesis by blast
  qed
qed (simp add: strip_zeros_def)

lemma parse_format_frac:
  assumes "n < 10 ^ 9" "t \<noteq> [] \<Longrightarrow> \<not> is_digit (hd t) \<and> hd t \<noteq> CHR ''.''"
  shows "parse_frac (format_frac n @ t) = (n, t)"
proof (cases "n = 0")
  case True
  with assms(2) show ?thesis
    by (auto simp: format_frac_def parse_frac_def split: list.splits)
next
  case False
  define s where "s = strip_zeros (fixed 9 n)"
  obtain k where k: "fixed 9 n = s @ replicate k (CHR ''0'')"
    using strip_zeros s_def by blast
  then have len: "length s + k = 9"
    by (metis length_append length_fixed length_replicate)
  have n: "n = read_nat s * 10 ^ k"
    using read_fixed [of n 9] assms(1) k by (simp add: read_nat_zeros)
  with False have "s \<noteq> []"
    by (auto simp: read_nat_def)
  have dig: "list_all is_digit s"
    using fixed_digits [of 9 n] unfolding k by simp
  then obtain d u where s: "s = d # u" "is_digit d"
    using \<open>s \<noteq> []\<close> by (cases s) auto
  have "takeWhile is_digit (s @ t) = s" "dropWhile is_digit (s @ t) = t"
    using dig assms(2) by (cases t; simp add: takeWhile_append dropWhile_append list_all_iff)+
  moreover have "take 9 s = s" "9 - length s = k"
    using len by simp_all
  moreover have "format_frac n = CHR ''.'' # s"
    using False by (simp add: format_frac_def s_def)
  ultimately show ?thesis
    using s n [symmetric] by (simp add: parse_frac_def Let_def)
qed

subsection \<open>The text of an instant\<close>

definition nanos_per_sec :: int where
  "nanos_per_sec = 1000000000"

text \<open>\<open>appendStrictRFC3339\<close>: fails when the year does not have four digits.\<close>

definition format_time :: "int \<Rightarrow> bytes option" where
  "format_time t =
     (let secs = t div nanos_per_sec; day = secs div 86400; sod = nat (secs mod 86400)
      in case civil day of (y, m, d) \<Rightarrow>
        if 0 \<le> y \<and> y \<le> 9999 then
          Some (fixed 4 (nat y) @ CHR ''-'' # fixed 2 m @ CHR ''-'' # fixed 2 d @ CHR ''T'' #
            fixed 2 (sod div 3600) @ CHR '':'' # fixed 2 (sod div 60 mod 60) @ CHR '':'' # fixed 2 (sod mod 60) @
            format_frac (nat (t mod nanos_per_sec)) @ ''Z'')
        else None)"

text \<open>The zone: \<open>Z\<close>, or a sign, hours and minutes; the offset in seconds.\<close>

definition parse_zone :: "bytes \<Rightarrow> int option" where
  "parse_zone s =
     (if s = ''Z'' then Some 0
      else if length s = 6 \<and> (s ! 0 = CHR ''-'' \<or> s ! 0 = CHR ''+'') \<and> s ! 3 = CHR '':'' then
        (case (parse_uint (take 2 (drop 1 s)) 0 23, parse_uint (take 2 (drop 4 s)) 0 59) of
           (Some hh, Some mm) \<Rightarrow>
             Some ((if s ! 0 = CHR ''-'' then - 1 else 1) * (int hh * 60 + int mm) * 60)
         | _ \<Rightarrow> None)
      else None)"

definition parse_clock :: "bytes \<Rightarrow> nat option" where
  "parse_clock s =
     (case (parse_uint (take 2 s) 0 23, parse_uint (take 2 (drop 3 s)) 0 59, parse_uint (take 2 (drop 6 s)) 0 59) of
        (Some h, Some m, Some sec) \<Rightarrow> Some ((h * 60 + m) * 60 + sec)
      | _ \<Rightarrow> None)"

definition parse_date :: "bytes \<Rightarrow> int option" where
  "parse_date s =
     (case (parse_uint (take 4 s) 0 9999, parse_uint (take 2 (drop 5 s)) 1 12) of
        (Some y, Some m) \<Rightarrow>
          (case parse_uint (take 2 (drop 8 s)) 1 (nat (month_lengths (is_leap (int y)) ! (m - 1))) of
             Some d \<Rightarrow> Some (day_number (int y) m d)
           | None \<Rightarrow> None)
      | _ \<Rightarrow> None)"

definition parse_time :: "bytes \<Rightarrow> int option" where
  "parse_time s =
     (if 19 \<le> length s \<and> s ! 4 = CHR ''-'' \<and> s ! 7 = CHR ''-'' \<and> s ! 10 = CHR ''T'' \<and>
         s ! 13 = CHR '':'' \<and> s ! 16 = CHR '':'' then
        (case (parse_date (take 10 s), parse_clock (take 8 (drop 11 s)), parse_frac (drop 19 s)) of
           (Some day, Some sod, ns, z) \<Rightarrow>
             (case parse_zone z of
                Some off \<Rightarrow> Some ((day * 86400 + int sod - off) * nanos_per_sec + int ns)
              | None \<Rightarrow> None)
         | _ \<Rightarrow> None)
      else None)"

text \<open>What is written reads back.\<close>

lemma month_days: "1 \<le> m \<Longrightarrow> m \<le> 12 \<Longrightarrow> month_lengths l ! (m - 1) \<le> 31"
proof -
  assume "1 \<le> m" "m \<le> 12"
  then have "month_lengths l ! (m - 1) \<in> set (month_lengths l)"
    by (intro nth_mem) (simp add: month_lengths_def)
  then show ?thesis
    by (auto simp: month_lengths_def)
qed

lemma parse_format_date:
  assumes "civil n = (y, m, d)" "0 \<le> y" "y \<le> 9999"
  shows "parse_date (fixed 4 (nat y) @ CHR ''-'' # fixed 2 m @ CHR ''-'' # fixed 2 d) = Some n"
proof -
  note c = civil_day [OF assms(1)]
  let ?hi = "nat (month_lengths (is_leap y) ! (m - 1))"
  have "int d \<le> 31"
    using c(5) month_days [OF c(2,3), of "is_leap y"] by linarith
  then have "parse_uint (fixed 2 d) 1 ?hi = Some d"
    using c by (intro parse_uint_fixed) auto
  moreover have "parse_uint (fixed 2 m) 1 12 = Some m" "parse_uint (fixed 4 (nat y)) 0 9999 = Some (nat y)"
    using c assms by (auto intro!: parse_uint_fixed)
  ultimately show ?thesis
    using c(1) assms by (simp add: parse_date_def)
qed

lemma parse_format_clock:
  assumes "sod < 86400"
  shows "parse_clock (fixed 2 (sod div 3600) @ CHR '':'' # fixed 2 (sod div 60 mod 60) @ CHR '':'' #
      fixed 2 (sod mod 60)) = Some sod"
proof -
  have "sod div 3600 \<le> 23" "sod div 60 mod 60 \<le> 59" "sod mod 60 \<le> 59"
    using assms by auto
  moreover have "parse_uint (fixed 2 n) 0 hi = Some n" if "n \<le> hi" "hi \<le> 99" for n hi
    using that by (intro parse_uint_fixed) auto
  moreover have "(sod div 3600 * 60 + sod div 60 mod 60) * 60 + sod mod 60 = sod"
  proof -
    have "sod div 3600 = sod div 60 div 60"
      by (simp add: div_mult2_eq [symmetric])
    then show ?thesis
      by simp
  qed
  ultimately show ?thesis
    by (simp add: parse_clock_def)
qed

lemma parse_time_parts:
  assumes "length dt = 10" "dt ! 4 = CHR ''-''" "dt ! 7 = CHR ''-''" "length cl = 8" "cl ! 2 = CHR '':''" "cl ! 5 = CHR '':''"
    "parse_date dt = Some day" "parse_clock cl = Some sod" "parse_frac z = (ns, ''Z'')"
  shows "parse_time (dt @ CHR ''T'' # cl @ z) = Some ((day * 86400 + int sod) * nanos_per_sec + int ns)"
  using assms by (simp add: parse_time_def nth_append nth_Cons' parse_zone_def)

lemma parse_format_time:
  assumes "format_time t = Some s"
  shows "parse_time s = Some t"
proof -
  define secs where "secs = t div nanos_per_sec"
  define sod where "sod = nat (secs mod 86400)"
  define ns where "ns = nat (t mod nanos_per_sec)"
  obtain y m d where c: "civil (secs div 86400) = (y, m, d)"
    by (cases "civil (secs div 86400)")
  let ?dt = "fixed 4 (nat y) @ CHR ''-'' # fixed 2 m @ CHR ''-'' # fixed 2 d"
  let ?cl = "fixed 2 (sod div 3600) @ CHR '':'' # fixed 2 (sod div 60 mod 60) @ CHR '':'' # fixed 2 (sod mod 60)"
  have y: "0 \<le> y" "y \<le> 9999" and s: "s = ?dt @ CHR ''T'' # ?cl @ (format_frac ns @ ''Z'')"
    using assms c by (auto simp: format_time_def Let_def secs_def sod_def ns_def split: if_splits)
  have "0 \<le> secs mod 86400" "secs mod 86400 < 86400"
    by simp_all
  then have sod: "sod < 86400" "int sod = secs mod 86400"
    by (simp_all add: sod_def)
  have "0 \<le> t mod nanos_per_sec" "t mod nanos_per_sec < nanos_per_sec"
    by (simp_all add: nanos_per_sec_def)
  then have ns: "ns < 10 ^ 9" "int ns = t mod nanos_per_sec"
    by (simp_all add: ns_def nanos_per_sec_def)
  have "parse_frac (format_frac ns @ ''Z'') = (ns, ''Z'')"
    using ns(1) by (intro parse_format_frac) (auto simp: is_digit_def)
  then have "parse_time s = Some ((secs div 86400 * 86400 + int sod) * nanos_per_sec + int ns)"
    unfolding s using y
    by (intro parse_time_parts parse_format_date [OF c] parse_format_clock sod(1)) (simp_all add: nth_append nth_Cons')
  then show ?thesis
    by (simp add: sod(2) ns(2) secs_def)
qed

text \<open>Which instants have a text: those of the years 0 to 9999.\<close>

lemma format_time_defined:
  "format_time t \<noteq> None \<longleftrightarrow> days_before_year 0 \<le> t div nanos_per_sec div 86400 \<and>
     t div nanos_per_sec div 86400 < days_before_year 10000"
proof -
  let ?n = "t div nanos_per_sec div 86400"
  have mono: "days_before_year x \<le> days_before_year y" if "x \<le> y" for x y
    using that
  proof (induction rule: int_ge_induct)
    case (step z)
    with days_year [of z] show ?case by (simp split: if_splits)
  qed simp
  have "0 \<le> year_of ?n \<longleftrightarrow> days_before_year 0 \<le> ?n"
    using mono [of 0 "year_of ?n"] mono [of "year_of ?n + 1" 0] year_bounds [of ?n] by linarith
  moreover have "year_of ?n \<le> 9999 \<longleftrightarrow> ?n < days_before_year 10000"
    using mono [of "year_of ?n + 1" 10000] mono [of 10000 "year_of ?n"] year_bounds [of ?n] by linarith
  ultimately show ?thesis
    by (auto simp: format_time_def civil_def Let_def split: prod.splits)
qed

text \<open>The texts are plain: no quote, backslash or control character.\<close>

lemma format_time_chars:
  assumes "format_time t = Some s" "c \<in> set s"
  shows "is_digit c \<or> c \<in> set ''-:.TZ''"
proof -
  have f: "is_digit c" if "c \<in> set (fixed w n)" for w n
    using that fixed_digits [of w n] by (simp add: list_all_iff)
  have "set (strip_zeros u) \<subseteq> set u" for u
    using set_dropWhileD by (fastforce simp: strip_zeros_def)
  then have g: "is_digit c \<or> c = CHR ''.''" if "c \<in> set (format_frac n)" for n
    using that f by (fastforce simp: format_frac_def split: if_splits)
  show ?thesis
    using assms by (auto simp: format_time_def Let_def split: prod.splits if_splits dest: f g)
qed

end
