(* ===== verification/JournalCodec.thy ===== *)
theory JournalCodec
  imports Delivery Rfc3339
begin

section \<open>The JSON of deliveries and of journal records\<close>

text \<open>
  \<open>Delivery.MarshalJSON\<close>, \<open>Delivery.UnmarshalJSON\<close> (\<open>internal/delivery\<close>) and the journal's
  \<open>marshalRecord\<close>, \<open>writeDeleteRecord\<close> and the \<open>json.Unmarshal\<close> of a line
  (\<open>internal/store\<close>), on bytes. Members are written in the order of the Go struct fields (the
  embedded struct first, without the fields the outer struct replaces); reading matches
  names up to case, ignores unknown ones, lets a later member win, and treats \<open>null\<close> the
  way \<open>encoding/json\<close> does for each type.

  What reads back is not always what was written: \<open>restored\<close> is what does.
\<close>

subsection \<open>Writing\<close>

definition time_text :: "int \<Rightarrow> bytes option" where
  "time_text t = map_option (\<lambda>s. CHR 0x22 # s @ [CHR 0x22]) (format_time t)"

text \<open>A map is written with its keys sorted.\<close>

definition headers_text :: "(bytes, bytes) gomap \<Rightarrow> bytes" where
  "headers_text hs = object_of (List.map (\<lambda>n. (n, json_string (lookup_or [] hs n))) (sort_strings (gokeys hs)))"

definition omit_empty :: "bytes \<Rightarrow> bytes \<Rightarrow> (bytes \<times> bytes) list" where
  "omit_empty name s = (if s = [] then [] else [(name, json_string s)])"

definition body_members :: "bytes \<Rightarrow> (bytes \<times> bytes) list" where
  "body_members b =
     (if 0 < length b then
        if json_valid b then [(''body'', compact_from Out b)]
        else [(''bodyBase64'', json_string (b64_encode b))]
      else [])"

definition time_member :: "bytes \<Rightarrow> int \<Rightarrow> (bytes \<times> bytes) list option" where
  "time_member name t = map_option (\<lambda>s. [(name, s)]) (time_text t)"

definition optional_time :: "bytes \<Rightarrow> int \<Rightarrow> (bytes \<times> bytes) list option" where
  "optional_time name t = (if t = zero_time then Some [] else time_member name t)"

definition plain_members :: "Delivery \<Rightarrow> (bytes \<times> bytes) list" where
  "plain_members d =
     [(''id'', json_string (ID d))] @ omit_empty ''idempotencyKey'' (IdempotencyKey d) @
     [(''targetUrl'', json_string (TargetURL d)), (''method'', json_string (Method d))] @
     (if length (Headers d) = 0 then [] else [(''headers'', headers_text (Headers d))]) @
     [(''status'', json_string (Status d)), (''attempts'', show_int (Attempts d)),
      (''maxAttempts'', show_int (MaxAttempts d))] @ omit_empty ''lastError'' (LastError d) @
     (if LastResponseCode d = 0 then [] else [(''lastResponseCode'', show_int (LastResponseCode d))])"

definition delivery_members :: "Delivery \<Rightarrow> (bytes \<times> bytes) list option" where
  "delivery_members d =
     (case (time_member ''createdAt'' (CreatedAt d), time_member ''updatedAt'' (UpdatedAt d),
            optional_time ''nextAttemptAt'' (NextAttemptAt d), optional_time ''leaseUntil'' (LeaseUntil d)) of
        (Some c, Some u, Some n, Some l) \<Rightarrow> Some (plain_members d @ c @ u @ n @ l @ body_members (Body d))
      | _ \<Rightarrow> None)"

definition MarshalJSON :: "Delivery \<Rightarrow> bytes option" where
  "MarshalJSON d = map_option object_of (delivery_members d)"

definition currentJournalVersion :: int where
  "currentJournalVersion = 2"

record journalRecord =
  Version :: int
  recDelivery :: "Delivery option"
  RequestHash :: bytes
  DeletedID :: bytes

text \<open>
  \<open>json.Marshal\<close> compacts what \<open>MarshalJSON\<close> returns, which fails if it nests too deep;
  nothing looks at the depth of the record around it.
\<close>

definition marshalRecord :: "Delivery \<Rightarrow> bytes \<Rightarrow> bytes option" where
  "marshalRecord item requestHash =
     (case Option.bind (MarshalJSON item) json_compact of
        None \<Rightarrow> None
      | Some t \<Rightarrow>
          Some (object_of ([(''version'', show_int currentJournalVersion), (''delivery'', t)] @
            omit_empty ''requestHash'' requestHash) @ [CHR 0x0A]))"

definition deleteRecord :: "bytes \<Rightarrow> bytes" where
  "deleteRecord i =
     object_of ([(''version'', show_int currentJournalVersion)] @ omit_empty ''deletedId'' i) @ [CHR 0x0A]"

subsection \<open>Reading\<close>

text \<open>
  Names are compared up to simple case folding. Beyond ASCII two characters fold to
  letters of the names: long s (bytes C5 BF) and the Kelvin sign (bytes E2 84 AA).
\<close>

function fold_name :: "bytes \<Rightarrow> bytes" where
  "fold_name [] = []"
| "fold_name (c # cs) =
     (if c = CHR 0xC5 \<and> take 1 cs = [CHR 0xBF] then CHR ''S'' # fold_name (drop 1 cs)
      else if c = CHR 0xE2 \<and> take 2 cs = [CHR 0x84, CHR 0xAA] then CHR ''K'' # fold_name (drop 2 cs)
      else upper_char c # fold_name cs)"
  by pat_completeness auto
termination
  by (relation "measure length") auto

definition null_text :: bytes where
  "null_text = ''null''"

definition read_string :: "bytes \<Rightarrow> bytes \<Rightarrow> bytes option" where
  "read_string old v = (if v = null_text then Some old else json_unquote v)"

text \<open>\<open>strconv.ParseInt\<close> in base 10 for an \<open>int64\<close>.\<close>

definition parse_int64 :: "bytes \<Rightarrow> int option" where
  "parse_int64 s =
     (let ds = (if s \<noteq> [] \<and> hd s = CHR ''-'' then tl s else s)
      in if ds \<noteq> [] \<and> list_all is_digit ds \<and> - (2 ^ 63) \<le> read_int s \<and> read_int s < 2 ^ 63
         then Some (read_int s) else None)"

definition json_int :: "int \<Rightarrow> bytes \<Rightarrow> int option" where
  "json_int old v = (if v = null_text then Some old else parse_int64 v)"

definition read_time :: "int \<Rightarrow> bytes \<Rightarrow> int option" where
  "read_time old v =
     (if v = null_text then Some old
      else if 2 \<le> length v \<and> hd v = CHR 0x22 \<and> last v = CHR 0x22 then parse_time (butlast (tl v))
      else None)"

fun read_map :: "(bytes, bytes) gomap \<Rightarrow> (bytes \<times> bytes) list \<Rightarrow> (bytes, bytes) gomap option" where
  "read_map m [] = Some m"
| "read_map m ((k, v) # ms) =
     (case read_string [] v of None \<Rightarrow> None | Some s \<Rightarrow> read_map (AList.update k s m) ms)"

definition read_headers :: "(bytes, bytes) gomap \<Rightarrow> bytes \<Rightarrow> (bytes, bytes) gomap option" where
  "read_headers old v =
     (if v = null_text then Some [] else Option.bind (object_members v) (read_map old))"

text \<open>The struct the decoder fills: the delivery, the raw body and the base64 body.\<close>

type_synonym decoding = "Delivery \<times> bytes \<times> bytes option"

definition zero_delivery :: Delivery where
  "zero_delivery =
     \<lparr>ID = [], IdempotencyKey = [], TargetURL = [], Method = [], Headers = [], Body = [], Status = [],
      Attempts = 0, MaxAttempts = 0, NextAttemptAt = zero_time, LeaseUntil = zero_time, LastError = [],
      LastResponseCode = 0, CreatedAt = zero_time, UpdatedAt = zero_time\<rparr>"

definition named :: "bytes \<Rightarrow> bytes \<Rightarrow> bool" where
  "named field k \<longleftrightarrow> fold_name k = fold_name field"

definition delivery_field :: "bytes \<times> bytes \<Rightarrow> decoding \<Rightarrow> decoding option" where
  "delivery_field m s =
     (case m of (k, v) \<Rightarrow> case s of (d, raw, b64) \<Rightarrow>
        if named ''id'' k then map_option (\<lambda>x. (d\<lparr>ID := x\<rparr>, raw, b64)) (read_string (ID d) v)
        else if named ''idempotencyKey'' k then
          map_option (\<lambda>x. (d\<lparr>IdempotencyKey := x\<rparr>, raw, b64)) (read_string (IdempotencyKey d) v)
        else if named ''targetUrl'' k then
          map_option (\<lambda>x. (d\<lparr>TargetURL := x\<rparr>, raw, b64)) (read_string (TargetURL d) v)
        else if named ''method'' k then map_option (\<lambda>x. (d\<lparr>Method := x\<rparr>, raw, b64)) (read_string (Method d) v)
        else if named ''headers'' k then
          map_option (\<lambda>x. (d\<lparr>Headers := x\<rparr>, raw, b64)) (read_headers (Headers d) v)
        else if named ''status'' k then map_option (\<lambda>x. (d\<lparr>Status := x\<rparr>, raw, b64)) (read_string (Status d) v)
        else if named ''attempts'' k then map_option (\<lambda>x. (d\<lparr>Attempts := x\<rparr>, raw, b64)) (json_int (Attempts d) v)
        else if named ''maxAttempts'' k then
          map_option (\<lambda>x. (d\<lparr>MaxAttempts := x\<rparr>, raw, b64)) (json_int (MaxAttempts d) v)
        else if named ''nextAttemptAt'' k then
          map_option (\<lambda>x. (d\<lparr>NextAttemptAt := x\<rparr>, raw, b64)) (read_time (NextAttemptAt d) v)
        else if named ''leaseUntil'' k then
          map_option (\<lambda>x. (d\<lparr>LeaseUntil := x\<rparr>, raw, b64)) (read_time (LeaseUntil d) v)
        else if named ''lastError'' k then
          map_option (\<lambda>x. (d\<lparr>LastError := x\<rparr>, raw, b64)) (read_string (LastError d) v)
        else if named ''lastResponseCode'' k then
          map_option (\<lambda>x. (d\<lparr>LastResponseCode := x\<rparr>, raw, b64)) (json_int (LastResponseCode d) v)
        else if named ''createdAt'' k then
          map_option (\<lambda>x. (d\<lparr>CreatedAt := x\<rparr>, raw, b64)) (read_time (CreatedAt d) v)
        else if named ''updatedAt'' k then
          map_option (\<lambda>x. (d\<lparr>UpdatedAt := x\<rparr>, raw, b64)) (read_time (UpdatedAt d) v)
        else if named ''body'' k then Some (d, v, b64)
        else if named ''bodyBase64'' k then
          (if v = null_text then Some (d, raw, None) else map_option (\<lambda>x. (d, raw, Some x)) (json_unquote v))
        else Some s)"

fun read_fields :: "('m \<Rightarrow> 's \<Rightarrow> 's option) \<Rightarrow> 'm list \<Rightarrow> 's \<Rightarrow> 's option" where
  "read_fields f [] s = Some s"
| "read_fields f (m # ms) s = Option.bind (f m s) (read_fields f ms)"

definition finish_delivery :: "decoding \<Rightarrow> Delivery option" where
  "finish_delivery s =
     (case s of (d, raw, b64) \<Rightarrow>
        if 0 < length raw \<and> b64 \<noteq> None then None
        else case b64 of
          None \<Rightarrow> Some (d\<lparr>Body := raw\<rparr>)
        | Some t \<Rightarrow> map_option (\<lambda>b. d\<lparr>Body := b\<rparr>) (b64_decode t))"

definition read_struct :: "(bytes \<times> bytes \<Rightarrow> 's \<Rightarrow> 's option) \<Rightarrow> 's \<Rightarrow> bytes \<Rightarrow> 's option" where
  "read_struct f zero data =
     (if \<not> json_valid data then None
      else if js_trim data = null_text then Some zero
      else Option.bind (object_members data) (\<lambda>ms. read_fields f ms zero))"

definition UnmarshalJSON :: "bytes \<Rightarrow> Delivery option" where
  "UnmarshalJSON data = Option.bind (read_struct delivery_field (zero_delivery, [], None) data) finish_delivery"

definition zero_record :: journalRecord where
  "zero_record = \<lparr>Version = 0, recDelivery = None, RequestHash = [], DeletedID = []\<rparr>"

definition record_field :: "bytes \<times> bytes \<Rightarrow> journalRecord \<Rightarrow> journalRecord option" where
  "record_field m r =
     (case m of (k, v) \<Rightarrow>
        if named ''version'' k then map_option (\<lambda>x. r\<lparr>Version := x\<rparr>) (json_int (Version r) v)
        else if named ''delivery'' k then
          (if v = null_text then Some (r\<lparr>recDelivery := None\<rparr>)
           else map_option (\<lambda>d. r\<lparr>recDelivery := Some d\<rparr>) (UnmarshalJSON v))
        else if named ''requestHash'' k then
          map_option (\<lambda>x. r\<lparr>RequestHash := x\<rparr>) (read_string (RequestHash r) v)
        else if named ''deletedId'' k then map_option (\<lambda>x. r\<lparr>DeletedID := x\<rparr>) (read_string (DeletedID r) v)
        else Some r)"

definition unmarshalRecord :: "bytes \<Rightarrow> journalRecord option" where
  "unmarshalRecord data = read_struct record_field zero_record data"

subsection \<open>What reads back\<close>

definition restored_headers :: "(bytes, bytes) gomap \<Rightarrow> (bytes, bytes) gomap" where
  "restored_headers hs = List.map (\<lambda>n. (n, valid_utf8 (lookup_or [] hs n))) (sort_strings (gokeys hs))"

definition restored_body :: "bytes \<Rightarrow> bytes" where
  "restored_body b = (if json_valid b then compact_from Out b else b)"

definition restored :: "Delivery \<Rightarrow> Delivery" where
  "restored d = d\<lparr>ID := valid_utf8 (ID d), IdempotencyKey := valid_utf8 (IdempotencyKey d),
     TargetURL := valid_utf8 (TargetURL d), Method := valid_utf8 (Method d),
     Headers := restored_headers (Headers d), Body := restored_body (Body d),
     Status := valid_utf8 (Status d), LastError := valid_utf8 (LastError d)\<rparr>"

text \<open>
  The deliveries the journal can hold: 64-bit integers, header names in UTF-8, and a body
  that, if it is JSON, leaves room for the two objects around it.
\<close>

definition int64_range :: "int \<Rightarrow> bool" where
  "int64_range i \<longleftrightarrow> - (2 ^ 63) \<le> i \<and> i < 2 ^ 63"

definition encodable :: "Delivery \<Rightarrow> bool" where
  "encodable d \<longleftrightarrow>
     int64_range (Attempts d) \<and> int64_range (MaxAttempts d) \<and> int64_range (LastResponseCode d) \<and>
     gomap_ok (Headers d) \<and> list_all (\<lambda>h. is_utf8 (fst h)) (Headers d) \<and>
     (json_valid (Body d) \<longrightarrow> json_valid_lim 9998 (Body d))"

lemma fold_ascii: "list_all is_ascii s \<Longrightarrow> fold_name s = List.map upper_char s"
  by (induction s) (auto simp: is_ascii_def)

lemma fold_names:
  "fold_name ''id'' = ''ID''" "fold_name ''idempotencyKey'' = ''IDEMPOTENCYKEY''"
  "fold_name ''targetUrl'' = ''TARGETURL''" "fold_name ''method'' = ''METHOD''"
  "fold_name ''headers'' = ''HEADERS''" "fold_name ''status'' = ''STATUS''"
  "fold_name ''attempts'' = ''ATTEMPTS''" "fold_name ''maxAttempts'' = ''MAXATTEMPTS''"
  "fold_name ''nextAttemptAt'' = ''NEXTATTEMPTAT''" "fold_name ''leaseUntil'' = ''LEASEUNTIL''"
  "fold_name ''lastError'' = ''LASTERROR''" "fold_name ''lastResponseCode'' = ''LASTRESPONSECODE''"
  "fold_name ''createdAt'' = ''CREATEDAT''" "fold_name ''updatedAt'' = ''UPDATEDAT''"
  "fold_name ''body'' = ''BODY''" "fold_name ''bodyBase64'' = ''BODYBASE64''"
  "fold_name ''version'' = ''VERSION''" "fold_name ''delivery'' = ''DELIVERY''"
  "fold_name ''requestHash'' = ''REQUESTHASH''" "fold_name ''deletedId'' = ''DELETEDID''"
  by (simp_all add: fold_ascii is_ascii_def upper_char_def is_lower_def char_of_eq_bval)

declare fold_name.simps [simp del]

lemma read_fields_append: "read_fields f (xs @ ys) s = Option.bind (read_fields f xs s) (read_fields f ys)"
  by (induction xs arbitrary: s) (auto split: Option.bind_split)

lemma json_string_not_null: "json_string s \<noteq> null_text" "json_string s \<noteq> []"
  by (simp_all add: json_string_def null_text_def)

lemma read_string_json [simp]: "read_string old (json_string s) = Some (valid_utf8 s)"
  by (simp add: read_string_def json_string_not_null)

lemma show_int_not_null: "show_int i \<noteq> null_text"
proof
  assume "show_int i = null_text"
  then have "CHR ''n'' \<in> set (show_int i)"
    by (simp add: null_text_def)
  then show False
    using show_int_chars [of "CHR ''n''" i] by (auto simp: is_digit_def)
qed

lemma parse_show_int: "int64_range i \<Longrightarrow> parse_int64 (show_int i) = Some i"
proof -
  assume r: "int64_range i"
  have "hd (show_nat n) \<noteq> CHR ''-''" for n
    using hd_show_nat_digit [of n] by (auto simp: is_digit_def)
  then have "(if show_int i \<noteq> [] \<and> hd (show_int i) = CHR ''-'' then tl (show_int i) else show_int i) =
      show_nat (nat \<bar>i\<bar>)"
    by (auto simp: show_int_def)
  then show ?thesis
    using r show_nat_digits [of "nat \<bar>i\<bar>"] by (simp add: parse_int64_def int64_range_def)
qed

lemma json_int_show [simp]: "int64_range i \<Longrightarrow> json_int old (show_int i) = Some i"
  by (simp add: json_int_def show_int_not_null parse_show_int)

lemma time_textE:
  assumes "time_text t = Some s"
  obtains u where "format_time t = Some u" "s = CHR 0x22 # u @ [CHR 0x22]"
  using assms by (auto simp: time_text_def)

lemma read_time_text [simp]: "time_text t = Some s \<Longrightarrow> read_time old s = Some t"
proof (elim time_textE)
  fix u assume u: "format_time t = Some u" "s = CHR 0x22 # u @ [CHR 0x22]"
  then have "s \<noteq> null_text"
    by (simp add: null_text_def)
  with u parse_format_time [OF u(1)] show ?thesis
    by (simp add: read_time_def)
qed

lemma escape_plain:
  assumes "plain_char c" "32 \<le> bval c"
  shows "escape_char c = [c]"
proof -
  have "c \<notin> {CHR 0x08, CHR 0x0C, CHR 0x0A, CHR 0x0D, CHR 0x09}"
    using assms(2) by auto
  then show ?thesis
    using assms by (simp add: escape_char_def plain_char_def)
qed

lemma quote_plain: "\<forall>c \<in> set s. plain_char c \<and> 32 \<le> bval c \<Longrightarrow> quote_from s = s"
proof (induction s)
  case (Cons c s)
  then have "bval c < 128"
    by (simp add: plain_char_def)
  with Cons show ?case
    by (simp add: escape_plain)
qed simp

lemma time_text_string: "time_text t = Some s \<Longrightarrow> \<exists>u. s = json_string u"
proof (elim time_textE)
  fix u assume u: "format_time t = Some u" "s = CHR 0x22 # u @ [CHR 0x22]"
  have "plain_char c \<and> 32 \<le> bval c" if "c \<in> set u" for c
    using format_time_chars [OF u(1) that] by (auto simp: is_digit_def plain_char_def is_html_def is_jspace_def)
  then have "s = json_string u"
    using u(2) quote_plain [of u] by (simp add: json_string_def)
  then show "\<exists>u. s = json_string u" ..
qed

lemma read_map_strings:
  "distinct (List.map fst m @ ns) \<Longrightarrow>
   read_map m (List.map (\<lambda>n. (n, json_string (f n))) ns) = Some (m @ List.map (\<lambda>n. (n, valid_utf8 (f n))) ns)"
proof (induction ns arbitrary: m)
  case (Cons n ns)
  then have "map_of m n = None"
    by (auto simp: map_of_eq_None_iff)
  then show ?case
    using Cons by (simp add: update_new)
qed simp

lemma headers_members:
  assumes "list_all (\<lambda>h. is_utf8 (fst h)) hs"
  shows "object_members (headers_text hs) =
     Some (List.map (\<lambda>n. (n, json_string (lookup_or [] hs n))) (sort_strings (gokeys hs)))"
proof -
  have "\<forall>n \<in> set (gokeys hs). valid_utf8 n = n"
    using assms by (auto simp: list_all_iff gokeys_def is_utf8_def)
  then show ?thesis
    unfolding headers_text_def
    by (subst object_members_object [of _ 0]) (auto simp: member_value_string)
qed

lemma read_headers_text:
  assumes "gomap_ok hs" "list_all (\<lambda>h. is_utf8 (fst h)) hs"
  shows "read_headers [] (headers_text hs) = Some (restored_headers hs)"
proof -
  have "headers_text hs \<noteq> null_text"
    by (simp add: headers_text_def object_of_def null_text_def)
  then show ?thesis
    using assms read_map_strings [of "[]" "sort_strings (gokeys hs)" "lookup_or [] hs"]
    by (simp add: read_headers_def headers_members restored_headers_def gomap_ok_def gokeys_def)
qed

lemmas member_values = member_value_string member_value_int

lemma time_member_value: "time_text t = Some s \<Longrightarrow> member_value lim s"
  using time_text_string member_value_string by metis

lemma headers_text_value: "0 < lim \<Longrightarrow> member_value lim (headers_text hs)"
proof -
  have "member_value (Suc 0) (headers_text hs)"
    unfolding headers_text_def by (rule member_value_object) (auto simp: member_values)
  then show "0 < lim \<Longrightarrow> member_value lim (headers_text hs)"
    by (rule member_value_mono) simp
qed

lemma body_members_value:
  "(json_valid b \<longrightarrow> json_valid_lim lim b) \<Longrightarrow> \<forall>m \<in> set (body_members b). member_value lim (snd m)"
  by (auto simp: body_members_def member_values member_value_compact)

lemma plain_members_value: "0 < lim \<Longrightarrow> \<forall>m \<in> set (plain_members d). member_value lim (snd m)"
  by (auto simp: plain_members_def member_values omit_empty_def headers_text_value split: if_splits)

lemma time_members_value:
  "time_member name t = Some ms \<Longrightarrow> \<forall>m \<in> set ms. member_value lim (snd m)"
  "optional_time name t = Some ms \<Longrightarrow> \<forall>m \<in> set ms. member_value lim (snd m)"
  by (auto simp: time_member_def optional_time_def time_member_value split: if_splits)

lemma delivery_members_split:
  assumes "delivery_members d = Some ms"
  obtains c u n l where "time_member ''createdAt'' (CreatedAt d) = Some c"
    "time_member ''updatedAt'' (UpdatedAt d) = Some u" "optional_time ''nextAttemptAt'' (NextAttemptAt d) = Some n"
    "optional_time ''leaseUntil'' (LeaseUntil d) = Some l" "ms = plain_members d @ c @ u @ n @ l @ body_members (Body d)"
  using assms by (auto simp: delivery_members_def split: option.splits)

lemma delivery_members_value:
  assumes "delivery_members d = Some ms" "json_valid (Body d) \<longrightarrow> json_valid_lim lim (Body d)" "0 < lim"
  shows "\<forall>m \<in> set ms. member_value lim (snd m)"
  using assms(1)
proof (rule delivery_members_split)
  fix c u n l
  assume m: "time_member ''createdAt'' (CreatedAt d) = Some c"
    "time_member ''updatedAt'' (UpdatedAt d) = Some u" "optional_time ''nextAttemptAt'' (NextAttemptAt d) = Some n"
    "optional_time ''leaseUntil'' (LeaseUntil d) = Some l" "ms = plain_members d @ c @ u @ n @ l @ body_members (Body d)"
  show ?thesis
    unfolding m(5) set_append ball_Un
    using plain_members_value [OF assms(3)] time_members_value(1) [OF m(1)] time_members_value(1) [OF m(2)]
      time_members_value(2) [OF m(3)] time_members_value(2) [OF m(4)] body_members_value [OF assms(2)]
    by blast
qed

lemma member_names_utf8:
  assumes "delivery_members d = Some ms"
  shows "List.map (\<lambda>(k, v). (valid_utf8 k, v)) ms = ms"
  using assms
proof (rule delivery_members_split)
  fix c u n l
  assume m: "time_member ''createdAt'' (CreatedAt d) = Some c"
    "time_member ''updatedAt'' (UpdatedAt d) = Some u" "optional_time ''nextAttemptAt'' (NextAttemptAt d) = Some n"
    "optional_time ''leaseUntil'' (LeaseUntil d) = Some l" "ms = plain_members d @ c @ u @ n @ l @ body_members (Body d)"
  have o: "List.map (\<lambda>(k, v). (valid_utf8 k, v)) xs = xs"
    if "optional_time name t = Some xs \<or> time_member name t = Some xs" "valid_utf8 name = name" for xs name t
    using that by (auto simp: optional_time_def time_member_def split: if_splits)
  have "List.map (\<lambda>(k, v). (valid_utf8 k, v)) (plain_members d) = plain_members d"
    "List.map (\<lambda>(k, v). (valid_utf8 k, v)) (body_members (Body d)) = body_members (Body d)"
    by (simp_all add: plain_members_def body_members_def omit_empty_def)
  then show ?thesis
    unfolding m(5) using o [OF disjI2 [OF m(1)]] o [OF disjI2 [OF m(2)]] o [OF disjI1 [OF m(3)]] o [OF disjI1 [OF m(4)]]
    by simp
qed

subsection \<open>The round trips\<close>

lemma delivery_field_simps:
  "delivery_field (''id'', json_string x) (d, raw, b64) = Some (d\<lparr>ID := valid_utf8 x\<rparr>, raw, b64)"
  "delivery_field (''idempotencyKey'', json_string x) (d, raw, b64) = Some (d\<lparr>IdempotencyKey := valid_utf8 x\<rparr>, raw, b64)"
  "delivery_field (''targetUrl'', json_string x) (d, raw, b64) = Some (d\<lparr>TargetURL := valid_utf8 x\<rparr>, raw, b64)"
  "delivery_field (''method'', json_string x) (d, raw, b64) = Some (d\<lparr>Method := valid_utf8 x\<rparr>, raw, b64)"
  "delivery_field (''status'', json_string x) (d, raw, b64) = Some (d\<lparr>Status := valid_utf8 x\<rparr>, raw, b64)"
  "delivery_field (''lastError'', json_string x) (d, raw, b64) = Some (d\<lparr>LastError := valid_utf8 x\<rparr>, raw, b64)"
  "int64_range i \<Longrightarrow> delivery_field (''attempts'', show_int i) (d, raw, b64) = Some (d\<lparr>Attempts := i\<rparr>, raw, b64)"
  "int64_range i \<Longrightarrow> delivery_field (''maxAttempts'', show_int i) (d, raw, b64) = Some (d\<lparr>MaxAttempts := i\<rparr>, raw, b64)"
  "int64_range i \<Longrightarrow>
     delivery_field (''lastResponseCode'', show_int i) (d, raw, b64) = Some (d\<lparr>LastResponseCode := i\<rparr>, raw, b64)"
  "delivery_field (''headers'', v) (d, raw, b64) = map_option (\<lambda>x. (d\<lparr>Headers := x\<rparr>, raw, b64)) (read_headers (Headers d) v)"
  by (simp_all add: delivery_field_def named_def fold_names)

lemma delivery_field_times:
  assumes "time_text t = Some s"
  shows "delivery_field (''createdAt'', s) (d, raw, b64) = Some (d\<lparr>CreatedAt := t\<rparr>, raw, b64)"
    "delivery_field (''updatedAt'', s) (d, raw, b64) = Some (d\<lparr>UpdatedAt := t\<rparr>, raw, b64)"
    "delivery_field (''nextAttemptAt'', s) (d, raw, b64) = Some (d\<lparr>NextAttemptAt := t\<rparr>, raw, b64)"
    "delivery_field (''leaseUntil'', s) (d, raw, b64) = Some (d\<lparr>LeaseUntil := t\<rparr>, raw, b64)"
  using assms by (simp_all add: delivery_field_def named_def fold_names)

lemma delivery_field_body:
  "delivery_field (''body'', v) (d, raw, b64) = Some (d, v, b64)"
  "delivery_field (''bodyBase64'', json_string x) (d, raw, b64) = Some (d, raw, Some (valid_utf8 x))"
  by (simp_all add: delivery_field_def named_def fold_names json_string_not_null)

lemma read_omit_empty:
  assumes "\<And>x. f (name, json_string x) s = Some (upd (valid_utf8 x) s)" "upd [] s = s"
  shows "read_fields f (omit_empty name x) s = Some (upd (valid_utf8 x) s)"
  using assms by (simp add: omit_empty_def)

lemma read_plain_members:
  assumes "int64_range (Attempts d)" "int64_range (MaxAttempts d)" "int64_range (LastResponseCode d)"
    "gomap_ok (Headers d)" "list_all (\<lambda>h. is_utf8 (fst h)) (Headers d)"
  shows "read_fields delivery_field (plain_members d) (zero_delivery, [], None) =
     Some ((restored d)\<lparr>Body := [], NextAttemptAt := zero_time, LeaseUntil := zero_time,
       CreatedAt := zero_time, UpdatedAt := zero_time\<rparr>, [], None)"
proof -
  have "restored_headers [] = []"
    by (simp add: restored_headers_def gokeys_def sort_strings_def)
  then show ?thesis
    using assms read_headers_text [OF assms(4,5)]
    by (auto simp: plain_members_def read_fields_append delivery_field_simps omit_empty_def zero_delivery_def
        restored_def)
qed

lemma read_time_member:
  assumes "time_member name t = Some ms" "\<And>s. time_text t = Some s \<Longrightarrow> f (name, s) x = Some (upd x)"
  shows "read_fields f ms x = Some (upd x)"
  using assms by (auto simp: time_member_def)

lemma read_optional_time:
  assumes "optional_time name t = Some ms" "\<And>s. time_text t = Some s \<Longrightarrow> f (name, s) x = Some (upd x)"
    "t = zero_time \<Longrightarrow> upd x = x"
  shows "read_fields f ms x = Some (upd x)"
  using assms by (auto simp: optional_time_def time_member_def split: if_splits)

lemma b64_utf8: "valid_utf8 (b64_encode b) = b64_encode b"
proof -
  have "list_all is_ascii (b64_encode b)"
    using b64_encode_bytes [of b]
    by (auto simp: list_all_iff is_ascii_def b64_byte_def is_upper_def is_lower_def is_digit_def)
  then show ?thesis
    using is_utf8_ascii is_utf8_def by blast
qed

lemma compact_nonempty: "json_valid b \<Longrightarrow> compact_from Out b \<noteq> []"
  using json_valid_compact [of max_nesting b] valid_nonempty by (auto simp: json_valid_def)

lemma read_body_members:
  "Option.bind (read_fields delivery_field (body_members b) (d\<lparr>Body := []\<rparr>, [], None)) finish_delivery =
     Some (d\<lparr>Body := restored_body b\<rparr>)"
  by (auto simp: body_members_def delivery_field_body finish_delivery_def restored_body_def b64_utf8)

lemma read_delivery_members:
  assumes "delivery_members d = Some ms" "encodable d"
  shows "Option.bind (read_fields delivery_field ms (zero_delivery, [], None)) finish_delivery = Some (restored d)"
  using assms(1)
proof (rule delivery_members_split)
  fix c u n l
  assume m: "time_member ''createdAt'' (CreatedAt d) = Some c"
    "time_member ''updatedAt'' (UpdatedAt d) = Some u" "optional_time ''nextAttemptAt'' (NextAttemptAt d) = Some n"
    "optional_time ''leaseUntil'' (LeaseUntil d) = Some l" "ms = plain_members d @ c @ u @ n @ l @ body_members (Body d)"
  let ?d0 = "(restored d)\<lparr>Body := [], NextAttemptAt := zero_time, LeaseUntil := zero_time,
       CreatedAt := zero_time, UpdatedAt := zero_time\<rparr>"
  let ?up = "\<lambda>f (d, raw, b64). (f d, raw, b64) :: decoding"
  have p: "read_fields delivery_field (plain_members d) (zero_delivery, [], None) = Some (?d0, [], None)"
    using assms(2) by (intro read_plain_members) (simp_all add: encodable_def)
  have 1: "read_fields delivery_field c x = Some (?up (CreatedAt_update (\<lambda>_. CreatedAt d)) x)" for x
    using m(1) by (rule read_time_member) (cases x, simp add: delivery_field_times)
  have 2: "read_fields delivery_field u x = Some (?up (UpdatedAt_update (\<lambda>_. UpdatedAt d)) x)" for x
    using m(2) by (rule read_time_member) (cases x, simp add: delivery_field_times)
  have 3: "read_fields delivery_field n (e, raw, b64) = Some (e\<lparr>NextAttemptAt := NextAttemptAt d\<rparr>, raw, b64)"
    if "NextAttemptAt e = zero_time" for e raw b64
    using read_optional_time [OF m(3), of delivery_field "(e, raw, b64)" "?up (NextAttemptAt_update (\<lambda>_. NextAttemptAt d))"]
      that by (simp add: delivery_field_times)
  have 4: "read_fields delivery_field l (e, raw, b64) = Some (e\<lparr>LeaseUntil := LeaseUntil d\<rparr>, raw, b64)"
    if "LeaseUntil e = zero_time" for e raw b64
    using read_optional_time [OF m(4), of delivery_field "(e, raw, b64)" "?up (LeaseUntil_update (\<lambda>_. LeaseUntil d))"]
      that by (simp add: delivery_field_times)
  have "read_fields delivery_field (plain_members d @ c @ u @ n @ l) (zero_delivery, [], None) =
      Some ((restored d)\<lparr>Body := []\<rparr>, [], None)"
    by (simp add: read_fields_append p 1 2 3 4) (simp add: restored_def)
  then have "Option.bind (read_fields delivery_field ms (zero_delivery, [], None)) finish_delivery =
      Some ((restored d)\<lparr>Body := restored_body (Body d)\<rparr>)"
    using read_body_members [of "Body d" "restored d"] by (simp add: m(5) read_fields_append flip: append_assoc)
  then show ?thesis
    by (simp add: restored_def)
qed

text \<open>A line is an object and a line break.\<close>

lemma json_valid_newline: "json_valid_lim lim t \<Longrightarrow> json_valid_lim lim (t @ [CHR 0x0A])"
proof -
  assume v: "json_valid_lim lim t"
  have "jstep lim (scan lim (BeginValue, []) t) (CHR 0x0A) = (EndTop, [])"
    using valid_scan [OF v] by (cases "scan lim (BeginValue, []) t")
      (auto simp: ended_def after_int_def is_jspace_def is_digit_def)
  then show ?thesis
    by (simp add: json_valid_lim_def is_jspace_def del: jstep.simps) (simp add: is_jspace_def)
qed

lemma js_trim_line:
  assumes "compacted Out t Out" "t \<noteq> []"
  shows "js_trim (t @ [CHR 0x0A]) = t"
proof -
  have "no_spaces Out t" "mode_run Out t = Out"
    using assms compact_no_spaces [of Out t] by (auto simp: compacted_def)
  then have "\<not> is_jspace (hd t)" "\<not> is_jspace (last t)"
    using assms(2) by (intro no_spaces_ends; simp)+
  moreover from this have "dropWhile is_jspace (t @ [CHR 0x0A]) = t @ [CHR 0x0A]"
    using assms(2) by (intro dropWhile_hd) simp_all
  ultimately show ?thesis
    using assms(2) by (simp add: js_trim_def is_jspace_def dropWhile_hd hd_rev)
qed

lemma object_of_not_null: "object_of ms \<noteq> null_text" "object_of ms \<noteq> []"
  by (simp_all add: object_of_def null_text_def)

lemma read_struct_object:
  assumes "\<forall>m \<in> set ms. member_value lim (snd m)" "lim < max_nesting"
    "List.map (\<lambda>(k, v). (valid_utf8 k, v)) ms = ms" "u = [] \<or> u = [CHR 0x0A]"
  shows "read_struct f z (object_of ms @ u) = read_fields f ms z"
proof -
  have c: "compacted Out (object_of ms) Out"
    using assms(1) by (rule compacted_object)
  have "json_valid_lim (Suc lim) (object_of ms)"
    using assms(1) by (intro json_valid_object) (simp add: member_value_def)
  then have v: "json_valid (object_of ms @ u)"
    using assms(2,4) json_valid_mono [of "Suc lim" _ max_nesting] json_valid_newline
    by (auto simp: json_valid_def)
  have t: "js_trim (object_of ms @ u) = object_of ms"
    using assms(4) js_trim_compacted [OF c] js_trim_line [OF c] by (auto simp: object_of_not_null)
  then have "object_members (object_of ms @ u) = object_members (object_of ms)"
    using js_trim_compacted [OF c] by (simp add: object_members_def)
  then show ?thesis
    using v t assms(3) object_members_object [OF assms(1)] by (simp add: read_struct_def object_of_not_null)
qed

text \<open>A delivery reads back as \<open>restored\<close>.\<close>

lemma lim_max: "9998 < max_nesting" "9999 < max_nesting" "(0::nat) < 9998"
  by (simp_all add: max_nesting_def)

lemma encodable_value:
  "delivery_members d = Some ms \<Longrightarrow> encodable d \<Longrightarrow> \<forall>m \<in> set ms. member_value 9998 (snd m)"
  by (intro delivery_members_value) (auto simp: encodable_def)

lemma unmarshal_members:
  assumes "delivery_members d = Some ms" "encodable d"
  shows "UnmarshalJSON (object_of ms) = Some (restored d)"
  using read_struct_object [OF encodable_value [OF assms] lim_max(1) member_names_utf8 [OF assms(1)],
      of "[]" delivery_field] read_delivery_members [OF assms] by (simp add: UnmarshalJSON_def)

lemma unmarshal_marshal: "MarshalJSON d = Some t \<Longrightarrow> encodable d \<Longrightarrow> UnmarshalJSON t = Some (restored d)"
  using unmarshal_members by (auto simp: MarshalJSON_def)

definition record_members :: "bytes \<Rightarrow> bytes \<Rightarrow> (bytes \<times> bytes) list" where
  "record_members t h = [(''version'', show_int currentJournalVersion), (''delivery'', t)] @ omit_empty ''requestHash'' h"

lemma marshalRecord_members:
  assumes "encodable d"
  shows "marshalRecord d h =
    map_option (\<lambda>ms. object_of (record_members (object_of ms) h) @ [CHR 0x0A]) (delivery_members d)"
proof (cases "delivery_members d")
  case (Some ms)
  have v: "\<forall>m \<in> set ms. member_value 9998 (snd m)"
    using Some assms by (rule encodable_value)
  then have "json_valid_lim (Suc 9998) (object_of ms)"
    by (intro json_valid_object) (simp add: member_value_def)
  then have "json_valid (object_of ms)"
    using json_valid_mono by (fastforce simp: json_valid_def max_nesting_def)
  moreover have "compact_from Out (object_of ms) = object_of ms"
    using compacted_object [OF v] by (simp add: compacted_def)
  ultimately show ?thesis
    using Some by (simp add: marshalRecord_def MarshalJSON_def json_compact_def record_members_def)
qed (simp add: marshalRecord_def MarshalJSON_def)

lemma record_members_value:
  "member_value lim t \<Longrightarrow> \<forall>m \<in> set (record_members t h). member_value lim (snd m)"
  by (auto simp: record_members_def omit_empty_def member_values)

lemma record_names_utf8: "List.map (\<lambda>(k, v). (valid_utf8 k, v)) (record_members t h) = record_members t h"
  by (simp add: record_members_def omit_empty_def)

lemma record_field_simps:
  "int64_range i \<Longrightarrow> record_field (''version'', show_int i) r = Some (r\<lparr>Version := i\<rparr>)"
  "v \<noteq> null_text \<Longrightarrow> record_field (''delivery'', v) r = map_option (\<lambda>d. r\<lparr>recDelivery := Some d\<rparr>) (UnmarshalJSON v)"
  "record_field (''requestHash'', json_string x) r = Some (r\<lparr>RequestHash := valid_utf8 x\<rparr>)"
  "record_field (''deletedId'', json_string x) r = Some (r\<lparr>DeletedID := valid_utf8 x\<rparr>)"
  by (simp_all add: record_field_def named_def fold_names)

lemma unmarshal_record_line:
  assumes "marshalRecord d h = Some line" "encodable d"
  shows "unmarshalRecord line =
    Some \<lparr>Version = currentJournalVersion, recDelivery = Some (restored d), RequestHash = valid_utf8 h, DeletedID = []\<rparr>"
proof -
  obtain ms where ms: "delivery_members d = Some ms" "line = object_of (record_members (object_of ms) h) @ [CHR 0x0A]"
    using assms by (auto simp: marshalRecord_members)
  have "member_value (Suc 9998) (object_of ms)"
    using encodable_value [OF ms(1) assms(2)] by (rule member_value_object)
  then have v: "\<forall>m \<in> set (record_members (object_of ms) h). member_value 9999 (snd m)"
    by (intro record_members_value) simp
  have "unmarshalRecord line = read_fields record_field (record_members (object_of ms) h) zero_record"
    unfolding unmarshalRecord_def ms(2) using v lim_max(2) record_names_utf8
    by (rule read_struct_object) simp
  also have "\<dots> = Some \<lparr>Version = currentJournalVersion, recDelivery = Some (restored d),
      RequestHash = valid_utf8 h, DeletedID = []\<rparr>"
    using unmarshal_members [OF ms(1) assms(2)]
    by (simp add: record_members_def omit_empty_def record_field_simps object_of_not_null zero_record_def
        currentJournalVersion_def int64_range_def)
  finally show ?thesis .
qed

lemma delete_members_value:
  "\<forall>m \<in> set ([(''version'', show_int currentJournalVersion)] @ omit_empty ''deletedId'' i). member_value lim (snd m)"
  by (auto simp: omit_empty_def member_values)

lemma unmarshal_delete_line:
  "unmarshalRecord (deleteRecord i) =
     Some \<lparr>Version = currentJournalVersion, recDelivery = None, RequestHash = [], DeletedID = valid_utf8 i\<rparr>"
proof -
  let ?ms = "[(''version'', show_int currentJournalVersion)] @ omit_empty ''deletedId'' i"
  have "unmarshalRecord (deleteRecord i) = read_fields record_field ?ms zero_record"
    unfolding unmarshalRecord_def deleteRecord_def using delete_members_value lim_max(1)
    by (rule read_struct_object) (simp_all add: omit_empty_def)
  then show ?thesis
    by (simp add: omit_empty_def record_field_simps zero_record_def currentJournalVersion_def int64_range_def)
qed

text \<open>The shape of a line: an object whose first name starts with \<open>v\<close>, and one line break.\<close>

definition record_text :: "bytes \<Rightarrow> bool" where
  "record_text t \<longleftrightarrow>
     object_text max_nesting t \<and> CHR 0x0A \<notin> set t \<and> (\<exists>w. t = CHR ''{'' # CHR 0x22 # CHR ''v'' # w)"

lemma record_text_object:
  assumes "\<forall>m \<in> set ((''version'', x) # ms). member_value lim (snd m)" "lim < max_nesting"
  shows "record_text (object_of ((''version'', x) # ms))"
proof -
  let ?t = "object_of ((''version'', x) # ms)"
  have "object_text (Suc lim) ?t"
    using assms(1) by (intro object_text_object_of) (simp add: member_value_def)
  then have "object_text max_nesting ?t"
    using assms(2) json_valid_mono [of "Suc lim" ?t max_nesting] by (simp add: object_text_def)
  moreover have "CHR 0x0A \<notin> set ?t"
    using member_value_object [OF assms(1)] value_no_newline by blast
  moreover have "quote_from (CHR ''v'' # s) = CHR ''v'' # quote_from s" for s
    by (simp add: escape_char_def is_html_def)
  then have "\<exists>w. ?t = CHR ''{'' # CHR 0x22 # CHR ''v'' # w"
    by (cases ms) (simp_all add: object_of_def member_text_def json_string_def)
  ultimately show ?thesis
    by (simp add: record_text_def)
qed

lemma marshalRecord_text:
  assumes "marshalRecord d h = Some line" "encodable d"
  obtains t where "line = t @ [CHR 0x0A]" "record_text t"
proof -
  obtain ms where ms: "delivery_members d = Some ms" "line = object_of (record_members (object_of ms) h) @ [CHR 0x0A]"
    using assms by (auto simp: marshalRecord_members)
  have "member_value (Suc 9998) (object_of ms)"
    using encodable_value [OF ms(1) assms(2)] by (rule member_value_object)
  then have "\<forall>m \<in> set (record_members (object_of ms) h). member_value 9999 (snd m)"
    by (intro record_members_value) simp
  then have "record_text (object_of (record_members (object_of ms) h))"
    unfolding record_members_def append_Cons append_Nil using lim_max(2) by (rule record_text_object)
  with ms(2) that show thesis
    by blast
qed

lemma deleteRecord_text: obtains t where "deleteRecord i = t @ [CHR 0x0A]" "record_text t"
proof -
  have "record_text (object_of ((''version'', show_int currentJournalVersion) # omit_empty ''deletedId'' i))"
    using delete_members_value [of i 9998] lim_max(1) by (intro record_text_object) simp_all
  with that show thesis
    by (auto simp: deleteRecord_def)
qed

subsection \<open>A body at the edge of the depth limit\<close>

text \<open>
  A body nested one level too deep for \<open>encodable\<close>: every check on the way in accepts it,
  \<open>marshalRecord\<close> writes it, and the line cannot be read.
\<close>

lemma compacted_nested: "compacted Out (nested n) Out"
  by (rule compacted_plains) (auto simp: nested_def list_all_iff plain_char_def is_html_def is_jspace_def)

lemma deep_body_line:
  assumes b: "Body d = nested 9999" and ms: "delivery_members d = Some ms"
  obtains line where "marshalRecord d h = Some line" "\<not> json_valid line"
proof -
  have v: "json_valid_lim 9999 (nested 9999)" "json_valid (nested 9999)"
    by (simp_all add: json_valid_def max_nesting_def json_valid_nested)
  have bm: "body_members (Body d) = [(''body'', nested 9999)]"
    using v compacted_nested [of 9999] unfolding b body_members_def
    by (simp add: compacted_def) (simp add: nested_def)
  obtain ms1 where ms1: "ms = ms1 @ [(''body'', nested 9999)]"
    using ms bm by (auto elim!: delivery_members_split)
  have all: "\<forall>m \<in> set ms. member_value 9999 (snd m)"
    using ms v(1) by (intro delivery_members_value) (auto simp: b)
  then have all': "\<forall>m \<in> set ms. json_valid_lim 9999 (snd m)"
    by (simp add: member_value_def)
  have ok: "json_valid (object_of ms)"
    using json_valid_object [OF all'] by (simp add: json_valid_def max_nesting_def)
  moreover have "compact_from Out (object_of ms) = object_of ms"
    using compacted_object [OF all] by (simp add: compacted_def)
  ultimately have line: "marshalRecord d h = Some (object_of (record_members (object_of ms) h) @ [CHR 0x0A])"
    using ms by (simp add: marshalRecord_def MarshalJSON_def json_compact_def record_members_def)
  have "reaches 9999 (BeginValue, []) 9999 (nested 9999)"
    by (rule reaches_nested) simp
  then have "reaches (Suc 9999) (BeginValue, []) (Suc 9999) (object_of ms)"
    unfolding ms1 using all' ms1 by (intro reaches_object) auto
  then have "reaches (Suc (Suc 9999)) (BeginValue, []) (Suc (Suc 9999))
      (object_of ([(''version'', show_int currentJournalVersion)] @ (''delivery'', object_of ms) # omit_empty ''requestHash'' h))"
    by (intro reaches_object) (auto simp: json_valid_int)
  then have "reaches (Suc (Suc 9999)) (BeginValue, []) (Suc (Suc 9999))
      (object_of (record_members (object_of ms) h) @ [CHR 0x0A])"
    unfolding record_members_def by (intro reaches_append) simp
  then have "\<not> json_valid (object_of (record_members (object_of ms) h) @ [CHR 0x0A])"
    unfolding json_valid_def by (rule reaches_invalid) (simp add: max_nesting_def)
  with line that show thesis
    by blast
qed

lemma invalid_line_unreadable: "\<not> json_valid line \<Longrightarrow> unmarshalRecord line = None"
  by (simp add: unmarshalRecord_def read_struct_def)

end
