(* ===== verification/Disk.thy ===== *)
theory Disk
  imports GoText
begin

section \<open>The directory of the journal\<close>

text \<open>
  What the store uses of the operating system: the files of one directory, the system
  calls on them, each of which can fail, and what a crash leaves.

  \<^item> A file is its bytes and how long a prefix of them is known to be on disk
    (\<open>isynced\<close>): a write extends the bytes, a sync the prefix.
  \<^item> The directory maps names to files. What the journal's own name means after a crash
    is \<open>durableEntry\<close>, the file it named at the last sync of the directory.
  \<^item> \<open>faults\<close> is a script of the outcomes of the coming calls; when it has run out they
    succeed. A failing write has written some number of its bytes; any other failing
    call has no effect. Theorems quantify over the script.
  \<^item> A crash keeps a prefix of each file that is at least the synced one, and for the
    journal's name either its present file or the durable one.
\<close>

datatype fault = Success | Failure nat

record inode =
  idata :: bytes
  isynced :: nat

datatype dirEntry = Regular nat | Irregular

record world =
  base :: bytes
  inodes :: "inode list"
  dir :: "(bytes, dirEntry) gomap"
  durableEntry :: "nat option"
  flockHeld :: bool
  faults :: "fault list"

definition syscall :: "world \<Rightarrow> fault \<times> world" where
  "syscall w = (case faults w of [] \<Rightarrow> (Success, w) | f # fs \<Rightarrow> (f, w\<lparr>faults := fs\<rparr>))"

text \<open>A call without effect on the files: whether it succeeds.\<close>

definition attempt :: "world \<Rightarrow> bool \<times> world" where
  "attempt w = (case syscall w of (f, w') \<Rightarrow> (f = Success, w'))"

definition append_inode :: "nat \<Rightarrow> bytes \<Rightarrow> world \<Rightarrow> world" where
  "append_inode i s w =
     (if i < length (inodes w)
      then w\<lparr>inodes := (inodes w)[i := (inodes w ! i)\<lparr>idata := idata (inodes w ! i) @ s\<rparr>]\<rparr> else w)"

definition file_data :: "nat \<Rightarrow> world \<Rightarrow> bytes" where
  "file_data i w = (if i < length (inodes w) then idata (inodes w ! i) else [])"

definition os_write :: "nat \<Rightarrow> bytes \<Rightarrow> world \<Rightarrow> bool \<times> world" where
  "os_write i s w =
     (case syscall w of
        (Success, w') \<Rightarrow> (True, append_inode i s w')
      | (Failure n, w') \<Rightarrow> (False, append_inode i (take n s) w'))"

definition sync_inode :: "nat \<Rightarrow> world \<Rightarrow> world" where
  "sync_inode i w =
     (if i < length (inodes w)
      then w\<lparr>inodes := (inodes w)[i := (inodes w ! i)\<lparr>isynced := length (idata (inodes w ! i))\<rparr>]\<rparr> else w)"

definition os_sync :: "nat \<Rightarrow> world \<Rightarrow> bool \<times> world" where
  "os_sync i w = (case attempt w of (ok, w') \<Rightarrow> (ok, if ok then sync_inode i w' else w'))"

definition os_stat :: "nat \<Rightarrow> world \<Rightarrow> nat option \<times> world" where
  "os_stat i w = (case attempt w of (ok, w') \<Rightarrow> (if ok then Some (length (file_data i w')) else None, w'))"

definition os_read :: "nat \<Rightarrow> world \<Rightarrow> bytes option \<times> world" where
  "os_read i w = (case attempt w of (ok, w') \<Rightarrow> (if ok then Some (file_data i w') else None, w'))"

definition journal_entry :: "world \<Rightarrow> nat option" where
  "journal_entry w = (case map_of (dir w) (base w) of Some (Regular i) \<Rightarrow> Some i | _ \<Rightarrow> None)"

text \<open>\<open>os.OpenFile\<close> with \<open>O_CREATE\<close>: an existing file, or a new empty one.\<close>

definition os_open_journal :: "world \<Rightarrow> nat option \<times> world" where
  "os_open_journal w =
     (case attempt w of (ok, w') \<Rightarrow>
        if \<not> ok then (None, w')
        else case map_of (dir w') (base w') of
          Some (Regular i) \<Rightarrow> (Some i, w')
        | Some Irregular \<Rightarrow> (None, w')
        | None \<Rightarrow>
            (Some (length (inodes w')),
             w'\<lparr>inodes := inodes w' @ [\<lparr>idata = [], isynced = 0\<rparr>],
                dir := AList.update (base w') (Regular (length (inodes w'))) (dir w')\<rparr>))"

text \<open>
  \<open>os.CreateTemp\<close> picks a name with the given prefix that is not in the directory; the
  model takes one that is longer than every name there.
\<close>

definition fresh_name :: "bytes \<Rightarrow> (bytes, dirEntry) gomap \<Rightarrow> bytes" where
  "fresh_name pre d = pre @ replicate (Suc (sum_list (List.map (length \<circ> fst) d))) (CHR ''0'')"

definition os_create_temp :: "bytes \<Rightarrow> world \<Rightarrow> (bytes \<times> nat) option \<times> world" where
  "os_create_temp pre w =
     (case attempt w of (ok, w') \<Rightarrow>
        if \<not> ok then (None, w')
        else
          (let name = fresh_name pre (dir w'); i = length (inodes w')
           in (Some (name, i),
               w'\<lparr>inodes := inodes w' @ [\<lparr>idata = [], isynced = 0\<rparr>],
                  dir := AList.update name (Regular i) (dir w')\<rparr>)))"

definition os_rename :: "bytes \<Rightarrow> nat \<Rightarrow> world \<Rightarrow> bool \<times> world" where
  "os_rename name i w =
     (case attempt w of (ok, w') \<Rightarrow>
        if ok then (True, w'\<lparr>dir := AList.update (base w') (Regular i) (AList.delete name (dir w'))\<rparr>)
        else (False, w'))"

text \<open>\<open>os.Remove\<close>: fails as well when there is no such name, which the second result tells.\<close>

definition os_remove :: "bytes \<Rightarrow> world \<Rightarrow> (bool \<times> bool) \<times> world" where
  "os_remove name w =
     (case attempt w of (ok, w') \<Rightarrow>
        if \<not> ok then ((False, False), w')
        else if map_of (dir w') name = None then ((False, True), w')
        else ((True, False), w'\<lparr>dir := AList.delete name (dir w')\<rparr>))"

definition os_sync_dir :: "world \<Rightarrow> bool \<times> world" where
  "os_sync_dir w =
     (case attempt w of (ok, w') \<Rightarrow> (ok, if ok then w'\<lparr>durableEntry := journal_entry w'\<rparr> else w'))"

subsection \<open>Crashes\<close>

definition crash_inode :: "nat \<Rightarrow> inode \<Rightarrow> inode" where
  "crash_inode k f =
     (let s = take (max k (isynced f)) (idata f) in \<lparr>idata = s, isynced = length s\<rparr>)"

definition crash :: "(nat \<Rightarrow> nat) \<Rightarrow> bool \<Rightarrow> world \<Rightarrow> world" where
  "crash keep old w =
     (let e = (if old then durableEntry w else journal_entry w)
      in w\<lparr>inodes := List.map (\<lambda>(i, f). crash_inode (keep i) f) (enumerate 0 (inodes w)),
           dir := (case e of None \<Rightarrow> AList.delete (base w) (dir w) | Some i \<Rightarrow> AList.update (base w) (Regular i) (dir w)),
           durableEntry := e, flockHeld := False, faults := []\<rparr>)"

text \<open>A kill of the process loses nothing of the files; only the lock goes.\<close>

definition kill :: "world \<Rightarrow> world" where
  "kill w = w\<lparr>flockHeld := False, faults := []\<rparr>"

end
