(* ===== verification/Store.thy ===== *)
theory Store
  imports JournalCodec Disk "HOL-Library.Word"
begin

section \<open>The journal store: \<open>internal/store\<close>\<close>

text \<open>
  The state of a \<open>Store\<close> and every operation on it, over the directory of
  theory \<open>Disk\<close>. Each operation takes the mutex for its whole body, so that operations
  happen one after another: an operation is a function from the store and the world to
  a result, the store and the world. An error value of the code is a constructor of \<open>store_error\<close>;
  \<open>errors.Is\<close> looks at the constructor.
\<close>

subsection \<open>State\<close>

datatype compactionStage = BeforeRename | AfterRename | AfterDirSync

text \<open>The stages are finitely many, so that the test hook, a function of the stage, can be compared.\<close>

instantiation compactionStage :: enum
begin

definition enum_compactionStage :: "compactionStage list" where
  "enum_compactionStage = [BeforeRename, AfterRename, AfterDirSync]"

definition enum_all_compactionStage :: "(compactionStage \<Rightarrow> bool) \<Rightarrow> bool" where
  "enum_all_compactionStage P \<longleftrightarrow> P BeforeRename \<and> P AfterRename \<and> P AfterDirSync"

definition enum_ex_compactionStage :: "(compactionStage \<Rightarrow> bool) \<Rightarrow> bool" where
  "enum_ex_compactionStage P \<longleftrightarrow> P BeforeRename \<or> P AfterRename \<or> P AfterDirSync"

instance
proof
  have all: "s = BeforeRename \<or> s = AfterRename \<or> s = AfterDirSync" for s :: compactionStage
    by (cases s) simp_all
  show "(UNIV :: compactionStage set) = set enum_class.enum"
    using all by (auto simp: enum_compactionStage_def)
  show "distinct (enum_class.enum :: compactionStage list)"
    by (simp add: enum_compactionStage_def)
  show "enum_class.enum_all P \<longleftrightarrow> Ball UNIV P" for P :: "compactionStage \<Rightarrow> bool"
    unfolding enum_all_compactionStage_def by (metis UNIV_I all)
  show "enum_class.enum_ex P \<longleftrightarrow> Bex UNIV P" for P :: "compactionStage \<Rightarrow> bool"
    unfolding enum_ex_compactionStage_def by (metis UNIV_I all)
qed

end

text \<open>The causes of input and output failures, one for each call whose error is returned.\<close>

datatype io_cause =
    MkdirAll | OpenLock | ChmodLock | FlockCall | ReadDir | RemoveAbandoned | OpenDir | SyncDir | StatJournal
  | OpenJournal | PersistNew | SeekStart | ReadJournal | SeekEnd | JournalClosed | WriteJournal | SyncJournal
  | CompactClosed | CreateTemp | ChmodTemp | WriteTemp | SyncTemp | RenameTemp | CloseReplaced | CloseTemp
  | RemoveTemp | CloseJournal | Unlock | CloseLock | CompactionHook compactionStage

datatype store_error =
    ErrNotFound
  | ErrIdempotencyConflict
  | ErrInvalidTransition
  | ErrStaleLease
  | ErrJournalFull
  | ErrJournalLocked
  | ErrPersistence "io_cause list"
  | Rejected delivery_error
  | EncodeRecord
  | IOError "io_cause list"
  | OptionsInvalid
  | DecodeLine nat
  | UnsupportedVersion nat int
  | DeletionVersion nat
  | DeliveryAndDeletion nat
  | NoDeliveryID nat

record tables =
  items :: "(bytes, Delivery) gomap"
  hashes :: "(bytes, bytes) gomap"
  keyToID :: "(bytes, bytes) gomap"

text \<open>\<open>file\<close> is the open journal's inode, None for nil; \<open>lock\<close> whether the lock file is open.\<close>

record Store = tables +
  journalFile :: "nat option"
  lock :: bool
  maxJournalBytes :: int
  persistenceErr :: "store_error option"
  records :: "64 word"
  prunedDeliveries :: "64 word"
  compactionsSucceeded :: "64 word"
  compactionsFailed :: "64 word"
  compactionHook :: "compactionStage \<Rightarrow> bool"

record Stats =
  JournalSizeBytes :: int
  JournalRecords :: "64 word"
  LiveDeliveries :: "64 word"
  MaxJournalBytes :: int
  PrunedDeliveries :: "64 word"
  CompactionsSucceeded :: "64 word"
  CompactionsFailed :: "64 word"

definition empty_tables :: tables where
  "empty_tables = \<lparr>items = [], hashes = [], keyToID = []\<rparr>"

subsection \<open>The three maps\<close>

definition setLocked :: "Delivery \<Rightarrow> bytes \<Rightarrow> 'a tables_scheme \<Rightarrow> 'a tables_scheme" where
  "setLocked item requestHash s =
     (let s1 = s\<lparr>items := AList.update (ID item) (Clone item) (items s),
                 hashes := AList.update (ID item) requestHash (hashes s)\<rparr>
      in if IdempotencyKey item \<noteq> []
         then s1\<lparr>keyToID := AList.update (IdempotencyKey item) (ID item) (keyToID s1)\<rparr> else s1)"

definition deleteLocked :: "bytes \<Rightarrow> 'a tables_scheme \<Rightarrow> 'a tables_scheme" where
  "deleteLocked i s =
     (case map_of (items s) i of
        None \<Rightarrow> s
      | Some item \<Rightarrow>
          let s1 = s\<lparr>items := AList.delete i (items s), hashes := AList.delete i (hashes s)\<rparr>
          in if IdempotencyKey item \<noteq> [] \<and> lookup_or [] (keyToID s1) (IdempotencyKey item) = i
             then s1\<lparr>keyToID := AList.delete (IdempotencyKey item) (keyToID s1)\<rparr> else s1)"

definition currentLeaseLocked :: "bytes \<Rightarrow> int \<Rightarrow> 'a tables_scheme \<Rightarrow> store_error + Delivery" where
  "currentLeaseLocked i att s =
     (case map_of (items s) i of
        None \<Rightarrow> Inl ErrNotFound
      | Some item \<Rightarrow>
          if Status item \<noteq> StatusInFlight \<or> Attempts item \<noteq> att then Inl ErrStaleLease else Inr item)"

subsection \<open>Appending to the journal\<close>

definition failPersistenceLocked :: "io_cause list \<Rightarrow> Store \<Rightarrow> store_error \<times> Store" where
  "failPersistenceLocked cause s =
     (case persistenceErr s of
        Some e \<Rightarrow> (e, s)
      | None \<Rightarrow> (ErrPersistence cause, s\<lparr>persistenceErr := Some (ErrPersistence cause)\<rparr>))"

definition appendDataLocked ::
  "bytes \<Rightarrow> 64 word \<Rightarrow> Store \<Rightarrow> world \<Rightarrow> store_error option \<times> Store \<times> world" where
  "appendDataLocked payload n s w =
     (case persistenceErr s of
        Some e \<Rightarrow> (Some e, s, w)
      | None \<Rightarrow>
          (case journalFile s of
             None \<Rightarrow> (case failPersistenceLocked [JournalClosed] s of (e, s') \<Rightarrow> (Some e, s', w))
           | Some f \<Rightarrow>
               (case os_write f payload w of (ok, w1) \<Rightarrow>
                  if \<not> ok then (case failPersistenceLocked [WriteJournal] s of (e, s') \<Rightarrow> (Some e, s', w1))
                  else (case os_sync f w1 of (ok, w2) \<Rightarrow>
                    if \<not> ok then (case failPersistenceLocked [SyncJournal] s of (e, s') \<Rightarrow> (Some e, s', w2))
                    else (None, s\<lparr>records := records s + n\<rparr>, w2)))))"

definition appendLocked :: "Delivery \<Rightarrow> bytes \<Rightarrow> Store \<Rightarrow> world \<Rightarrow> store_error option \<times> Store \<times> world" where
  "appendLocked item requestHash s w =
     (case marshalRecord item requestHash of
        None \<Rightarrow> (Some EncodeRecord, s, w)
      | Some payload \<Rightarrow> appendDataLocked payload 1 s w)"

definition persistLocked :: "Delivery \<Rightarrow> Store \<Rightarrow> world \<Rightarrow> store_error option \<times> Store \<times> world" where
  "persistLocked item s w =
     (let h = lookup_or [] (hashes s) (ID item)
      in case appendLocked item h s w of
        (Some e, s', w') \<Rightarrow> (Some e, s', w')
      | (None, s', w') \<Rightarrow> (None, setLocked item h s', w'))"

definition checkAdmissionLocked ::
  "Delivery \<Rightarrow> bytes \<Rightarrow> Store \<Rightarrow> world \<Rightarrow> store_error option \<times> Store \<times> world" where
  "checkAdmissionLocked item requestHash s w =
     (if maxJournalBytes s = 0 then (None, s, w)
      else case marshalRecord item requestHash of
        None \<Rightarrow> (Some EncodeRecord, s, w)
      | Some payload \<Rightarrow>
          (case (case journalFile s of None \<Rightarrow> (None, w) | Some f \<Rightarrow> os_stat f w) of
             (None, w') \<Rightarrow> (case failPersistenceLocked [StatJournal] s of (e, s') \<Rightarrow> (Some e, s', w'))
           | (Some sz, w') \<Rightarrow>
               if maxJournalBytes s < int sz + int (length payload) then (Some ErrJournalFull, s, w')
               else (None, s, w')))"

subsection \<open>Create, Get, List\<close>

definition Create ::
  "(bytes \<Rightarrow> url option) \<Rightarrow> (bytes \<Rightarrow> bytes) \<Rightarrow> bytes option \<Rightarrow> CreateRequest \<Rightarrow> int \<Rightarrow> Store \<Rightarrow> world \<Rightarrow>
   (store_error + Delivery \<times> bool) \<times> Store \<times> world" where
  "Create url_parse sha256 raw req now s w =
     (case New url_parse sha256 raw req now of
        Inl e \<Rightarrow> (Inl (Rejected e), s, w)
      | Inr (candidate, requestHash) \<Rightarrow>
          (case (if IdempotencyKey candidate \<noteq> [] then map_of (keyToID s) (IdempotencyKey candidate) else None) of
             Some i \<Rightarrow>
               if lookup_or [] (hashes s) i \<noteq> requestHash then (Inl ErrIdempotencyConflict, s, w)
               else (Inr (Clone (lookup_or zero_delivery (items s) i), False), s, w)
           | None \<Rightarrow>
               (case checkAdmissionLocked candidate requestHash s w of
                  (Some e, s1, w1) \<Rightarrow> (Inl e, s1, w1)
                | (None, s1, w1) \<Rightarrow>
                    (case appendLocked candidate requestHash s1 w1 of
                       (Some e, s2, w2) \<Rightarrow> (Inl e, s2, w2)
                     | (None, s2, w2) \<Rightarrow>
                         (Inr (Clone candidate, True), setLocked candidate requestHash s2, w2)))))"

definition Get :: "bytes \<Rightarrow> 'a tables_scheme \<Rightarrow> store_error + Delivery" where
  "Get i s = (case map_of (items s) i of None \<Rightarrow> Inl ErrNotFound | Some item \<Rightarrow> Inr (Clone item))"

definition list_before :: "Delivery \<Rightarrow> Delivery \<Rightarrow> bool" where
  "list_before a b = (if CreatedAt a = CreatedAt b then ID a < ID b else CreatedAt a < CreatedAt b)"

definition ListDeliveries :: "Status \<Rightarrow> 'a tables_scheme \<Rightarrow> Delivery list" where
  "ListDeliveries status s =
     sort_by list_before
       (List.map Clone (filter (\<lambda>item. status = [] \<or> Status item = status) (List.map snd (items s))))"

subsection \<open>Claims and their outcomes\<close>

definition due :: "int \<Rightarrow> Delivery \<Rightarrow> bool" where
  "due now item \<longleftrightarrow>
     (Status item = StatusPending \<and> \<not> now < NextAttemptAt item) \<or>
     (Status item = StatusInFlight \<and> \<not> now < LeaseUntil item)"

definition claim_before :: "Delivery \<Rightarrow> Delivery \<Rightarrow> bool" where
  "claim_before a b =
     (if NextAttemptAt a = NextAttemptAt b then
        (if CreatedAt a = CreatedAt b then ID a < ID b else CreatedAt a < CreatedAt b)
      else NextAttemptAt a < NextAttemptAt b)"

definition claim_item :: "int \<Rightarrow> int \<Rightarrow> Delivery \<Rightarrow> Delivery" where
  "claim_item now leaseDuration item =
     item\<lparr>Status := StatusInFlight, Attempts := Attempts item + 1, LeaseUntil := now + leaseDuration,
       UpdatedAt := now\<rparr>"

definition candidates :: "int \<Rightarrow> (Delivery \<Rightarrow> bool) \<Rightarrow> nat \<Rightarrow> 'a tables_scheme \<Rightarrow> Delivery list" where
  "candidates now eligible limit s =
     take limit (sort_by claim_before
       (filter (\<lambda>item. due now item \<and> eligible (Clone item)) (List.map snd (items s))))"

fun claim_loop ::
  "int \<Rightarrow> int \<Rightarrow> Delivery list \<Rightarrow> Delivery list \<Rightarrow> Store \<Rightarrow> world \<Rightarrow>
   (Delivery list \<times> store_error option) \<times> Store \<times> world" where
  "claim_loop now leaseDuration [] claimed s w = ((claimed, None), s, w)"
| "claim_loop now leaseDuration (c # cs) claimed s w =
     (let item = claim_item now leaseDuration c; h = lookup_or [] (hashes s) (ID item)
      in case appendLocked item h s w of
        (Some e, s', w') \<Rightarrow> ((claimed, Some e), s', w')
      | (None, s', w') \<Rightarrow>
          claim_loop now leaseDuration cs (claimed @ [Clone item]) (setLocked item h s') w')"

text \<open>The claimed deliveries and the error: both are returned.\<close>

definition ClaimDueMatching ::
  "int \<Rightarrow> int \<Rightarrow> int \<Rightarrow> (Delivery \<Rightarrow> bool) \<Rightarrow> Store \<Rightarrow> world \<Rightarrow>
   (Delivery list \<times> store_error option) \<times> Store \<times> world" where
  "ClaimDueMatching now leaseDuration limit eligible s w =
     (if limit < 1 then (([], None), s, w)
      else claim_loop now leaseDuration (candidates now eligible (nat limit) s) [] s w)"

definition ClaimDue ::
  "int \<Rightarrow> int \<Rightarrow> int \<Rightarrow> Store \<Rightarrow> world \<Rightarrow> (Delivery list \<times> store_error option) \<times> Store \<times> world" where
  "ClaimDue now leaseDuration limit s w = ClaimDueMatching now leaseDuration limit (\<lambda>_. True) s w"

definition succeeded_item :: "int \<Rightarrow> int \<Rightarrow> Delivery \<Rightarrow> Delivery" where
  "succeeded_item responseCode now item =
     item\<lparr>Status := StatusSucceeded, LastResponseCode := responseCode, LastError := [],
       NextAttemptAt := zero_time, LeaseUntil := zero_time, UpdatedAt := now\<rparr>"

definition Succeed :: "bytes \<Rightarrow> int \<Rightarrow> int \<Rightarrow> int \<Rightarrow> Store \<Rightarrow> world \<Rightarrow> store_error option \<times> Store \<times> world" where
  "Succeed i att responseCode now s w =
     (case currentLeaseLocked i att s of
        Inl e \<Rightarrow> (Some e, s, w)
      | Inr item \<Rightarrow> persistLocked (succeeded_item responseCode now item) s w)"

definition failed_item :: "int \<Rightarrow> bytes \<Rightarrow> int \<Rightarrow> bool \<Rightarrow> int \<Rightarrow> Delivery \<Rightarrow> Delivery" where
  "failed_item responseCode message next terminal now item =
     (let item1 = item\<lparr>LastResponseCode := responseCode, LastError := message, LeaseUntil := zero_time, UpdatedAt := now\<rparr>
      in if terminal then item1\<lparr>Status := StatusFailed, NextAttemptAt := zero_time\<rparr>
         else item1\<lparr>Status := StatusPending, NextAttemptAt := next\<rparr>)"

definition Fail ::
  "bytes \<Rightarrow> int \<Rightarrow> int \<Rightarrow> bytes \<Rightarrow> int \<Rightarrow> bool \<Rightarrow> int \<Rightarrow> Store \<Rightarrow> world \<Rightarrow> store_error option \<times> Store \<times> world" where
  "Fail i att responseCode message next terminal now s w =
     (case currentLeaseLocked i att s of
        Inl e \<Rightarrow> (Some e, s, w)
      | Inr item \<Rightarrow> persistLocked (failed_item responseCode message next terminal now item) s w)"

subsection \<open>Cancel, Retry\<close>

definition canceled_item :: "int \<Rightarrow> Delivery \<Rightarrow> Delivery" where
  "canceled_item now item =
     item\<lparr>Status := StatusCanceled, NextAttemptAt := zero_time, LeaseUntil := zero_time, UpdatedAt := now\<rparr>"

definition retried_item :: "int \<Rightarrow> Delivery \<Rightarrow> Delivery" where
  "retried_item now item =
     item\<lparr>Status := StatusPending, Attempts := 0, NextAttemptAt := now, LeaseUntil := zero_time,
       LastError := [], LastResponseCode := 0, UpdatedAt := now\<rparr>"

text \<open>What both return after the update has been persisted.\<close>

definition persist_return :: "Delivery \<Rightarrow> Store \<Rightarrow> world \<Rightarrow> (store_error + Delivery) \<times> Store \<times> world" where
  "persist_return item s w =
     (case persistLocked item s w of
        (Some e, s', w') \<Rightarrow> (Inl e, s', w')
      | (None, s', w') \<Rightarrow> (Inr (Clone item), s', w'))"

definition Cancel :: "bytes \<Rightarrow> int \<Rightarrow> Store \<Rightarrow> world \<Rightarrow> (store_error + Delivery) \<times> Store \<times> world" where
  "Cancel i now s w =
     (case map_of (items s) i of
        None \<Rightarrow> (Inl ErrNotFound, s, w)
      | Some item \<Rightarrow>
          if Status item \<noteq> StatusPending \<and> Status item \<noteq> StatusInFlight then (Inl ErrInvalidTransition, s, w)
          else persist_return (canceled_item now item) s w)"

definition Retry :: "bytes \<Rightarrow> int \<Rightarrow> Store \<Rightarrow> world \<Rightarrow> (store_error + Delivery) \<times> Store \<times> world" where
  "Retry i now s w =
     (case map_of (items s) i of
        None \<Rightarrow> (Inl ErrNotFound, s, w)
      | Some item \<Rightarrow>
          if Status item \<noteq> StatusFailed then (Inl ErrInvalidTransition, s, w)
          else persist_return (retried_item now item) s w)"

subsection \<open>Counts, Stats, Ready\<close>

definition Counts :: "'a tables_scheme \<Rightarrow> (Status, int) gomap" where
  "Counts s =
     foldl (\<lambda>counts item. AList.update (Status item) (lookup_or 0 counts (Status item) + 1) counts) []
       (List.map snd (items s))"

definition StatsOf :: "Store \<Rightarrow> world \<Rightarrow> Stats \<times> world" where
  "StatsOf s w =
     (case (case journalFile s of None \<Rightarrow> (None, w) | Some f \<Rightarrow> os_stat f w) of (sz, w') \<Rightarrow>
        (\<lparr>JournalSizeBytes = (case sz of None \<Rightarrow> 0 | Some n \<Rightarrow> int n), JournalRecords = records s,
          LiveDeliveries = word_of_nat (length (items s)), MaxJournalBytes = maxJournalBytes s,
          PrunedDeliveries = prunedDeliveries s, CompactionsSucceeded = compactionsSucceeded s,
          CompactionsFailed = compactionsFailed s\<rparr>, w'))"

definition Ready :: "Store \<Rightarrow> world \<Rightarrow> store_error option \<times> world" where
  "Ready s w =
     (case persistenceErr s of
        Some e \<Rightarrow> (Some e, w)
      | None \<Rightarrow>
          (case journalFile s of
             None \<Rightarrow> (Some (IOError [JournalClosed]), w)
           | Some f \<Rightarrow>
               (case os_stat f w of
                  (None, w') \<Rightarrow> (Some (IOError [StatJournal]), w')
                | (Some _, w') \<Rightarrow> (None, w'))))"

subsection \<open>PruneTerminal\<close>

definition terminal_status :: "Status \<Rightarrow> bool" where
  "terminal_status st \<longleftrightarrow> st = StatusSucceeded \<or> st = StatusFailed \<or> st = StatusCanceled"

definition prunable :: "int \<Rightarrow> Delivery \<Rightarrow> bool" where
  "prunable before item \<longleftrightarrow> terminal_status (Status item) \<and> \<not> before < UpdatedAt item"

definition prune_ids :: "int \<Rightarrow> 'a tables_scheme \<Rightarrow> bytes list" where
  "prune_ids before s = sort_strings (List.map fst (filter (\<lambda>(i, item). prunable before item) (items s)))"

definition PruneTerminal :: "int \<Rightarrow> Store \<Rightarrow> world \<Rightarrow> (nat \<times> store_error option) \<times> Store \<times> world" where
  "PruneTerminal before s w =
     (let ids = prune_ids before s
      in if length ids = 0 then ((0, None), s, w)
         else case appendDataLocked (concat (List.map deleteRecord ids)) (word_of_nat (length ids)) s w of
           (Some e, s', w') \<Rightarrow> ((0, Some e), s', w')
         | (None, s', w') \<Rightarrow>
             (let s1 = fold deleteLocked ids s'
              in ((length ids, None),
                  s1\<lparr>prunedDeliveries := prunedDeliveries s1 + word_of_nat (length ids)\<rparr>, w')))"

subsection \<open>Compact\<close>

definition compactionPrefix :: "bytes \<Rightarrow> bytes" where
  "compactionPrefix b = ''.'' @ b @ ''.compact-''"

text \<open>The records of all deliveries, one write each, in the order of their IDs.\<close>

fun write_records ::
  "nat \<Rightarrow> (bytes \<times> Delivery \<times> bytes) list \<Rightarrow> world \<Rightarrow> store_error option \<times> world" where
  "write_records f [] w = (None, w)"
| "write_records f ((i, item, h) # rest) w =
     (case marshalRecord item h of
        None \<Rightarrow> (Some EncodeRecord, w)
      | Some payload \<Rightarrow>
          (case os_write f payload w of (ok, w') \<Rightarrow>
             if \<not> ok then (Some (IOError [WriteTemp]), w') else write_records f rest w'))"

definition snapshot :: "'a tables_scheme \<Rightarrow> (bytes \<times> Delivery \<times> bytes) list" where
  "snapshot s =
     List.map (\<lambda>i. (i, lookup_or zero_delivery (items s) i, lookup_or [] (hashes s) i))
       (sort_strings (gokeys (items s)))"

definition adoptCompactedLocked :: "nat \<Rightarrow> 64 word \<Rightarrow> Store \<Rightarrow> world \<Rightarrow> io_cause list \<times> Store \<times> world" where
  "adoptCompactedLocked f n s w =
     (case attempt w of (ok, w') \<Rightarrow>
        (if ok then [] else [CloseReplaced], s\<lparr>journalFile := Some f, records := n\<rparr>, w'))"

text \<open>
  The deferred cleanup when the new file was not adopted: it is closed, and removed
  unless it was renamed; its own errors count only if there was none before.
\<close>

definition compact_cleanup ::
  "bytes \<Rightarrow> bool \<Rightarrow> store_error option \<Rightarrow> world \<Rightarrow> store_error option \<times> world" where
  "compact_cleanup name renamed err w =
     (case attempt w of (closed, w1) \<Rightarrow>
        let err1 = (if err = None \<and> \<not> closed then Some (IOError [CloseTemp]) else err)
        in if renamed then (err1, w1)
           else case os_remove name w1 of ((ok, missing), w2) \<Rightarrow>
             (if err1 = None \<and> \<not> ok \<and> \<not> missing then Some (IOError [RemoveTemp]) else err1, w2))"

text \<open>Up to the rename: writing and syncing the new file.\<close>

definition compact_write :: "nat \<Rightarrow> Store \<Rightarrow> world \<Rightarrow> store_error option \<times> world" where
  "compact_write f s w =
     (case attempt w of (chmod, w1) \<Rightarrow>
        if \<not> chmod then (Some (IOError [ChmodTemp]), w1)
        else case write_records f (snapshot s) w1 of
          (Some e, w2) \<Rightarrow> (Some e, w2)
        | (None, w2) \<Rightarrow>
            (case os_sync f w2 of (synced, w3) \<Rightarrow>
               if \<not> synced then (Some (IOError [SyncTemp]), w3)
               else if compactionHook s BeforeRename then (Some (IOError [CompactionHook BeforeRename]), w3)
               else (None, w3)))"

definition syncDirectory :: "world \<Rightarrow> io_cause option \<times> world" where
  "syncDirectory w =
     (case attempt w of (opened, w1) \<Rightarrow>
        if \<not> opened then (Some OpenDir, w1)
        else case os_sync_dir w1 of (ok, w2) \<Rightarrow> (if ok then None else Some SyncDir, w2))"

text \<open>After the rename: the new file is adopted in every case.\<close>

definition compact_adopt :: "nat \<Rightarrow> 64 word \<Rightarrow> Store \<Rightarrow> world \<Rightarrow> store_error option \<times> Store \<times> world" where
  "compact_adopt f n s w =
     (if compactionHook s AfterRename then
        (case adoptCompactedLocked f n s w of (es, s1, w1) \<Rightarrow>
           case failPersistenceLocked ([CompactionHook AfterRename] @ es) s1 of (e, s2) \<Rightarrow> (Some e, s2, w1))
      else case syncDirectory w of
        (Some c, w1) \<Rightarrow>
          (case adoptCompactedLocked f n s w1 of (es, s1, w2) \<Rightarrow>
             case failPersistenceLocked ([c] @ es) s1 of (e, s2) \<Rightarrow> (Some e, s2, w2))
      | (None, w1) \<Rightarrow>
          (case adoptCompactedLocked f n s w1 of (es, s1, w2) \<Rightarrow>
             let s2 = s1\<lparr>persistenceErr := None\<rparr>
             in if compactionHook s AfterDirSync then (Some (IOError ([CompactionHook AfterDirSync] @ es)), s2, w2)
                else if es \<noteq> [] then (Some (IOError es), s2, w2)
                else (None, s2\<lparr>compactionsSucceeded := compactionsSucceeded s2 + 1\<rparr>, w2)))"

definition compact_body :: "Store \<Rightarrow> world \<Rightarrow> store_error option \<times> Store \<times> world" where
  "compact_body s w =
     (case journalFile s of
        None \<Rightarrow> (Some (IOError [CompactClosed]), s, w)
      | Some _ \<Rightarrow>
          (case os_create_temp (compactionPrefix (base w)) w of
             (None, w1) \<Rightarrow> (Some (IOError [CreateTemp]), s, w1)
           | (Some (name, f), w1) \<Rightarrow>
               (case compact_write f s w1 of
                  (Some e, w2) \<Rightarrow> (case compact_cleanup name False (Some e) w2 of (e', w3) \<Rightarrow> (e', s, w3))
                | (None, w2) \<Rightarrow>
                    (case os_rename name f w2 of (renamed, w3) \<Rightarrow>
                       if \<not> renamed then
                         (case compact_cleanup name False (Some (IOError [RenameTemp])) w3 of (e', w4) \<Rightarrow> (e', s, w4))
                       else compact_adopt f (word_of_nat (length (items s))) s w3))))"

definition Compact :: "Store \<Rightarrow> world \<Rightarrow> store_error option \<times> Store \<times> world" where
  "Compact s w =
     (case compact_body s w of
        (None, s', w') \<Rightarrow> (None, s', w')
      | (Some e, s', w') \<Rightarrow> (Some e, s'\<lparr>compactionsFailed := compactionsFailed s' + 1\<rparr>, w'))"

subsection \<open>Replay\<close>

definition applyRecord :: "journalRecord \<Rightarrow> nat \<Rightarrow> 'a tables_scheme \<Rightarrow> store_error + 'a tables_scheme" where
  "applyRecord record line s =
     (if Version record \<noteq> 1 \<and> Version record \<noteq> currentJournalVersion
      then Inl (UnsupportedVersion line (Version record))
      else if DeletedID record \<noteq> [] then
        (if Version record < 2 then Inl (DeletionVersion line)
         else if recDelivery record \<noteq> None then Inl (DeliveryAndDeletion line)
         else Inr (deleteLocked (DeletedID record) s))
      else (case recDelivery record of
          None \<Rightarrow> Inl (NoDeliveryID line)
        | Some d \<Rightarrow> if ID d = [] then Inl (NoDeliveryID line) else Inr (setLocked d (RequestHash record) s)))"

lemma cut_at_shorter: "(p, a, f) = cut_at c s \<Longrightarrow> f \<Longrightarrow> length a < length s"
  using length_dropWhile_le [of "\<lambda>x. x \<noteq> c" s] by (auto simp: cut_at_def split: list.splits)

text \<open>
  The loop of \<open>replay\<close> over what is left of the file: a line with its line break must
  decode; what follows the last line break is applied if it decodes and ignored if not.
  The number of records applied is counted.
\<close>

function replay_loop :: "bytes \<Rightarrow> nat \<Rightarrow> 'a tables_scheme \<Rightarrow> store_error + 'a tables_scheme \<times> nat" where
  "replay_loop rest line s =
     (case cut_at (CHR 0x0A) rest of
        (payload, after, found) \<Rightarrow>
          if \<not> found then
            (if payload = [] then Inr (s, line)
             else case unmarshalRecord payload of
               None \<Rightarrow> Inr (s, line)
             | Some record \<Rightarrow>
                 (case applyRecord record (line + 1) s of Inl e \<Rightarrow> Inl e | Inr s' \<Rightarrow> Inr (s', line + 1)))
          else
            (case unmarshalRecord (payload @ [CHR 0x0A]) of
               None \<Rightarrow> Inl (DecodeLine (line + 1))
             | Some record \<Rightarrow>
                 (case applyRecord record (line + 1) s of
                    Inl e \<Rightarrow> Inl e
                  | Inr s' \<Rightarrow> replay_loop after (line + 1) s')))"
  by pat_completeness auto
termination
proof (relation "measure (\<lambda>(rest, line, s). length rest)")
qed (use cut_at_shorter in auto)

declare replay_loop.simps [simp del]

definition replay :: "Store \<Rightarrow> world \<Rightarrow> (store_error + Store) \<times> world" where
  "replay s w =
     (case journalFile s of
        None \<Rightarrow> (Inl (IOError [SeekStart]), w)
      | Some f \<Rightarrow>
          (case attempt w of (seek, w1) \<Rightarrow>
             if \<not> seek then (Inl (IOError [SeekStart]), w1)
             else case os_read f w1 of
               (None, w2) \<Rightarrow> (Inl (IOError [ReadJournal]), w2)
             | (Some payload, w2) \<Rightarrow>
                 (case replay_loop payload 0 s of
                    Inl e \<Rightarrow> (Inl e, w2)
                  | Inr (s', n) \<Rightarrow>
                      (case attempt w2 of (seek_end, w3) \<Rightarrow>
                         if seek_end then (Inr (s'\<lparr>records := records s' + word_of_nat n\<rparr>), w3)
                         else (Inl (IOError [SeekEnd]), w3)))))"

subsection \<open>Open and Close\<close>

definition acquireJournalLock :: "world \<Rightarrow> store_error option \<times> world" where
  "acquireJournalLock w =
     (case attempt w of (opened, w1) \<Rightarrow>
        if \<not> opened then (Some (IOError [OpenLock]), w1)
        else case attempt w1 of (chmod, w2) \<Rightarrow>
          if \<not> chmod then (Some (IOError [ChmodLock]), w2)
          else case attempt w2 of (locked, w3) \<Rightarrow>
            if flockHeld w3 then (Some ErrJournalLocked, w3)
            else if \<not> locked then (Some (IOError [FlockCall]), w3)
            else (None, w3\<lparr>flockHeld := True\<rparr>))"

definition releaseJournalLock :: "bool \<Rightarrow> world \<Rightarrow> io_cause list \<times> world" where
  "releaseJournalLock l w =
     (if \<not> l then ([], w)
      else case attempt w of (unlocked, w1) \<Rightarrow>
        case attempt w1 of (closed, w2) \<Rightarrow>
          ((if unlocked then [] else [Unlock]) @ (if closed then [] else [CloseLock]), w2\<lparr>flockHeld := False\<rparr>))"

definition abandoned_names :: "world \<Rightarrow> bytes list" where
  "abandoned_names w =
     filter (\<lambda>name. prefix (compactionPrefix (base w)) name \<and>
         (case map_of (dir w) name of Some (Regular _) \<Rightarrow> True | _ \<Rightarrow> False))
       (sort_strings (gokeys (dir w)))"

fun remove_names :: "bytes list \<Rightarrow> world \<Rightarrow> store_error option \<times> world" where
  "remove_names [] w = (None, w)"
| "remove_names (name # names) w =
     (case os_remove name w of ((ok, _), w') \<Rightarrow>
        if ok then remove_names names w' else (Some (IOError [RemoveAbandoned]), w'))"

definition removeAbandonedCompactions :: "world \<Rightarrow> store_error option \<times> world" where
  "removeAbandonedCompactions w =
     (case attempt w of (listed, w1) \<Rightarrow>
        if \<not> listed then (Some (IOError [ReadDir]), w1)
        else
          (let names = abandoned_names w1
           in case remove_names names w1 of
             (Some e, w2) \<Rightarrow> (Some e, w2)
           | (None, w2) \<Rightarrow>
               if names = [] then (None, w2)
               else case syncDirectory w2 of
                 (Some c, w3) \<Rightarrow> (Some (IOError [c]), w3)
               | (None, w3) \<Rightarrow> (None, w3)))"

definition new_store :: "nat \<Rightarrow> int \<Rightarrow> Store" where
  "new_store f limit =
     \<lparr>items = [], hashes = [], keyToID = [], journalFile = Some f, lock = True, maxJournalBytes = limit,
      persistenceErr = None, records = 0, prunedDeliveries = 0, compactionsSucceeded = 0,
      compactionsFailed = 0, compactionHook = (\<lambda>_. False)\<rparr>"

text \<open>What \<open>Open\<close> does once it holds the lock.\<close>

definition open_locked :: "int \<Rightarrow> world \<Rightarrow> (store_error + Store) \<times> world" where
  "open_locked limit w =
     (case removeAbandonedCompactions w of
        (Some e, w1) \<Rightarrow> (Inl e, w1)
      | (None, w1) \<Rightarrow>
          (case attempt w1 of (stat, w2) \<Rightarrow>
             if \<not> stat then (Inl (IOError [StatJournal]), w2)
             else
               (let newJournal = (map_of (dir w2) (base w2) = None)
                in case os_open_journal w2 of
                  (None, w3) \<Rightarrow> (Inl (IOError [OpenJournal]), w3)
                | (Some f, w3) \<Rightarrow>
                    (case (if newJournal then syncDirectory w3 else (None, w3)) of
                       (Some c, w4) \<Rightarrow> (Inl (IOError [PersistNew, c]), snd (os_remove (base w4) w4))
                     | (None, w4) \<Rightarrow> replay (new_store f limit) w4))))"

text \<open>\<open>Open\<close>: each option is its \<open>MaxJournalBytes\<close>.\<close>

definition Open :: "int list \<Rightarrow> world \<Rightarrow> (store_error + Store) \<times> world" where
  "Open options w =
     (if 1 < length options then (Inl OptionsInvalid, w)
      else
        (let limit = (case options of [] \<Rightarrow> 0 | l # _ \<Rightarrow> l)
         in if limit < 0 then (Inl OptionsInvalid, w)
            else case attempt w of (made, w1) \<Rightarrow>
              if \<not> made then (Inl (IOError [MkdirAll]), w1)
              else case acquireJournalLock w1 of
                (Some e, w2) \<Rightarrow> (Inl e, w2)
              | (None, w2) \<Rightarrow>
                  (case open_locked limit w2 of
                     (Inl e, w3) \<Rightarrow> (Inl e, snd (releaseJournalLock True w3))
                   | (Inr s, w3) \<Rightarrow> (Inr s, w3))))"

definition Close :: "Store \<Rightarrow> world \<Rightarrow> io_cause list \<times> Store \<times> world" where
  "Close s w =
     (case (case journalFile s of
              None \<Rightarrow> ([], w)
            | Some _ \<Rightarrow> (case attempt w of (closed, w1) \<Rightarrow> (if closed then [] else [CloseJournal], w1))) of
        (fileErr, w1) \<Rightarrow>
          (case releaseJournalLock (lock s) w1 of (lockErr, w2) \<Rightarrow>
             (fileErr @ lockErr, s\<lparr>journalFile := None, lock := False\<rparr>, w2)))"

end
