(* ===== verification/StoreInv.thy ===== *)
theory StoreInv
  imports Store
begin

section \<open>What the store keeps invariant\<close>

text \<open>
  \<open>tables_ok\<close>: the three maps fit together, and the idempotency keys of the deliveries
  and the index \<open>keyToID\<close> determine each other. \<open>tables_eq\<close>: two states are the same
  maps, whatever the iteration order. \<open>restored_tables\<close>: the state with every delivery
  as the journal gives it back. The lemmas say how the two operations on the maps act
  on each of these, and what each store operation does to the maps.
\<close>

subsection \<open>Lookups\<close>

lemma ID_Clone [simp]: "ID (Clone d) = ID d" "IdempotencyKey (Clone d) = IdempotencyKey d"
  "Status (Clone d) = Status d" "Attempts (Clone d) = Attempts d" "MaxAttempts (Clone d) = MaxAttempts d"
  "NextAttemptAt (Clone d) = NextAttemptAt d" "LeaseUntil (Clone d) = LeaseUntil d"
  "CreatedAt (Clone d) = CreatedAt d" "UpdatedAt (Clone d) = UpdatedAt d" "TargetURL (Clone d) = TargetURL d"
  "gomap_ok (Headers (Clone d))"
  by (simp_all add: Clone_def gomap_ok_cloneHeaders)

lemma map_of_setLocked:
  "map_of (items (setLocked d h s)) = (map_of (items s))(ID d \<mapsto> Clone d)"
  "map_of (hashes (setLocked d h s)) = (map_of (hashes s))(ID d \<mapsto> h)"
  "map_of (keyToID (setLocked d h s)) =
     (if IdempotencyKey d = [] then map_of (keyToID s) else (map_of (keyToID s))(IdempotencyKey d \<mapsto> ID d))"
  by (simp_all add: setLocked_def Let_def map_simps)

lemma map_of_deleteLocked:
  "map_of (items (deleteLocked i s)) = (map_of (items s))(i := None)"
  "map_of (hashes (deleteLocked i s)) =
     (if map_of (items s) i = None then map_of (hashes s) else (map_of (hashes s))(i := None))"
  "map_of (keyToID (deleteLocked i s)) =
     (case map_of (items s) i of
        None \<Rightarrow> map_of (keyToID s)
      | Some d \<Rightarrow>
          if IdempotencyKey d \<noteq> [] \<and> lookup_or [] (keyToID s) (IdempotencyKey d) = i
          then (map_of (keyToID s))(IdempotencyKey d := None) else map_of (keyToID s))"
  by (auto simp: deleteLocked_def Let_def map_simps fun_upd_idem split: option.splits)

subsection \<open>The same maps\<close>

definition tables_eq :: "'a tables_scheme \<Rightarrow> 'b tables_scheme \<Rightarrow> bool" where
  "tables_eq s t \<longleftrightarrow>
     map_of (items s) = map_of (items t) \<and> map_of (hashes s) = map_of (hashes t) \<and>
     map_of (keyToID s) = map_of (keyToID t)"

lemma tables_eq_refl [simp, intro]: "tables_eq s s"
  by (simp add: tables_eq_def)

lemma tables_eq_sym: "tables_eq s t \<Longrightarrow> tables_eq t s"
  by (simp add: tables_eq_def)

lemma tables_eq_trans: "tables_eq s t \<Longrightarrow> tables_eq t u \<Longrightarrow> tables_eq s u"
  by (simp add: tables_eq_def)

lemma tables_eq_set: "tables_eq s t \<Longrightarrow> tables_eq (setLocked d h s) (setLocked d h t)"
  by (simp add: tables_eq_def map_of_setLocked)

lemma tables_eq_delete: "tables_eq s t \<Longrightarrow> tables_eq (deleteLocked i s) (deleteLocked i t)"
  by (cases "map_of (items t) i") (simp_all add: tables_eq_def map_of_deleteLocked lookup_or_def)

lemma tables_eq_fold_delete: "tables_eq s t \<Longrightarrow> tables_eq (fold deleteLocked is s) (fold deleteLocked is t)"
  by (induction "is" arbitrary: s t) (auto intro: tables_eq_delete)

subsection \<open>The maps fit together\<close>

definition tables_ok :: "'a tables_scheme \<Rightarrow> bool" where
  "tables_ok s \<longleftrightarrow>
     gomap_ok (items s) \<and> gomap_ok (hashes s) \<and> gomap_ok (keyToID s) \<and>
     dom (map_of (hashes s)) = dom (map_of (items s)) \<and>
     (\<forall>i d. map_of (items s) i = Some d \<longrightarrow> ID d = i \<and> i \<noteq> [] \<and> gomap_ok (Headers d)) \<and>
     (\<forall>k i. map_of (keyToID s) k = Some i \<longleftrightarrow>
        k \<noteq> [] \<and> (\<exists>d. map_of (items s) i = Some d \<and> IdempotencyKey d = k))"

lemma tables_okD:
  assumes "tables_ok s"
  shows "gomap_ok (items s)" "gomap_ok (hashes s)" "gomap_ok (keyToID s)"
    "dom (map_of (hashes s)) = dom (map_of (items s))"
    "map_of (items s) i = Some d \<Longrightarrow> ID d = i" "map_of (items s) i = Some d \<Longrightarrow> i \<noteq> []"
    "map_of (items s) i = Some d \<Longrightarrow> gomap_ok (Headers d)"
    "map_of (keyToID s) k = Some i \<longleftrightarrow> k \<noteq> [] \<and> (\<exists>d. map_of (items s) i = Some d \<and> IdempotencyKey d = k)"
  using assms by (simp_all add: tables_ok_def)

lemma tables_okI:
  assumes "gomap_ok (items s)" "gomap_ok (hashes s)" "gomap_ok (keyToID s)"
    "dom (map_of (hashes s)) = dom (map_of (items s))"
    "\<And>i d. map_of (items s) i = Some d \<Longrightarrow> ID d = i \<and> i \<noteq> [] \<and> gomap_ok (Headers d)"
    "\<And>k i. map_of (keyToID s) k = Some i \<longleftrightarrow> k \<noteq> [] \<and> (\<exists>d. map_of (items s) i = Some d \<and> IdempotencyKey d = k)"
  shows "tables_ok s"
  using assms by (simp add: tables_ok_def)

lemma tables_ok_empty [simp, intro]: "items s = [] \<Longrightarrow> hashes s = [] \<Longrightarrow> keyToID s = [] \<Longrightarrow> tables_ok s"
  by (simp add: tables_ok_def)

text \<open>Two deliveries with the same nonempty key are one.\<close>

lemma key_unique:
  assumes "tables_ok s" "map_of (items s) i = Some d" "map_of (items s) j = Some e"
    "IdempotencyKey d = IdempotencyKey e" "IdempotencyKey d \<noteq> []"
  shows "i = j"
proof -
  have "map_of (keyToID s) (IdempotencyKey d) = Some i" "map_of (keyToID s) (IdempotencyKey d) = Some j"
    using assms tables_okD(8) [OF assms(1)] by auto
  then show ?thesis
    by simp
qed

lemma items_value: "tables_ok s \<Longrightarrow> d \<in> snd ` set (items s) \<longleftrightarrow> map_of (items s) (ID d) = Some d"
proof -
  assume ok: "tables_ok s"
  have "d \<in> snd ` set (items s) \<longleftrightarrow> (\<exists>i. map_of (items s) i = Some d)"
    using gomap_ok_mem [OF tables_okD(1) [OF ok]] by force
  then show ?thesis
    using tables_okD(5) [OF ok] by auto
qed

lemma tables_ok_set:
  assumes "tables_ok s" "ID d \<noteq> []"
    and "\<And>e. map_of (items s) (ID d) = Some e \<Longrightarrow> IdempotencyKey e = IdempotencyKey d"
    and "map_of (items s) (ID d) = None \<Longrightarrow> IdempotencyKey d \<noteq> [] \<Longrightarrow> map_of (keyToID s) (IdempotencyKey d) = None"
  shows "tables_ok (setLocked d h s)"
proof -
  note ok = tables_okD [OF assms(1)]
  have "map_of (keyToID (setLocked d h s)) k = Some i \<longleftrightarrow>
      k \<noteq> [] \<and> (\<exists>e. map_of (items (setLocked d h s)) i = Some e \<and> IdempotencyKey e = k)" for k i
  proof (cases "map_of (items s) (ID d)")
    case None
    then have other: "IdempotencyKey d = [] \<or> map_of (items s) j = Some e \<longrightarrow> IdempotencyKey e \<noteq> IdempotencyKey d \<or> IdempotencyKey d = []" for j e
      using assms(4) ok(8) [of "IdempotencyKey d" j] by auto
    have "map_of (keyToID s) k \<noteq> Some (ID d)"
      using None ok(8) [of k "ID d"] by auto
    then show ?thesis
      using None ok(8) [of k i] other [of i] by (cases "k = IdempotencyKey d") (auto simp: map_of_setLocked)
  next
    case (Some e)
    then have e: "IdempotencyKey e = IdempotencyKey d"
      by (rule assms(3))
    have "map_of (keyToID s) (IdempotencyKey d) = Some (ID d)" if "IdempotencyKey d \<noteq> []"
      using ok(8) [of "IdempotencyKey d" "ID d"] Some e that by auto
    then have "map_of (keyToID (setLocked d h s)) = map_of (keyToID s)"
      by (auto simp: map_of_setLocked)
    then show ?thesis
      using Some e ok(8) [of k i] by (auto simp: map_of_setLocked)
  qed
  moreover have "gomap_ok (items (setLocked d h s))" "gomap_ok (hashes (setLocked d h s))"
    "gomap_ok (keyToID (setLocked d h s))"
    using ok by (auto simp: setLocked_def Let_def)
  ultimately show ?thesis
    using ok(4-7) assms(2) by (intro tables_okI) (auto simp: map_of_setLocked split: if_splits)
qed

lemma tables_ok_delete:
  assumes "tables_ok s"
  shows "tables_ok (deleteLocked i s)"
proof (cases "map_of (items s) i")
  case None
  then have "deleteLocked i s = s"
    by (simp add: deleteLocked_def)
  with assms show ?thesis
    by simp
next
  case (Some d)
  note ok = tables_okD [OF assms]
  have key: "IdempotencyKey d \<noteq> [] \<Longrightarrow> map_of (keyToID s) (IdempotencyKey d) = Some i"
    using Some ok(8) by blast
  have "map_of (keyToID (deleteLocked i s)) =
      (if IdempotencyKey d = [] then map_of (keyToID s) else (map_of (keyToID s))(IdempotencyKey d := None))"
    using Some key by (simp add: map_of_deleteLocked lookup_or_def)
  moreover have "map_of (keyToID s) [] = None"
    using ok(8) [of "[]"] by (cases "map_of (keyToID s) []") auto
  ultimately have new: "map_of (keyToID (deleteLocked i s)) k = Some j \<longleftrightarrow> map_of (keyToID s) k = Some j \<and> k \<noteq> IdempotencyKey d" for k j
    by auto
  have same: "k = IdempotencyKey d \<longleftrightarrow> j = i" if kj: "map_of (keyToID s) k = Some j" for k j
  proof
    have "k \<noteq> []"
      using kj ok(8) by blast
    then show "k = IdempotencyKey d \<Longrightarrow> j = i"
      using kj key by simp
    show "j = i \<Longrightarrow> k = IdempotencyKey d"
      using kj Some ok(8) [of k j] by simp
  qed
  have "map_of (keyToID (deleteLocked i s)) k = Some j \<longleftrightarrow> map_of (keyToID s) k = Some j \<and> j \<noteq> i" for k j
    unfolding new using same by blast
  also have "(map_of (keyToID s) k = Some j \<and> j \<noteq> i) =
      (k \<noteq> [] \<and> (\<exists>e. map_of (items (deleteLocked i s)) j = Some e \<and> IdempotencyKey e = k))" for k j
    unfolding ok(8) map_of_deleteLocked by auto
  finally have "map_of (keyToID (deleteLocked i s)) k = Some j \<longleftrightarrow>
      k \<noteq> [] \<and> (\<exists>e. map_of (items (deleteLocked i s)) j = Some e \<and> IdempotencyKey e = k)" for k j .
  note keys = this
  show ?thesis
  proof (rule tables_okI)
    show "gomap_ok (items (deleteLocked i s))" "gomap_ok (hashes (deleteLocked i s))"
      "gomap_ok (keyToID (deleteLocked i s))"
      using ok(1-3) by (auto simp: deleteLocked_def Let_def split: option.splits)
    show "dom (map_of (hashes (deleteLocked i s))) = dom (map_of (items (deleteLocked i s)))"
      using ok(4) Some by (simp add: map_of_deleteLocked)
    show "ID e = j \<and> j \<noteq> [] \<and> gomap_ok (Headers e)" if "map_of (items (deleteLocked i s)) j = Some e" for j e
      using that ok(5-7) [of j e] by (simp add: map_of_deleteLocked split: if_splits)
  qed (rule keys)
qed

lemma tables_ok_fold_delete: "tables_ok s \<Longrightarrow> tables_ok (fold deleteLocked is s)"
  by (induction "is" arbitrary: s) (auto intro: tables_ok_delete)

lemma items_fold_delete:
  "map_of (items (fold deleteLocked is s)) = (\<lambda>i. if i \<in> set is then None else map_of (items s) i)"
  by (induction "is" arbitrary: s) (auto simp: map_of_deleteLocked)

subsection \<open>What an operation does to the maps\<close>

text \<open>The three maps of a store, without the rest of its state.\<close>

definition view :: "'a tables_scheme \<Rightarrow> tables" where
  "view s = tables.truncate s"

lemma view_simps [simp]:
  "items (view s) = items s" "hashes (view s) = hashes s" "keyToID (view s) = keyToID s"
  by (simp_all add: view_def tables.defs)

lemma view_eqI: "items s = items t \<Longrightarrow> hashes s = hashes t \<Longrightarrow> keyToID s = keyToID t \<Longrightarrow> view s = view t"
  by (simp add: view_def tables.defs)

lemma view_set [simp]: "view (setLocked d h s) = setLocked d h (view s)"
  by (simp add: setLocked_def Let_def view_def tables.defs)

lemma view_delete [simp]: "view (deleteLocked i s) = deleteLocked i (view s)"
  by (simp add: deleteLocked_def Let_def view_def tables.defs split: option.splits)

lemma view_fold_delete [simp]: "view (fold deleteLocked is s) = fold deleteLocked is (view s)"
  by (induction "is" arbitrary: s) auto

lemma view_update [simp]:
  "view (s\<lparr>persistenceErr := e\<rparr>) = view s" "view (s\<lparr>records := n\<rparr>) = view s" "view (s\<lparr>journalFile := f\<rparr>) = view s"
  "view (s\<lparr>prunedDeliveries := n\<rparr>) = view s" "view (s\<lparr>compactionsSucceeded := n\<rparr>) = view s"
  "view (s\<lparr>compactionsFailed := n\<rparr>) = view s" "view (s\<lparr>lock := l\<rparr>) = view s"
  by (simp_all add: view_def tables.defs)

lemma tables_ok_view [simp]: "tables_ok (view s) = tables_ok s"
  by (simp add: tables_ok_def)

lemma tables_ok_cong: "view s = view t \<Longrightarrow> tables_ok s = tables_ok t"
  by (metis tables_ok_view)

lemma items_cong: "view s = view t \<Longrightarrow> items s = items t" "view s = view t \<Longrightarrow> hashes s = hashes t"
  "view s = view t \<Longrightarrow> keyToID s = keyToID t"
  by (metis view_simps(1), metis view_simps(2), metis view_simps(3))

text \<open>An append either succeeds or records why it did not; it never touches the maps.\<close>

lemma failPersistence_cases:
  assumes "failPersistenceLocked c s = (e, s')"
  shows "s' = s\<lparr>persistenceErr := Some e\<rparr>" "persistenceErr s = None \<Longrightarrow> e = ErrPersistence c"
    "persistenceErr s = Some e' \<Longrightarrow> e = e' \<and> s' = s"
  using assms by (auto simp: failPersistenceLocked_def split: option.splits)

lemma appendData_cases:
  assumes "appendDataLocked p n s w = (r, s', w')"
  obtains (stored) f w1 where "r = None" "persistenceErr s = None" "journalFile s = Some f"
      "os_write f p w = (True, w1)" "os_sync f w1 = (True, w')" "s' = s\<lparr>records := records s + n\<rparr>"
  | (sticky) e where "r = Some e" "persistenceErr s = Some e" "s' = s" "w' = w"
  | (closed) "r = Some (ErrPersistence [JournalClosed])" "persistenceErr s = None" "journalFile s = None"
      "s' = s\<lparr>persistenceErr := Some (ErrPersistence [JournalClosed])\<rparr>" "w' = w"
  | (bad_write) f where "r = Some (ErrPersistence [WriteJournal])" "persistenceErr s = None" "journalFile s = Some f"
      "os_write f p w = (False, w')" "s' = s\<lparr>persistenceErr := Some (ErrPersistence [WriteJournal])\<rparr>"
  | (bad_sync) f w1 where "r = Some (ErrPersistence [SyncJournal])" "persistenceErr s = None" "journalFile s = Some f"
      "os_write f p w = (True, w1)" "os_sync f w1 = (False, w')" "s' = s\<lparr>persistenceErr := Some (ErrPersistence [SyncJournal])\<rparr>"
proof (cases "persistenceErr s")
  case (Some e)
  then have "r = Some e" "s' = s" "w' = w"
    using assms by (simp_all add: appendDataLocked_def)
  with Some show ?thesis
    by (intro that(2))
next
  case None
  show ?thesis
  proof (cases "journalFile s")
    case None
    with \<open>persistenceErr s = None\<close> assms show ?thesis
      by (intro that(3)) (auto simp: appendDataLocked_def failPersistenceLocked_def)
  next
    case (Some f)
    obtain ok w1 where w: "os_write f p w = (ok, w1)"
      by (cases "os_write f p w")
    obtain ok2 w2 where y: "os_sync f w1 = (ok2, w2)"
      by (cases "os_sync f w1")
    show ?thesis
    proof (cases "ok \<and> ok2")
      case True
      then show ?thesis
        using None Some assms w y by (intro that(1) [of f w1]) (simp_all add: appendDataLocked_def)
    next
      case False
      show ?thesis
      proof (cases ok)
        case True
        then show ?thesis
          using None Some assms w y False
          by (intro that(5) [of f w1]) (auto simp: appendDataLocked_def failPersistenceLocked_def)
      next
        case False
        then show ?thesis
          using None Some assms w
          by (intro that(4) [of f]) (auto simp: appendDataLocked_def failPersistenceLocked_def)
      qed
    qed
  qed
qed

lemma appendData_frame:
  assumes "appendDataLocked p n s w = (r, s', w')"
  shows "view s' = view s" "journalFile s' = journalFile s" "maxJournalBytes s' = maxJournalBytes s"
    "lock s' = lock s" "prunedDeliveries s' = prunedDeliveries s" "compactionHook s' = compactionHook s"
    "r = None \<Longrightarrow> persistenceErr s = None \<and> persistenceErr s' = None"
    "r = Some e \<Longrightarrow> persistenceErr s' = Some e"
    "persistenceErr s = Some e \<Longrightarrow> r = Some e \<and> s' = s \<and> w' = w"
  using assms by (elim appendData_cases; simp)+

lemma append_cases:
  assumes "appendLocked d h s w = (r, s', w')"
  obtains (encode) "marshalRecord d h = None" "r = Some EncodeRecord" "s' = s" "w' = w"
  | (payload) p where "marshalRecord d h = Some p" "appendDataLocked p 1 s w = (r, s', w')"
  using assms by (auto simp: appendLocked_def split: option.splits)

lemma append_frame:
  assumes "appendLocked d h s w = (r, s', w')"
  shows "view s' = view s" "journalFile s' = journalFile s" "maxJournalBytes s' = maxJournalBytes s"
    "lock s' = lock s" "prunedDeliveries s' = prunedDeliveries s" "compactionHook s' = compactionHook s"
    "r = None \<Longrightarrow> persistenceErr s = None \<and> persistenceErr s' = None"
    "persistenceErr s = Some e \<Longrightarrow> r \<noteq> None \<and> s' = s \<and> w' = w"
  using assms by (elim append_cases; auto dest: appendData_frame)+

lemma persist_cases:
  assumes "persistLocked d s w = (r, s', w')"
  obtains (stored) s1 where "r = None" "appendLocked d (lookup_or [] (hashes s) (ID d)) s w = (None, s1, w')"
      "s' = setLocked d (lookup_or [] (hashes s) (ID d)) s1" "view s' = setLocked d (lookup_or [] (hashes s) (ID d)) (view s)"
  | (failed) e where "r = Some e" "appendLocked d (lookup_or [] (hashes s) (ID d)) s w = (Some e, s', w')" "view s' = view s"
  using assms by (auto simp: persistLocked_def Let_def split: option.splits prod.splits dest: append_frame(1))

lemma admission_cases:
  assumes "checkAdmissionLocked d h s w = (r, s', w')"
  shows "view s' = view s" "r = None \<Longrightarrow> s' = s"
  using assms
  by (auto simp: checkAdmissionLocked_def failPersistenceLocked_def split: option.splits prod.splits if_splits)

end
