(* ===== verification/Lifecycle.thy ===== *)
theory Lifecycle
  imports StoreInv
begin

section \<open>The life of a delivery\<close>

text \<open>
  The abstract machine behind the store: its state is the three maps, a step creates a
  delivery, claims a due one, records the outcome of a claim, cancels, retries, or
  removes a terminal one. \<open>run_op_steps\<close> is the refinement: whatever the system calls do,
  an operation of the store moves the maps by steps of this machine. What is shown of
  the machine therefore holds of the store: \<open>tables_ok\<close>, \<open>delivery_ok\<close>, and which status
  can follow which.
\<close>

subsection \<open>Steps\<close>

definition fresh_delivery :: "Delivery \<Rightarrow> bool" where
  "fresh_delivery d \<longleftrightarrow>
     Status d = StatusPending \<and> Attempts d = 0 \<and> 1 \<le> MaxAttempts d \<and> MaxAttempts d \<le> 100 \<and>
     LeaseUntil d = zero_time \<and> LastError d = [] \<and> LastResponseCode d = 0 \<and> gomap_ok (Headers d) \<and>
     NextAttemptAt d = CreatedAt d \<and> UpdatedAt d = CreatedAt d"

inductive step :: "tables \<Rightarrow> tables \<Rightarrow> bool" where
  created: "map_of (items t) (ID d) = None \<Longrightarrow> ID d \<noteq> [] \<Longrightarrow> map_of (keyToID t) (IdempotencyKey d) = None \<Longrightarrow>
    fresh_delivery d \<Longrightarrow> step t (setLocked d h t)"
| claimed: "map_of (items t) i = Some d \<Longrightarrow> due now d \<Longrightarrow>
    step t (setLocked (claim_item now lease d) (lookup_or [] (hashes t) i) t)"
| succeeded: "map_of (items t) i = Some d \<Longrightarrow> Status d = StatusInFlight \<Longrightarrow>
    step t (setLocked (succeeded_item code now d) (lookup_or [] (hashes t) i) t)"
| failed: "map_of (items t) i = Some d \<Longrightarrow> Status d = StatusInFlight \<Longrightarrow>
    step t (setLocked (failed_item code msg nxt terminal now d) (lookup_or [] (hashes t) i) t)"
| canceled: "map_of (items t) i = Some d \<Longrightarrow> Status d = StatusPending \<or> Status d = StatusInFlight \<Longrightarrow>
    step t (setLocked (canceled_item now d) (lookup_or [] (hashes t) i) t)"
| retried: "map_of (items t) i = Some d \<Longrightarrow> Status d = StatusFailed \<Longrightarrow>
    step t (setLocked (retried_item now d) (lookup_or [] (hashes t) i) t)"
| pruned: "map_of (items t) i = Some d \<Longrightarrow> terminal_status (Status d) \<Longrightarrow> step t (deleteLocked i t)"

inductive_cases stepE: "step t u"

abbreviation steps :: "tables \<Rightarrow> tables \<Rightarrow> bool" where
  "steps \<equiv> step\<^sup>*\<^sup>*"

text \<open>The fields an update of a stored delivery leaves alone.\<close>

definition same_identity :: "Delivery \<Rightarrow> Delivery \<Rightarrow> bool" where
  "same_identity d e \<longleftrightarrow>
     ID e = ID d \<and> IdempotencyKey e = IdempotencyKey d \<and> TargetURL e = TargetURL d \<and> Method e = Method d \<and>
     Headers e = Headers d \<and> Body e = Body d \<and> MaxAttempts e = MaxAttempts d \<and> CreatedAt e = CreatedAt d"

lemma identity_items [simp]:
  "same_identity d (claim_item now lease d)" "same_identity d (succeeded_item code now d)"
  "same_identity d (failed_item code msg nxt terminal now d)" "same_identity d (canceled_item now d)"
  "same_identity d (retried_item now d)" "same_identity d d"
  by (simp_all add: same_identity_def claim_item_def succeeded_item_def failed_item_def canceled_item_def
      retried_item_def Let_def)

lemma same_identity_trans: "same_identity a b \<Longrightarrow> same_identity b c \<Longrightarrow> same_identity a c"
  by (simp add: same_identity_def)

lemma same_identityD:
  "same_identity d e \<Longrightarrow> ID e = ID d" "same_identity d e \<Longrightarrow> IdempotencyKey e = IdempotencyKey d"
  "same_identity d e \<Longrightarrow> Headers e = Headers d"
  by (simp_all add: same_identity_def)

text \<open>A step changes one entry: it appears, is replaced by an update, or goes.\<close>

inductive evolves :: "Delivery \<Rightarrow> Delivery \<Rightarrow> bool" where
  claim: "due now d \<Longrightarrow> evolves d (claim_item now lease d)"
| succeed: "Status d = StatusInFlight \<Longrightarrow> evolves d (succeeded_item code now d)"
| fail: "Status d = StatusInFlight \<Longrightarrow> evolves d (failed_item code msg nxt terminal now d)"
| cancel: "Status d = StatusPending \<or> Status d = StatusInFlight \<Longrightarrow> evolves d (canceled_item now d)"
| retry: "Status d = StatusFailed \<Longrightarrow> evolves d (retried_item now d)"

lemma evolves_identity: "evolves d e \<Longrightarrow> same_identity d e"
  by (induction rule: evolves.induct) simp_all

lemma step_update:
  assumes "step t u"
  obtains (new) d h where "map_of (items t) (ID d) = None" "ID d \<noteq> []" "map_of (keyToID t) (IdempotencyKey d) = None"
      "fresh_delivery d" "u = setLocked d h t"
  | (update) i d e where "map_of (items t) i = Some d" "evolves d e" "u = setLocked e (lookup_or [] (hashes t) i) t"
  | (gone) i d where "map_of (items t) i = Some d" "terminal_status (Status d)" "u = deleteLocked i t"
  using assms by (cases rule: step.cases) (metis evolves.intros)+

lemma update_ok:
  assumes "tables_ok t" "map_of (items t) i = Some d" "same_identity d e"
  shows "tables_ok (setLocked e h t)" "ID e = i" "gomap_ok (Headers e)" "Clone e = e"
proof -
  have i: "ID d = i" "i \<noteq> []" "gomap_ok (Headers d)"
    using tables_okD(5-7) [OF assms(1,2)] by simp_all
  with assms(3) show "ID e = i" "gomap_ok (Headers e)" "Clone e = e"
    by (simp_all add: same_identity_def)
  then show "tables_ok (setLocked e h t)"
    using assms i by (intro tables_ok_set) (auto simp: same_identity_def)
qed

lemma step_tables_ok:
  assumes "step t u" "tables_ok t"
  shows "tables_ok u"
  using assms(1)
proof (cases rule: step_update)
  case (new d h)
  with assms(2) show ?thesis
    by (auto intro: tables_ok_set)
next
  case (update i d e)
  then show ?thesis
    using assms(2) evolves_identity update_ok(1) by blast
next
  case (gone i d)
  then show ?thesis
    using assms(2) tables_ok_delete by blast
qed

lemma steps_tables_ok: "steps t u \<Longrightarrow> tables_ok t \<Longrightarrow> tables_ok u"
  by (induction rule: rtranclp_induct) (auto intro: step_tables_ok)

subsection \<open>The operations as a machine\<close>

text \<open>
  The arguments of an operation, and the operation on the store and the world. The URL
  parser and the hash function are fixed for a run.
\<close>

datatype op =
    OpCreate "bytes option" CreateRequest int
  | OpClaim int int int "Delivery \<Rightarrow> bool"
  | OpSucceed bytes int int int
  | OpFail bytes int int bytes int bool int
  | OpCancel bytes int
  | OpRetry bytes int
  | OpPrune int
  | OpCompact

fun run_op :: "(bytes \<Rightarrow> url option) \<Rightarrow> (bytes \<Rightarrow> bytes) \<Rightarrow> op \<Rightarrow> Store \<Rightarrow> world \<Rightarrow> Store \<times> world" where
  "run_op up sha (OpCreate raw req now) s w = snd (Create up sha raw req now s w)"
| "run_op up sha (OpClaim now lease limit eligible) s w = snd (ClaimDueMatching now lease limit eligible s w)"
| "run_op up sha (OpSucceed i att code now) s w = snd (Succeed i att code now s w)"
| "run_op up sha (OpFail i att code msg nxt terminal now) s w = snd (Fail i att code msg nxt terminal now s w)"
| "run_op up sha (OpCancel i now) s w = snd (Cancel i now s w)"
| "run_op up sha (OpRetry i now) s w = snd (Retry i now s w)"
| "run_op up sha (OpPrune before) s w = snd (PruneTerminal before s w)"
| "run_op up sha OpCompact s w = snd (Compact s w)"

text \<open>The one thing about randomness that is needed: a new identifier is not in use.\<close>

definition fresh_id :: "op \<Rightarrow> Store \<Rightarrow> bool" where
  "fresh_id x s \<longleftrightarrow>
     (\<forall>raw req now i. x = OpCreate raw req now \<longrightarrow> newID raw = Some i \<longrightarrow> i \<noteq> [] \<and> map_of (items s) i = None)"

subsection \<open>Every operation moves the maps by steps\<close>

lemma evolves_step:
  "map_of (items t) i = Some d \<Longrightarrow> evolves d e \<Longrightarrow> step t (setLocked e (lookup_or [] (hashes t) i) t)"
  by (auto elim!: evolves.cases intro: step.intros)

lemma New_cases:
  assumes "New up sha raw req now = Inr (d, h)"
  obtains i r where "newID raw = Some i" "normalize up req = Inr r" "h = fingerprint sha r" "fresh_delivery d"
    "ID d = i" "IdempotencyKey d = reqIdempotencyKey r" "TargetURL d = reqTargetURL r" "Method d = reqMethod r"
    "Headers d = reqHeaders r" "Body d = reqBody r" "MaxAttempts d = reqMaxAttempts r" "CreatedAt d = now"
    "request_ok up r"
proof -
  obtain r i where r: "normalize up req = Inr r" "newID raw = Some i" "h = fingerprint sha r"
    "d = \<lparr>ID = i, IdempotencyKey = reqIdempotencyKey r, TargetURL = reqTargetURL r,
       Method = reqMethod r, Headers = reqHeaders r, Body = reqBody r, Status = StatusPending, Attempts = 0,
       MaxAttempts = reqMaxAttempts r, NextAttemptAt = now, LeaseUntil = zero_time, LastError = [],
       LastResponseCode = 0, CreatedAt = now, UpdatedAt = now\<rparr>"
    using assms by (auto simp: New_def split: sum.splits option.splits)
  have "request_ok up r"
    using normalize_request_ok(1) [OF r(1)] .
  then show ?thesis
    using r by (intro that [of i r]) (simp_all add: fresh_delivery_def request_ok_def)
qed

lemma Create_cases:
  assumes "Create up sha raw req now s w = (r, s', w')"
  obtains (rejected) e where "New up sha raw req now = Inl e" "r = Inl (Rejected e)" "s' = s" "w' = w"
  | (conflict) d h i where "New up sha raw req now = Inr (d, h)" "IdempotencyKey d \<noteq> []"
      "map_of (keyToID s) (IdempotencyKey d) = Some i" "lookup_or [] (hashes s) i \<noteq> h"
      "r = Inl ErrIdempotencyConflict" "s' = s" "w' = w"
  | (existing) d h i where "New up sha raw req now = Inr (d, h)" "IdempotencyKey d \<noteq> []"
      "map_of (keyToID s) (IdempotencyKey d) = Some i" "lookup_or [] (hashes s) i = h"
      "r = Inr (Clone (lookup_or zero_delivery (items s) i), False)" "s' = s" "w' = w"
  | (refused) d h e where "New up sha raw req now = Inr (d, h)"
      "IdempotencyKey d \<noteq> [] \<Longrightarrow> map_of (keyToID s) (IdempotencyKey d) = None"
      "checkAdmissionLocked d h s w = (Some e, s', w')" "r = Inl e"
  | (failed) d h e w1 where "New up sha raw req now = Inr (d, h)"
      "IdempotencyKey d \<noteq> [] \<Longrightarrow> map_of (keyToID s) (IdempotencyKey d) = None"
      "checkAdmissionLocked d h s w = (None, s, w1)" "appendLocked d h s w1 = (Some e, s', w')" "r = Inl e"
  | (created) d h w1 s2 where "New up sha raw req now = Inr (d, h)"
      "IdempotencyKey d \<noteq> [] \<Longrightarrow> map_of (keyToID s) (IdempotencyKey d) = None"
      "checkAdmissionLocked d h s w = (None, s, w1)" "appendLocked d h s w1 = (None, s2, w')"
      "r = Inr (Clone d, True)" "s' = setLocked d h s2" "view s' = setLocked d h (view s)"
proof (cases "New up sha raw req now")
  case (Inl e)
  with assms show ?thesis
    by (intro rejected [of e]) (auto simp: Create_def)
next
  case (Inr dh)
  then obtain d h where d: "New up sha raw req now = Inr (d, h)"
    by (cases dh) auto
  show ?thesis
  proof (cases "IdempotencyKey d \<noteq> [] \<and> map_of (keyToID s) (IdempotencyKey d) \<noteq> None")
    case True
    then obtain i where "map_of (keyToID s) (IdempotencyKey d) = Some i" "IdempotencyKey d \<noteq> []"
      by auto
    with assms d show ?thesis
      by (cases "lookup_or [] (hashes s) i = h") (auto simp: Create_def intro: conflict existing)
  next
    case False
    then have k: "(if IdempotencyKey d \<noteq> [] then map_of (keyToID s) (IdempotencyKey d) else None) = None"
      by auto
    obtain a s1 w1 where a: "checkAdmissionLocked d h s w = (a, s1, w1)"
      by (cases "checkAdmissionLocked d h s w") auto
    show ?thesis
    proof (cases a)
      case (Some e)
      with assms d k a False show ?thesis
        by (intro refused [of d h e]) (auto simp: Create_def)
    next
      case None
      then have s1: "s1 = s"
        using admission_cases(2) [OF a] by simp
      obtain b s2 w2 where b: "appendLocked d h s w1 = (b, s2, w2)"
        by (cases "appendLocked d h s w1") auto
      show ?thesis
      proof (cases b)
        case (Some e)
        with assms d k a b None s1 False show ?thesis
          by (intro failed [of d h w1 e]) (auto simp: Create_def)
      next
        case None
        with assms d k a b \<open>a = None\<close> s1 have "r = Inr (Clone d, True)" "s' = setLocked d h s2" "w' = w2"
          by (auto simp: Create_def)
        moreover from this(2) have "view s' = setLocked d h (view s)"
          using append_frame(1) [OF b] by simp
        ultimately show ?thesis
          using d a b None \<open>a = None\<close> s1 False by (intro created [of d h w1 s2]) auto
      qed
    qed
  qed
qed

lemma Create_steps:
  assumes "Create up sha raw req now s w = (r, s', w')" "tables_ok s"
    "\<And>i. newID raw = Some i \<Longrightarrow> i \<noteq> [] \<and> map_of (items s) i = None"
  shows "steps (view s) (view s')"
  using assms(1)
proof (cases rule: Create_cases)
  case (refused d h e)
  then show ?thesis
    using admission_cases(1) by (metis rtranclp.rtrancl_refl)
next
  case (failed d h w1 e)
  then show ?thesis
    using append_frame(1) by (metis rtranclp.rtrancl_refl)
next
  case (created d h w1 s2)
  from created(1) obtain i where i: "newID raw = Some i" "ID d = i" "fresh_delivery d"
    by (rule New_cases)
  have "map_of (keyToID s) (IdempotencyKey d) = None"
    using created(2) tables_okD(8) [OF assms(2), of "[]"] by (cases "map_of (keyToID s) []") fastforce+
  then have "step (view s) (view s')"
    unfolding created(7) using i assms(3) by (intro step.created) auto
  then show ?thesis ..
qed simp_all

lemma persist_steps:
  assumes "persistLocked e s w = (r, s', w')" "map_of (items s) i = Some d" "evolves d e" "tables_ok s"
  shows "steps (view s) (view s')" "r = None \<Longrightarrow> step (view s) (view s')"
proof -
  have i: "ID e = i"
    using update_ok(2) [OF assms(4,2) evolves_identity [OF assms(3)]] .
  have "step (view s) (view s') \<and> r = None \<or> view s' = view s \<and> r \<noteq> None"
    using assms(1)
  proof (cases rule: persist_cases)
    case (stored s1)
    then show ?thesis
      using evolves_step [of "view s" i d e] assms(2,3) i by simp
  qed simp
  then show "steps (view s) (view s')" "r = None \<Longrightarrow> step (view s) (view s')"
    by auto
qed

lemma persist_return_steps:
  assumes "persist_return e s w = (r, s', w')" "map_of (items s) i = Some d" "evolves d e" "tables_ok s"
  shows "steps (view s) (view s')"
  using assms by (auto simp: persist_return_def split: option.splits prod.splits dest: persist_steps(1))

lemma lease_cases [case_names missing stale current]:
  assumes "map_of (items s) i = None \<Longrightarrow> currentLeaseLocked i att s = Inl ErrNotFound \<Longrightarrow> P"
    "\<And>d. map_of (items s) i = Some d \<Longrightarrow> Status d \<noteq> StatusInFlight \<or> Attempts d \<noteq> att \<Longrightarrow>
       currentLeaseLocked i att s = Inl ErrStaleLease \<Longrightarrow> P"
    "\<And>d. map_of (items s) i = Some d \<Longrightarrow> Status d = StatusInFlight \<Longrightarrow> Attempts d = att \<Longrightarrow>
       currentLeaseLocked i att s = Inr d \<Longrightarrow> P"
  shows P
  using assms by (cases "map_of (items s) i") (auto simp: currentLeaseLocked_def split: if_splits)

lemma Succeed_steps:
  assumes "Succeed i att code now s w = (r, s', w')" "tables_ok s"
  shows "steps (view s) (view s')"
proof (cases rule: lease_cases [of s i att])
  case (current d)
  then have "persistLocked (succeeded_item code now d) s w = (r, s', w')"
    using assms(1) by (simp add: Succeed_def)
  then show ?thesis
    using current(1) evolves.succeed [OF current(2)] assms(2) by (rule persist_steps(1))
qed (use assms in \<open>simp_all add: Succeed_def\<close>)

lemma Fail_steps:
  assumes "Fail i att code msg nxt terminal now s w = (r, s', w')" "tables_ok s"
  shows "steps (view s) (view s')"
proof (cases rule: lease_cases [of s i att])
  case (current d)
  then have "persistLocked (failed_item code msg nxt terminal now d) s w = (r, s', w')"
    using assms(1) by (simp add: Fail_def)
  then show ?thesis
    using current(1) evolves.fail [OF current(2)] assms(2) by (rule persist_steps(1))
qed (use assms in \<open>simp_all add: Fail_def\<close>)

lemma Cancel_steps:
  assumes "Cancel i now s w = (r, s', w')" "tables_ok s"
  shows "steps (view s) (view s')"
  using assms persist_return_steps [OF _ _ evolves.cancel assms(2)]
  by (auto simp: Cancel_def split: option.splits if_splits)

lemma Retry_steps:
  assumes "Retry i now s w = (r, s', w')" "tables_ok s"
  shows "steps (view s) (view s')"
  using assms persist_return_steps [OF _ _ evolves.retry assms(2)]
  by (auto simp: Retry_def split: option.splits if_splits)

text \<open>Claims: the maps after the first \<open>k\<close> candidates have been stored.\<close>

definition claim_view :: "int \<Rightarrow> int \<Rightarrow> Delivery list \<Rightarrow> tables \<Rightarrow> tables" where
  "claim_view now lease cs t =
     fold (\<lambda>c t. setLocked (claim_item now lease c) (lookup_or [] (hashes t) (ID c)) t) cs t"

lemma claim_view_simps [simp]:
  "claim_view now lease [] t = t"
  "claim_view now lease (c # cs) t =
     claim_view now lease cs (setLocked (claim_item now lease c) (lookup_or [] (hashes t) (ID c)) t)"
  by (simp_all add: claim_view_def)

lemma ID_claim [simp]: "ID (claim_item now lease c) = ID c"
  by (simp add: claim_item_def)

lemma claim_loop_view:
  assumes "claim_loop now lease cs claimed s w = ((cl, err), s', w')"
  shows "\<exists>k. k \<le> length cs \<and> cl = claimed @ List.map (\<lambda>c. Clone (claim_item now lease c)) (take k cs) \<and>
     view s' = claim_view now lease (take k cs) (view s) \<and> (err = None \<longleftrightarrow> k = length cs)"
  using assms
proof (induction cs arbitrary: claimed s w)
  case (Cons c cs)
  let ?e = "claim_item now lease c" and ?h = "lookup_or [] (hashes s) (ID c)"
  obtain b s1 w1 where b: "appendLocked ?e ?h s w = (b, s1, w1)"
    by (cases "appendLocked ?e ?h s w") auto
  show ?case
  proof (cases b)
    case None
    then have "claim_loop now lease cs (claimed @ [Clone ?e]) (setLocked ?e ?h s1) w1 = ((cl, err), s', w')"
      using Cons.prems b by (simp add: Let_def)
    then obtain k where k: "k \<le> length cs"
      "cl = (claimed @ [Clone ?e]) @ List.map (\<lambda>c. Clone (claim_item now lease c)) (take k cs)"
      "view s' = claim_view now lease (take k cs) (view (setLocked ?e ?h s1))" "err = None \<longleftrightarrow> k = length cs"
      using Cons.IH by blast
    then show ?thesis
      using append_frame(1) [OF b] by (intro exI [of _ "Suc k"]) simp
  next
    case (Some e)
    then show ?thesis
      using Cons.prems b append_frame(1) [OF b] by (intro exI [of _ 0]) (auto simp: Let_def)
  qed
qed auto

lemma claim_view_steps:
  assumes "tables_ok t" "distinct (List.map ID cs)" "\<forall>c \<in> set cs. map_of (items t) (ID c) = Some c \<and> due now c"
  shows "steps t (claim_view now lease cs t)"
  using assms
proof (induction cs arbitrary: t)
  case (Cons c cs)
  let ?u = "setLocked (claim_item now lease c) (lookup_or [] (hashes t) (ID c)) t"
  have st: "step t ?u"
    using Cons.prems by (intro step.claimed) auto
  moreover have "steps ?u (claim_view now lease cs ?u)"
  proof (rule Cons.IH)
    show "tables_ok ?u"
      using st Cons.prems(1) by (rule step_tables_ok)
    show "\<forall>e \<in> set cs. map_of (items ?u) (ID e) = Some e \<and> due now e"
    proof
      fix e assume e: "e \<in> set cs"
      then have "ID e \<in> ID ` set cs"
        by simp
      then have "ID e \<noteq> ID c"
        using Cons.prems(2) by (simp only: list.map distinct.simps list.set_map) metis
      with e Cons.prems(3) show "map_of (items ?u) (ID e) = Some e \<and> due now e"
        by (simp add: map_of_setLocked)
    qed
  qed (use Cons.prems in simp)
  ultimately show ?case
    by (simp add: converse_rtranclp_into_rtranclp)
qed simp

lemma items_distinct:
  assumes "tables_ok s"
  shows "distinct (List.map ID (List.map snd (items s)))"
    "d \<in> set (List.map snd (items s)) \<Longrightarrow> map_of (items s) (ID d) = Some d"
proof -
  have "ID (snd x) = fst x" if "x \<in> set (items s)" for x
    using that tables_okD(5) [OF assms, of "fst x" "snd x"] gomap_ok_mem [OF tables_okD(1) [OF assms], of "fst x" "snd x"]
    by simp
  then have eq: "List.map ID (List.map snd (items s)) = List.map fst (items s)"
    by simp
  show "distinct (List.map ID (List.map snd (items s)))"
    using tables_okD(1) [OF assms] by (simp only: eq gomap_ok_def)
  show "d \<in> set (List.map snd (items s)) \<Longrightarrow> map_of (items s) (ID d) = Some d"
    using items_value [OF assms, of d] by simp
qed

lemma candidates_facts:
  assumes "tables_ok s"
  shows "distinct (List.map ID (candidates now eligible n s))"
    "\<forall>c \<in> set (candidates now eligible n s). map_of (items s) (ID c) = Some c \<and> due now c \<and> eligible (Clone c)"
    "length (candidates now eligible n s) \<le> n"
proof -
  let ?all = "filter (\<lambda>d. due now d \<and> eligible (Clone d)) (List.map snd (items s))"
  have "distinct (List.map ID ?all)"
    using items_distinct(1) [OF assms] by (rule distinct_map_filter)
  then have "distinct (List.map ID (sort_by claim_before ?all))"
    by (metis mset_map mset_sort_by mset_eq_imp_distinct_iff)
  then show "distinct (List.map ID (candidates now eligible n s))"
    by (simp add: candidates_def flip: take_map)
  show "\<forall>c \<in> set (candidates now eligible n s). map_of (items s) (ID c) = Some c \<and> due now c \<and> eligible (Clone c)"
    using items_distinct(2) [OF assms] by (auto simp: candidates_def dest!: in_set_takeD)
  show "length (candidates now eligible n s) \<le> n"
    by (simp add: candidates_def)
qed

lemma Claim_steps:
  assumes "ClaimDueMatching now lease limit eligible s w = ((cl, err), s', w')" "tables_ok s"
  shows "steps (view s) (view s')"
proof (cases "limit < 1")
  case True
  with assms show ?thesis
    by (simp add: ClaimDueMatching_def)
next
  case False
  let ?cs = "candidates now eligible (nat limit) s"
  have "claim_loop now lease ?cs [] s w = ((cl, err), s', w')"
    using assms False by (simp add: ClaimDueMatching_def)
  then obtain k where k: "view s' = claim_view now lease (take k ?cs) (view s)"
    using claim_loop_view by blast
  have "steps (view s) (claim_view now lease (take k ?cs) (view s))"
  proof (rule claim_view_steps)
    show "distinct (List.map ID (take k ?cs))"
      using candidates_facts(1) [OF assms(2)] by (simp flip: take_map)
    show "\<forall>c \<in> set (take k ?cs). map_of (items (view s)) (ID c) = Some c \<and> due now c"
      using candidates_facts(2) [OF assms(2)] by (auto dest: in_set_takeD)
  qed (use assms in simp)
  then show ?thesis
    by (simp add: k)
qed

lemma delete_steps:
  "\<forall>i \<in> set ids. \<exists>d. map_of (items t) i = Some d \<and> terminal_status (Status d) \<Longrightarrow> distinct ids \<Longrightarrow>
     steps t (fold deleteLocked ids t)"
proof (induction ids arbitrary: t)
  case (Cons i ids)
  then have "step t (deleteLocked i t)"
    by (auto intro: step.pruned)
  moreover have "steps (deleteLocked i t) (fold deleteLocked ids (deleteLocked i t))"
    using Cons.prems by (intro Cons.IH) (auto simp: map_of_deleteLocked)
  ultimately show ?case
    by (simp add: converse_rtranclp_into_rtranclp)
qed simp

lemma prune_ids_facts:
  assumes "tables_ok s"
  shows "distinct (prune_ids before s)"
    "i \<in> set (prune_ids before s) \<longleftrightarrow> (\<exists>d. map_of (items s) i = Some d \<and> prunable before d)"
proof -
  show "distinct (prune_ids before s)"
    using tables_okD(1) [OF assms] by (simp add: prune_ids_def gomap_ok_def distinct_map_filter)
  show "i \<in> set (prune_ids before s) \<longleftrightarrow> (\<exists>d. map_of (items s) i = Some d \<and> prunable before d)"
    using gomap_ok_mem [OF tables_okD(1) [OF assms]] by (force simp: prune_ids_def)
qed

lemma Prune_cases:
  assumes "PruneTerminal before s w = ((n, r), s', w')"
  obtains (none) "prune_ids before s = []" "n = 0" "r = None" "s' = s" "w' = w"
  | (failed) e where "prune_ids before s \<noteq> []" "n = 0" "r = Some e"
      "appendDataLocked (concat (List.map deleteRecord (prune_ids before s))) (word_of_nat (length (prune_ids before s))) s w =
        (Some e, s', w')"
  | (pruned) s1 where "prune_ids before s \<noteq> []" "n = length (prune_ids before s)" "r = None"
      "appendDataLocked (concat (List.map deleteRecord (prune_ids before s))) (word_of_nat (length (prune_ids before s))) s w =
        (None, s1, w')"
      "s' = (fold deleteLocked (prune_ids before s) s1)\<lparr>prunedDeliveries := prunedDeliveries (fold deleteLocked (prune_ids before s) s1)
         + word_of_nat (length (prune_ids before s))\<rparr>"
      "view s' = fold deleteLocked (prune_ids before s) (view s)"
proof (cases "prune_ids before s = []")
  case True
  with assms show ?thesis
    by (intro none) (auto simp: PruneTerminal_def)
next
  case False
  let ?ids = "prune_ids before s"
  obtain b s1 w1 where b: "appendDataLocked (concat (List.map deleteRecord ?ids)) (word_of_nat (length ?ids)) s w = (b, s1, w1)"
    by (cases "appendDataLocked (concat (List.map deleteRecord ?ids)) (word_of_nat (length ?ids)) s w") auto
  show ?thesis
  proof (cases b)
    case None
    with assms False b appendData_frame(1) [OF b] show ?thesis
      by (intro pruned [of s1]) (auto simp: PruneTerminal_def Let_def)
  next
    case (Some e)
    with assms False b show ?thesis
      by (intro failed [of e]) (auto simp: PruneTerminal_def)
  qed
qed

lemma Prune_steps:
  assumes "PruneTerminal before s w = ((n, r), s', w')" "tables_ok s"
  shows "steps (view s) (view s')"
  using assms(1)
proof (cases rule: Prune_cases)
  case (failed e)
  then show ?thesis
    using appendData_frame(1) by (metis rtranclp.rtrancl_refl)
next
  case (pruned s1)
  have "\<forall>i \<in> set (prune_ids before s). \<exists>d. map_of (items (view s)) i = Some d \<and> terminal_status (Status d)"
    using prune_ids_facts(2) [OF assms(2)] by (auto simp: prunable_def)
  then have "steps (view s) (fold deleteLocked (prune_ids before s) (view s))"
    using prune_ids_facts(1) [OF assms(2)] by (rule delete_steps)
  then show ?thesis
    by (simp only: pruned(6))
qed simp

lemma adopt_frame:
  assumes "adoptCompactedLocked f n s w = (es, s', w')"
  shows "view s' = view s" "journalFile s' = Some f" "records s' = n" "persistenceErr s' = persistenceErr s"
    "prunedDeliveries s' = prunedDeliveries s" "w' = snd (attempt w)" "compactionHook s' = compactionHook s"
  using assms by (auto simp: adoptCompactedLocked_def split: prod.splits)

lemma compact_adopt_view:
  assumes "compact_adopt f n s w = (r, s', w')"
  shows "view s' = view s" "journalFile s' = Some f" "prunedDeliveries s' = prunedDeliveries s"
  using assms
  by (auto simp: compact_adopt_def failPersistenceLocked_def Let_def adopt_frame
      split: prod.splits option.splits if_splits dest: adopt_frame)

lemma Compact_view:
  assumes "Compact s w = (r, s', w')"
  shows "view s' = view s" "prunedDeliveries s' = prunedDeliveries s"
  using assms
  by (auto simp: Compact_def compact_body_def split: prod.splits option.splits if_splits dest: compact_adopt_view)

theorem run_op_steps:
  assumes "run_op up sha x s w = (s', w')" "tables_ok s" "fresh_id x s"
  shows "steps (view s) (view s')"
proof (cases x)
  case (OpCreate raw req now)
  then obtain r where "Create up sha raw req now s w = (r, s', w')"
    using assms(1) by (cases "Create up sha raw req now s w") auto
  then show ?thesis
    using assms(2,3) OpCreate by (intro Create_steps) (auto simp: fresh_id_def)
next
  case (OpClaim now lease limit eligible)
  then obtain cl err where "ClaimDueMatching now lease limit eligible s w = ((cl, err), s', w')"
    using assms(1) by (cases "ClaimDueMatching now lease limit eligible s w") auto
  then show ?thesis
    using assms(2) by (rule Claim_steps)
next
  case (OpPrune before)
  then obtain n r where "PruneTerminal before s w = ((n, r), s', w')"
    using assms(1) by (cases "PruneTerminal before s w") auto
  then show ?thesis
    using assms(2) by (rule Prune_steps)
next
  case OpCompact
  then obtain r where "Compact s w = (r, s', w')"
    using assms(1) by (cases "Compact s w") auto
  then have "view s' = view s"
    by (rule Compact_view)
  then show ?thesis
    by simp
next
  case (OpSucceed i att code now)
  then obtain r where "Succeed i att code now s w = (r, s', w')"
    using assms(1) by (cases "Succeed i att code now s w") auto
  then show ?thesis
    using assms(2) by (rule Succeed_steps)
next
  case (OpFail i att code msg nxt terminal now)
  then obtain r where "Fail i att code msg nxt terminal now s w = (r, s', w')"
    using assms(1) by (cases "Fail i att code msg nxt terminal now s w") auto
  then show ?thesis
    using assms(2) by (rule Fail_steps)
next
  case (OpCancel i now)
  then obtain r where "Cancel i now s w = (r, s', w')"
    using assms(1) by (cases "Cancel i now s w") auto
  then show ?thesis
    using assms(2) by (rule Cancel_steps)
next
  case (OpRetry i now)
  then obtain r where "Retry i now s w = (r, s', w')"
    using assms(1) by (cases "Retry i now s w") auto
  then show ?thesis
    using assms(2) by (rule Retry_steps)
qed

subsection \<open>Invariants of a delivery\<close>

definition delivery_ok :: "Delivery \<Rightarrow> bool" where
  "delivery_ok d \<longleftrightarrow>
     Status d \<in> {StatusPending, StatusInFlight, StatusSucceeded, StatusFailed, StatusCanceled} \<and>
     (Status d \<noteq> StatusInFlight \<longrightarrow> LeaseUntil d = zero_time) \<and>
     (terminal_status (Status d) \<longrightarrow> NextAttemptAt d = zero_time) \<and>
     0 \<le> Attempts d \<and> (Status d = StatusInFlight \<longrightarrow> 1 \<le> Attempts d) \<and>
     1 \<le> MaxAttempts d \<and> MaxAttempts d \<le> 100"

lemma fresh_delivery_ok: "fresh_delivery d \<Longrightarrow> delivery_ok d"
  by (simp add: fresh_delivery_def delivery_ok_def terminal_status_def)

lemma due_status: "due now d \<Longrightarrow> Status d = StatusPending \<or> Status d = StatusInFlight"
  by (auto simp: due_def)

lemma evolves_ok: "evolves d e \<Longrightarrow> delivery_ok d \<Longrightarrow> delivery_ok e"
  by (induction rule: evolves.induct)
    (auto simp: delivery_ok_def claim_item_def succeeded_item_def failed_item_def canceled_item_def
      retried_item_def terminal_status_def Let_def)

definition deliveries_ok :: "'a tables_scheme \<Rightarrow> bool" where
  "deliveries_ok t \<longleftrightarrow> (\<forall>i d. map_of (items t) i = Some d \<longrightarrow> delivery_ok d)"

lemma delivery_ok_Clone [simp]: "delivery_ok (Clone d) = delivery_ok d"
  by (simp add: delivery_ok_def)

lemma step_deliveries_ok:
  assumes "step t u" "deliveries_ok t"
  shows "deliveries_ok u"
  using assms(1)
proof (cases rule: step_update)
  case (new d h)
  with assms(2) show ?thesis
    by (auto simp: deliveries_ok_def map_of_setLocked fresh_delivery_ok)
next
  case (update i d e)
  moreover have "delivery_ok e"
    using assms(2) update by (auto simp: deliveries_ok_def intro: evolves_ok)
  ultimately show ?thesis
    using assms(2) by (auto simp: deliveries_ok_def map_of_setLocked)
next
  case (gone i d)
  with assms(2) show ?thesis
    by (auto simp: deliveries_ok_def map_of_deleteLocked)
qed

lemma steps_deliveries_ok: "steps t u \<Longrightarrow> deliveries_ok t \<Longrightarrow> deliveries_ok u"
  by (induction rule: rtranclp_induct) (auto intro: step_deliveries_ok)

subsection \<open>Which status follows which\<close>

inductive follows :: "Status option \<Rightarrow> Status option \<Rightarrow> bool" where
  "follows None (Some StatusPending)"
| "follows (Some StatusPending) (Some StatusInFlight)"
| "follows (Some StatusPending) (Some StatusCanceled)"
| "follows (Some StatusInFlight) (Some StatusInFlight)"
| "follows (Some StatusInFlight) (Some StatusSucceeded)"
| "follows (Some StatusInFlight) (Some StatusFailed)"
| "follows (Some StatusInFlight) (Some StatusPending)"
| "follows (Some StatusInFlight) (Some StatusCanceled)"
| "follows (Some StatusFailed) (Some StatusPending)"
| "terminal_status st \<Longrightarrow> follows (Some st) None"

inductive_simps follows_final: "follows (Some StatusSucceeded) st" "follows (Some StatusCanceled) st"

definition status_at :: "'a tables_scheme \<Rightarrow> bytes \<Rightarrow> Status option" where
  "status_at t i = map_option Status (map_of (items t) i)"

lemma evolves_follows: "evolves d e \<Longrightarrow> follows (Some (Status d)) (Some (Status e))"
proof (induction rule: evolves.induct)
  case (claim now d lease)
  then show ?case
    using due_status [of now d] by (auto simp: claim_item_def intro: follows.intros)
qed (auto simp: succeeded_item_def failed_item_def canceled_item_def retried_item_def Let_def intro: follows.intros)

lemma step_follows:
  assumes "step t u" "tables_ok t"
  shows "status_at u i = status_at t i \<or> follows (status_at t i) (status_at u i)"
  using assms(1)
proof (cases rule: step_update)
  case (new d h)
  then show ?thesis
    by (auto simp: status_at_def map_of_setLocked fresh_delivery_def intro: follows.intros)
next
  case (update j d e)
  then have "ID e = j"
    using update_ok(2) [OF assms(2)] evolves_identity by blast
  then show ?thesis
    using update evolves_follows by (auto simp: status_at_def map_of_setLocked)
next
  case (gone j d)
  then show ?thesis
    by (auto simp: status_at_def map_of_deleteLocked intro: follows.intros)
qed

lemma steps_follow:
  "steps t u \<Longrightarrow> tables_ok t \<Longrightarrow> follows\<^sup>*\<^sup>* (status_at t i) (status_at u i)"
proof (induction rule: rtranclp_induct)
  case (step u v)
  then have "tables_ok u"
    using steps_tables_ok by blast
  then have "status_at v i = status_at u i \<or> follows (status_at u i) (status_at v i)"
    using step.hyps(2) by (intro step_follows)
  with step show ?case
    by (metis rtranclp.rtrancl_into_rtrancl)
qed simp

text \<open>What a delivery is never changes while it is stored.\<close>

lemma step_identity:
  assumes "step t u" "tables_ok t" "map_of (items t) i = Some d" "map_of (items u) i = Some e"
  shows "same_identity d e"
  using assms(1)
proof (cases rule: step_update)
  case (new d' h)
  with assms(3,4) show ?thesis
    by (auto simp: map_of_setLocked split: if_splits)
next
  case (update j d' e')
  then have "ID e' = j" "Clone e' = e'"
    using update_ok(2,4) [OF assms(2)] evolves_identity by blast+
  then show ?thesis
    using update assms(3,4) evolves_identity by (auto simp: map_of_setLocked split: if_splits)
next
  case (gone j d')
  with assms(3,4) show ?thesis
    by (auto simp: map_of_deleteLocked split: if_splits)
qed

end
