(* ===== verification/Scheduling.thy ===== *)
theory Scheduling
  imports Lifecycle
begin

section \<open>The order of claims and of listings\<close>

text \<open>
  The two comparison functions of the store order by a key, in the linear order of
  \<open>due_key\<close>. Identifiers are part of it, so that the deliveries of a store have distinct
  keys: what is claimed or listed does not depend on the iteration order of the map nor on
  the algorithm of \<open>sort.Slice\<close>.
\<close>

subsection \<open>Keys\<close>

datatype due_key = DueKey (due_at: int) (due_created: int) (due_id: bytes)

instantiation due_key :: linorder
begin

definition less_due_key :: "due_key \<Rightarrow> due_key \<Rightarrow> bool" where
  "less_due_key a b \<longleftrightarrow>
     due_at a < due_at b \<or>
     due_at a = due_at b \<and> (due_created a < due_created b \<or> due_created a = due_created b \<and> due_id a < due_id b)"

definition less_eq_due_key :: "due_key \<Rightarrow> due_key \<Rightarrow> bool" where
  "less_eq_due_key a b \<longleftrightarrow> a = b \<or> a < b"

instance
proof
  fix a b c :: due_key
  show "a < b \<longleftrightarrow> a \<le> b \<and> \<not> b \<le> a" "a \<le> a" "a \<le> b \<or> b \<le> a"
    by (cases a; cases b; auto simp: less_eq_due_key_def less_due_key_def)+
  show "a \<le> b \<Longrightarrow> b \<le> c \<Longrightarrow> a \<le> c" "a \<le> b \<Longrightarrow> b \<le> a \<Longrightarrow> a = b"
    by (cases a; cases b; cases c; auto simp: less_eq_due_key_def less_due_key_def)+
qed

end

definition claim_key :: "Delivery \<Rightarrow> due_key" where
  "claim_key d = DueKey (NextAttemptAt d) (CreatedAt d) (ID d)"

definition list_key :: "Delivery \<Rightarrow> due_key" where
  "list_key d = DueKey 0 (CreatedAt d) (ID d)"

lemma claim_before_key: "claim_before = (\<lambda>a b. claim_key a < claim_key b)"
  by (auto simp: claim_before_def claim_key_def less_due_key_def fun_eq_iff)

lemma list_before_key: "list_before = (\<lambda>a b. list_key a < list_key b)"
  by (auto simp: list_before_def list_key_def less_due_key_def fun_eq_iff)

lemma key_ID: "due_id (claim_key d) = ID d" "due_id (list_key d) = ID d"
  by (simp_all add: claim_key_def list_key_def)

lemma inj_keys:
  assumes "distinct (List.map ID xs)"
  shows "inj_on claim_key (set xs)" "inj_on list_key (set xs)"
proof -
  have "inj_on ID (set xs)"
    using assms by (simp add: distinct_map)
  then show "inj_on claim_key (set xs)" "inj_on list_key (set xs)"
    by (metis inj_onI inj_onD key_ID(1), metis inj_onI inj_onD key_ID(2))
qed

subsection \<open>What is due\<close>

text \<open>All deliveries a claim may choose from, in the order it chooses.\<close>

definition due_queue :: "int \<Rightarrow> (Delivery \<Rightarrow> bool) \<Rightarrow> 'a tables_scheme \<Rightarrow> Delivery list" where
  "due_queue now eligible s =
     sort_by claim_before (filter (\<lambda>item. due now item \<and> eligible (Clone item)) (List.map snd (items s)))"

lemma candidates_queue: "candidates now eligible n s = take n (due_queue now eligible s)"
  by (simp add: candidates_def due_queue_def)

lemma due_queue_facts:
  assumes "tables_ok s"
  shows "sorted (List.map claim_key (due_queue now eligible s))" "distinct (List.map ID (due_queue now eligible s))"
    "d \<in> set (due_queue now eligible s) \<longleftrightarrow> map_of (items s) (ID d) = Some d \<and> due now d \<and> eligible (Clone d)"
proof -
  let ?all = "filter (\<lambda>d. due now d \<and> eligible (Clone d)) (List.map snd (items s))"
  show "sorted (List.map claim_key (due_queue now eligible s))"
    unfolding due_queue_def claim_before_key by (rule sorted_sort_by)
  have "distinct (List.map ID ?all)"
    using items_distinct(1) [OF assms] by (rule distinct_map_filter)
  then show "distinct (List.map ID (due_queue now eligible s))"
    unfolding due_queue_def by (metis mset_map mset_sort_by mset_eq_imp_distinct_iff)
  show "d \<in> set (due_queue now eligible s) \<longleftrightarrow> map_of (items s) (ID d) = Some d \<and> due now d \<and> eligible (Clone d)"
    using items_value [OF assms, of d] by (auto simp: due_queue_def)
qed

lemma items_perm:
  assumes "tables_ok s" "tables_ok t" "map_of (items s) = map_of (items t)"
  shows "mset (List.map snd (items s)) = mset (List.map snd (items t))"
  using same_lookups_mset [of "items s" "items t"] assms tables_okD(1) by (metis mset_map)

lemma due_queue_order:
  assumes "tables_ok s" "tables_ok t" "map_of (items s) = map_of (items t)"
  shows "due_queue now eligible s = due_queue now eligible t"
  unfolding due_queue_def claim_before_key
proof (rule sort_by_perm)
  show "mset (filter (\<lambda>item. due now item \<and> eligible (Clone item)) (List.map snd (items s))) =
      mset (filter (\<lambda>item. due now item \<and> eligible (Clone item)) (List.map snd (items t)))"
    using items_perm [OF assms] by (metis mset_filter)
  show "inj_on claim_key (set (filter (\<lambda>item. due now item \<and> eligible (Clone item)) (List.map snd (items s))))"
    using items_distinct(1) [OF assms(1)] by (intro inj_keys distinct_map_filter)
qed

subsection \<open>Listings\<close>

lemma list_facts:
  assumes "tables_ok s"
  shows "sorted (List.map list_key (ListDeliveries st s))" "distinct (List.map ID (ListDeliveries st s))"
    "d \<in> set (ListDeliveries st s) \<longleftrightarrow> map_of (items s) (ID d) = Some d \<and> (st = [] \<or> Status d = st)"
proof -
  let ?all = "List.map Clone (filter (\<lambda>item. st = [] \<or> Status item = st) (List.map snd (items s)))"
  have c: "Clone d = d" if "d \<in> set (List.map snd (items s))" for d
    using items_distinct(2) [OF assms that] tables_okD(7) [OF assms] by (simp add: Clone_id)
  then have all: "?all = filter (\<lambda>item. st = [] \<or> Status item = st) (List.map snd (items s))"
    by (auto intro: map_idI)
  show "sorted (List.map list_key (ListDeliveries st s))"
    unfolding ListDeliveries_def list_before_key by (rule sorted_sort_by)
  have "distinct (List.map ID ?all)"
    unfolding all using items_distinct(1) [OF assms] by (rule distinct_map_filter)
  then show "distinct (List.map ID (ListDeliveries st s))"
    unfolding ListDeliveries_def by (metis mset_map mset_sort_by mset_eq_imp_distinct_iff)
  show "d \<in> set (ListDeliveries st s) \<longleftrightarrow> map_of (items s) (ID d) = Some d \<and> (st = [] \<or> Status d = st)"
    unfolding ListDeliveries_def set_sort_by all using items_value [OF assms, of d] by auto
qed

lemma list_order:
  assumes "tables_ok s" "tables_ok t" "map_of (items s) = map_of (items t)"
  shows "ListDeliveries st s = ListDeliveries st t"
proof -
  have d: "distinct (List.map ID (List.map Clone (filter P (List.map snd (items s)))))" for P
  proof -
    have "ID \<circ> Clone = ID"
      by (simp add: fun_eq_iff)
    then show ?thesis
      using distinct_map_filter [OF items_distinct(1) [OF assms(1)], of P] by simp
  qed
  show ?thesis
    unfolding ListDeliveries_def list_before_key
    by (intro sort_by_perm inj_keys(2) d) (simp only: mset_map [of Clone] mset_filter items_perm [OF assms])
qed

text \<open>A sorted list of deliveries with distinct identifiers is determined by what it holds.\<close>

lemma claims_after:
  assumes "tables_ok s" "candidates now eligible n s = cs" "d \<in> set (due_queue now eligible s)" "d \<notin> set cs" "c \<in> set cs"
  shows "claim_key c < claim_key d" "length cs = n"
proof -
  let ?q = "due_queue now eligible s"
  have q: "?q = take n ?q @ drop n ?q"
    by (rule append_take_drop_id [symmetric])
  have q2: "cs = take n ?q"
    using assms(2) by (simp add: candidates_queue)
  then have drop: "d \<in> set (drop n ?q)"
    using assms(3,4) q2 q by (metis UnE set_append)
  have "sorted (List.map claim_key (take n ?q) @ List.map claim_key (drop n ?q))"
    using due_queue_facts(1) [OF assms(1)] q by (metis map_append)
  then have le: "claim_key c \<le> claim_key d"
    using assms(5) q2 drop by (auto simp: sorted_append)
  have "ID c \<noteq> ID d"
    using due_queue_facts(3) [OF assms(1)] assms(3-5) q2 by (metis in_set_takeD option.inject)
  then show "claim_key c < claim_key d"
    using le by (metis key_ID(1) order_le_imp_less_or_eq)
  show "length cs = n"
    using drop q2 by (cases "n \<le> length ?q") auto
qed

end
