(* ===== verification/JournalLog.thy ===== *)
theory JournalLog
  imports Lifecycle
begin

section \<open>The journal as a log of entries\<close>

text \<open>
  The contract between the format of the journal and its reader, as a locale: an entry is
  one line, reading a line applies its entry, and a torn line at the end changes nothing
  or, if only its line break is missing, applies the entry. From it: reading any prefix of
  a log gives the state after a prefix of its entries (\<open>replay_prefix\<close>). The
  interpretation \<open>journal\<close> discharges the contract for \<open>marshalRecord\<close>, \<open>writeDeleteRecord\<close> and
  \<open>replay\<close>.
\<close>

locale line_log =
  fixes line :: "'e \<Rightarrow> bytes"
    and put :: "'e \<Rightarrow> 's \<Rightarrow> 's"
    and ok :: "'e \<Rightarrow> bool"
    and reader :: "bytes \<Rightarrow> nat \<Rightarrow> 's \<Rightarrow> 'x + 's \<times> nat"
  assumes reader_line: "ok e \<Longrightarrow> reader (line e @ rest) n s = reader rest (n + 1) (put e s)"
    and reader_empty: "reader [] n s = Inr (s, n)"
    and reader_torn: "ok e \<Longrightarrow> strict_prefix p (line e) \<Longrightarrow>
      reader p n s = Inr (s, n) \<or> reader p n s = Inr (put e s, n + 1)"
begin

definition log :: "'e list \<Rightarrow> bytes" where
  "log es = concat (List.map line es)"

lemma log_simps [simp]: "log [] = []" "log (e # es) = line e @ log es" "log (es @ fs) = log es @ log fs"
  by (simp_all add: log_def)

lemma reader_log: "list_all ok es \<Longrightarrow> reader (log es @ rest) n s = reader rest (n + length es) (fold put es s)"
  by (induction es arbitrary: n s) (simp_all add: reader_line)

lemma replay_log: "list_all ok es \<Longrightarrow> reader (log es) n s = Inr (fold put es s, n + length es)"
  using reader_log [of es "[]"] by (simp add: reader_empty)

text \<open>Any prefix of a log reads as a prefix of its entries.\<close>

lemma prefix_append_cases:
  "prefix p (x @ y) \<Longrightarrow> strict_prefix p x \<or> (\<exists>q. p = x @ q \<and> prefix q y)"
  by (metis prefix_append prefix_order.le_less append_Nil2 prefix_bot.bot_least)

lemma replay_prefix:
  assumes "list_all ok es" "prefix p (log es)"
  shows "\<exists>j \<le> length es. reader p n s = Inr (fold put (take j es) s, n + j)"
  using assms
proof (induction es arbitrary: p n s)
  case Nil
  then show ?case
    by (simp add: reader_empty)
next
  case (Cons e es)
  from Cons.prems(2) consider "strict_prefix p (line e)" | q where "p = line e @ q" "prefix q (log es)"
    using prefix_append_cases [of p "line e" "log es"] by auto
  then show ?case
  proof cases
    case 1
    then consider "reader p n s = Inr (s, n)" | "reader p n s = Inr (put e s, n + 1)"
      using reader_torn Cons.prems(1) by fastforce
    then show ?thesis
    proof cases
      case 1
      then show ?thesis by (intro exI [of _ 0]) simp
    next
      case 2
      then show ?thesis by (intro exI [of _ 1]) simp
    qed
  next
    case 2
    then obtain j where "j \<le> length es" "reader q (n + 1) (put e s) = Inr (fold put (take j es) (put e s), n + 1 + j)"
      using Cons.IH [of q "n + 1" "put e s"] Cons.prems(1) by auto
    then show ?thesis
      using 2 Cons.prems(1) by (intro exI [of _ "Suc j"]) (simp add: reader_line)
  qed
qed

text \<open>What is behind a complete log is read as a continuation of it.\<close>

lemma replay_extension:
  assumes "list_all ok es" "list_all ok fs" "prefix (log ds) p" "prefix p (log fs)" "fs = ds @ gs"
  shows "\<exists>j. length ds \<le> j \<and> j \<le> length fs \<and>
     reader (log es @ p) n s = Inr (fold put (take j fs) (fold put es s), n + length es + j)"
proof -
  obtain q where q: "p = log ds @ q"
    using assms(3) by (auto simp: prefix_def)
  then have "prefix q (log gs)"
    using assms(4,5) by simp
  then obtain j where "j \<le> length gs"
    "reader q (n + length es + length ds) (fold put ds (fold put es s)) =
       Inr (fold put (take j gs) (fold put ds (fold put es s)), n + length es + length ds + j)"
    using replay_prefix [of gs q] assms(2,5) by fastforce
  moreover have "reader (log es @ p) n s = reader q (n + length es + length ds) (fold put ds (fold put es s))"
    using assms(1,2,5) by (simp add: q reader_log)
  ultimately show ?thesis
    using assms(5) by (intro exI [of _ "length ds + j"]) simp
qed

end

subsection \<open>The entries of the store's journal\<close>

datatype entry = Put Delivery bytes | Del bytes

definition entry_text :: "entry \<Rightarrow> bytes option" where
  "entry_text e = (case e of Put d h \<Rightarrow> marshalRecord d h | Del i \<Rightarrow> Some (deleteRecord i))"

definition entry_line :: "entry \<Rightarrow> bytes" where
  "entry_line e = (case entry_text e of None \<Rightarrow> [] | Some l \<Rightarrow> l)"

text \<open>What reading an entry back does to the maps.\<close>

definition apply_entry :: "entry \<Rightarrow> 'a tables_scheme \<Rightarrow> 'a tables_scheme" where
  "apply_entry e s = (case e of Put d h \<Rightarrow> setLocked (restored d) h s | Del i \<Rightarrow> deleteLocked i s)"

definition storable :: "Delivery \<Rightarrow> bool" where
  "storable d \<longleftrightarrow> encodable d \<and> ID d \<noteq> [] \<and> is_utf8 (ID d) \<and> is_utf8 (IdempotencyKey d)"

definition entry_ok :: "entry \<Rightarrow> bool" where
  "entry_ok e \<longleftrightarrow>
     entry_text e \<noteq> None \<and>
     (case e of Put d h \<Rightarrow> storable d \<and> is_utf8 h | Del i \<Rightarrow> i \<noteq> [] \<and> is_utf8 i)"

lemma restored_simps [simp]:
  "Attempts (restored d) = Attempts d" "MaxAttempts (restored d) = MaxAttempts d"
  "NextAttemptAt (restored d) = NextAttemptAt d" "LeaseUntil (restored d) = LeaseUntil d"
  "LastResponseCode (restored d) = LastResponseCode d" "CreatedAt (restored d) = CreatedAt d"
  "UpdatedAt (restored d) = UpdatedAt d" "ID (restored d) = valid_utf8 (ID d)"
  "IdempotencyKey (restored d) = valid_utf8 (IdempotencyKey d)"
  "Headers (restored d) = restored_headers (Headers d)" "Body (restored d) = restored_body (Body d)"
  by (simp_all add: restored_def)

lemma storable_ID: "storable d \<Longrightarrow> valid_utf8 (ID d) = ID d" "storable d \<Longrightarrow> valid_utf8 (IdempotencyKey d) = IdempotencyKey d"
  by (simp_all add: storable_def is_utf8_def)

lemma entry_record:
  assumes "entry_ok e"
  obtains r t where "unmarshalRecord (entry_line e) = Some r" "\<And>n (s :: 'a tables_scheme). applyRecord r n s = Inr (apply_entry e s)"
    "entry_line e = t @ [CHR 0x0A]" "record_text t"
proof (cases e)
  case (Put d h)
  then obtain l where l: "marshalRecord d h = Some l" "storable d" "is_utf8 h"
    using assms by (auto simp: entry_ok_def entry_text_def)
  then obtain t where t: "l = t @ [CHR 0x0A]" "record_text t"
    using marshalRecord_text by (metis storable_def)
  have "valid_utf8 h = h"
    using l(3) by (simp add: is_utf8_def)
  then have "unmarshalRecord l = Some \<lparr>Version = currentJournalVersion, recDelivery = Some (restored d),
      RequestHash = h, DeletedID = []\<rparr>"
    using unmarshal_record_line [OF l(1)] l(2) by (simp add: storable_def)
  moreover have "ID d \<noteq> []"
    using l(2) by (simp add: storable_def)
  ultimately show ?thesis
    using l(1,2) Put t
    by (intro that) (auto simp: entry_line_def entry_text_def applyRecord_def apply_entry_def storable_ID
        currentJournalVersion_def)
next
  case (Del i)
  obtain t where t: "deleteRecord i = t @ [CHR 0x0A]" "record_text t"
    using deleteRecord_text by blast
  have "valid_utf8 i = i" "i \<noteq> []"
    using assms Del by (simp_all add: entry_ok_def is_utf8_def)
  then show ?thesis
    using Del t unmarshal_delete_line [of i]
    by (intro that [of "\<lparr>Version = currentJournalVersion, recDelivery = None, RequestHash = [], DeletedID = i\<rparr>"])
      (auto simp: entry_line_def entry_text_def applyRecord_def apply_entry_def currentJournalVersion_def)
qed

lemma cut_at_none: "c \<notin> set s \<Longrightarrow> cut_at c s = (s, [], False)"
proof -
  assume "c \<notin> set s"
  then have "dropWhile (\<lambda>x. x \<noteq> c) s = []"
    by (auto simp: dropWhile_eq_Nil_conv)
  then show ?thesis
    by (simp only: cut_at_def list.case)
qed

lemma cut_at_found: "c \<notin> set s \<Longrightarrow> cut_at c (s @ c # t) = (s, t, True)"
proof -
  assume "c \<notin> set s"
  then have "\<forall>x \<in> set s. x \<noteq> c"
    by auto
  then have "dropWhile (\<lambda>x. x \<noteq> c) (s @ c # t) = c # t" "takeWhile (\<lambda>x. x \<noteq> c) (s @ c # t) = s"
    by simp_all
  then show ?thesis
    by (simp add: cut_at_def)
qed

lemma replay_entry_line:
  fixes s :: "'a tables_scheme"
  assumes "entry_ok e"
  shows "replay_loop (entry_line e @ rest) n s = replay_loop rest (n + 1) (apply_entry e s)"
  using assms
proof (rule entry_record)
  fix r t
  assume r: "unmarshalRecord (entry_line e) = Some r" "\<And>n (s :: 'a tables_scheme). applyRecord r n s = Inr (apply_entry e s)"
    "entry_line e = t @ [CHR 0x0A]" "record_text t"
  then have "CHR 0x0A \<notin> set t"
    by (simp add: record_text_def)
  then show ?thesis
    using r by (subst replay_loop.simps) (simp add: cut_at_found)
qed

lemma replay_tail:
  assumes "CHR 0x0A \<notin> set p"
  shows "replay_loop p n s =
    (if p = [] then Inr (s, n)
     else case unmarshalRecord p of
       None \<Rightarrow> Inr (s, n)
     | Some r \<Rightarrow> (case applyRecord r (n + 1) s of Inl e \<Rightarrow> Inl e | Inr s' \<Rightarrow> Inr (s', n + 1)))"
  using assms by (subst replay_loop.simps) (simp add: cut_at_none)

text \<open>A complete record without its line break reads like the line.\<close>

lemma unmarshal_no_break:
  assumes "record_text t" "unmarshalRecord (t @ [CHR 0x0A]) = Some r"
  shows "unmarshalRecord t = Some r"
proof -
  have t: "json_valid t" "t \<noteq> []" "hd t = CHR ''{''" "last t = CHR ''}''"
    using assms(1) by (auto simp: record_text_def object_text_def json_valid_def)
  then have sp: "\<not> is_jspace (hd t)" "\<not> is_jspace (last t)"
    by (simp_all add: is_jspace_def)
  then have trim: "js_trim (t @ [CHR 0x0A]) = t" "js_trim t = t"
    using t(2) by (simp_all add: js_trim_ends) (simp add: js_trim_def is_jspace_def dropWhile_hd hd_rev)
  then have "object_members (t @ [CHR 0x0A]) = object_members t"
    by (simp add: object_members_def)
  then show ?thesis
    using assms(2) t(1) trim by (auto simp: unmarshalRecord_def read_struct_def split: if_splits)
qed

lemma replay_torn:
  fixes s :: "'a tables_scheme"
  assumes "entry_ok e" "strict_prefix p (entry_line e)"
  shows "replay_loop p n s = Inr (s, n) \<or> replay_loop p n s = Inr (apply_entry e s, n + 1)"
  using assms(1)
proof (rule entry_record)
  fix r t
  assume r: "unmarshalRecord (entry_line e) = Some r" "\<And>n (s :: 'a tables_scheme). applyRecord r n s = Inr (apply_entry e s)"
    "entry_line e = t @ [CHR 0x0A]" "record_text t"
  then have p: "prefix p t"
    using assms(2) by (metis prefix_snoc strict_prefixE prefix_order.less_le)
  have "CHR 0x0A \<notin> set t"
    using r(4) by (simp add: record_text_def)
  then have "CHR 0x0A \<notin> set p"
    using p set_mono_prefix by blast
  then have tail: "replay_loop p n s =
    (if p = [] then Inr (s, n)
     else case unmarshalRecord p of
       None \<Rightarrow> Inr (s, n)
     | Some r \<Rightarrow> (case applyRecord r (n + 1) s of Inl e \<Rightarrow> Inl e | Inr s' \<Rightarrow> Inr (s', n + 1)))"
    by (rule replay_tail)
  show ?thesis
  proof (cases "p = t")
    case True
    then have "unmarshalRecord p = Some r" "p \<noteq> []"
      using unmarshal_no_break [OF r(4)] r(1,3,4) by (auto simp: record_text_def)
    with tail r(2) show ?thesis
      by simp
  next
    case False
    then obtain q where "t = p @ q" "q \<noteq> []"
      using p by (auto simp: prefix_def)
    then have "\<not> json_valid p"
      using r(4) object_prefix_invalid by (auto simp: record_text_def json_valid_def)
    with tail show ?thesis
      by (simp add: invalid_line_unreadable)
  qed
qed

interpretation journal: line_log entry_line "apply_entry :: entry \<Rightarrow> Store \<Rightarrow> Store" entry_ok replay_loop
proof
  show "replay_loop [] n s = Inr (s, n)" for n and s :: Store
    by (simp add: replay_tail)
qed (rule replay_entry_line replay_torn; assumption)+

end
