(* ===== verification/Recovery.thy ===== *)
theory Recovery
  imports JournalLog
begin

section \<open>Recovery after a crash\<close>

text \<open>
  The state the journal stands for (\<open>journal_is\<close>): the file named by the journal's path
  holds, on disk, the lines of a list of entries, and those entries rebuild the store's
  maps, as \<open>restored\<close>. The lemmas follow every operation through its system calls, whatever
  their outcomes, to what a crash can leave, and then through \<open>Open\<close>.
\<close>

subsection \<open>System calls\<close>

definition same_place :: "world \<Rightarrow> world \<Rightarrow> bool" where
  "same_place w w' \<longleftrightarrow>
     base w' = base w \<and> dir w' = dir w \<and> durableEntry w' = durableEntry w \<and> flockHeld w' = flockHeld w"

lemma same_place_refl [simp, intro]: "same_place w w"
  by (simp add: same_place_def)

lemma same_place_trans: "same_place a b \<Longrightarrow> same_place b c \<Longrightarrow> same_place a c"
  by (simp add: same_place_def)

lemma attempt_frame:
  assumes "attempt w = (ok, w')"
  shows "same_place w w'" "inodes w' = inodes w"
  using assms by (auto simp: attempt_def syscall_def same_place_def split: list.splits)

lemma attempt_clean [simp]: "faults w = [] \<Longrightarrow> attempt w = (True, w)"
  by (simp add: attempt_def syscall_def)

definition on_disk :: "nat \<Rightarrow> bytes \<Rightarrow> nat \<Rightarrow> world \<Rightarrow> bool" where
  "on_disk f s k w \<longleftrightarrow>
     f < length (inodes w) \<and> idata (inodes w ! f) = s \<and> k \<le> isynced (inodes w ! f) \<and> isynced (inodes w ! f) \<le> length s"

lemma on_disk_inodes: "inodes w' = inodes w \<Longrightarrow> on_disk f s k w' = on_disk f s k w"
  by (simp add: on_disk_def)

lemma os_write_effect:
  assumes "os_write f p w = (ok, w')" "on_disk f s k w"
  obtains q where "prefix q p" "ok \<Longrightarrow> q = p" "same_place w w'" "on_disk f (s @ q) k w'"
    "length (inodes w') = length (inodes w)" "\<And>g. g \<noteq> f \<Longrightarrow> inodes w' ! g = inodes w ! g"
proof -
  obtain o1 w1 where sc: "syscall w = (o1, w1)" "same_place w w1" "inodes w1 = inodes w"
    by (cases "syscall w") (auto simp: syscall_def same_place_def split: list.splits)
  have app: "on_disk f (s @ q) k (append_inode f q w1)" "same_place w (append_inode f q w1)"
    "length (inodes (append_inode f q w1)) = length (inodes w)"
    "\<And>g. g \<noteq> f \<Longrightarrow> inodes (append_inode f q w1) ! g = inodes w ! g" for q
    using assms(2) sc(2,3) by (auto simp: append_inode_def on_disk_def same_place_def)
  show ?thesis
  proof (cases o1)
    case Success
    then show ?thesis
      using assms(1) sc(1) app by (intro that [of p]) (auto simp: os_write_def)
  next
    case (Failure n)
    then show ?thesis
      using assms(1) sc(1) app by (intro that [of "take n p"]) (auto simp: os_write_def take_is_prefix)
  qed
qed

lemma os_sync_effect:
  assumes "os_sync f w = (ok, w')" "on_disk f s k w"
  shows "same_place w w'" "on_disk f s (if ok then length s else k) w'" "length (inodes w') = length (inodes w)"
    "\<And>g. g \<noteq> f \<Longrightarrow> inodes w' ! g = inodes w ! g"
proof -
  obtain b w1 where a: "attempt w = (b, w1)"
    by (cases "attempt w") auto
  note fr = attempt_frame [OF a]
  show "same_place w w'" "on_disk f s (if ok then length s else k) w'" "length (inodes w') = length (inodes w)"
    "\<And>g. g \<noteq> f \<Longrightarrow> inodes w' ! g = inodes w ! g"
    using assms a fr by (auto simp: os_sync_def sync_inode_def on_disk_def same_place_def split: if_splits)
qed

subsection \<open>The journal of a store\<close>

definition restored_tables :: "'a tables_scheme \<Rightarrow> tables" where
  "restored_tables s =
     \<lparr>items = List.map (\<lambda>(i, d). (i, restored d)) (items s), hashes = hashes s, keyToID = keyToID s\<rparr>"

lemma map_of_restored [simp]:
  "map_of (items (restored_tables s)) i = map_option restored (map_of (items s) i)"
  "hashes (restored_tables s) = hashes s" "keyToID (restored_tables s) = keyToID s"
  by (simp_all add: restored_tables_def map_of_map)

lemma restored_tables_view [simp]: "restored_tables (view s) = restored_tables s"
  by (simp add: restored_tables_def)

definition journal_named :: "nat \<Rightarrow> world \<Rightarrow> bool" where
  "journal_named f w \<longleftrightarrow>
     journal_entry w = Some f \<and> durableEntry w = Some f \<and> gomap_ok (dir w)"

lemma journal_named_place: "same_place w w' \<Longrightarrow> journal_named f w' = journal_named f w"
  by (simp add: journal_named_def same_place_def journal_entry_def)

definition rebuilds :: "entry list \<Rightarrow> 'a tables_scheme \<Rightarrow> bool" where
  "rebuilds es s \<longleftrightarrow> list_all entry_ok es \<and> tables_eq (fold apply_entry es empty_tables) (restored_tables s)"

definition journal_is :: "Store \<Rightarrow> world \<Rightarrow> entry list \<Rightarrow> bool" where
  "journal_is s w es \<longleftrightarrow>
     (\<exists>f. journalFile s = Some f \<and> journal_named f w \<and> on_disk f (journal.log es) (length (journal.log es)) w) \<and>
     rebuilds es s"

text \<open>Everything in the store can be written to the journal and read back.\<close>

definition storables :: "'a tables_scheme \<Rightarrow> bool" where
  "storables s \<longleftrightarrow>
     (\<forall>i d. map_of (items s) i = Some d \<longrightarrow> storable d) \<and> (\<forall>i h. map_of (hashes s) i = Some h \<longrightarrow> is_utf8 h)"

lemma restored_headers_ok: "gomap_ok hs \<Longrightarrow> gomap_ok (restored_headers hs)"
  by (simp add: restored_headers_def gomap_ok_def gokeys_def comp_def)

lemma apply_put_restored:
  assumes "storable d"
  shows "tables_eq (apply_entry (Put d h) (restored_tables s)) (restored_tables (setLocked d h s))"
proof -
  have h: "gomap_ok (Headers d)" "gomap_ok (Headers (restored d))"
    using assms restored_headers_ok by (auto simp: storable_def encodable_def)
  have "ID (restored d) = ID d" "IdempotencyKey (restored d) = IdempotencyKey d"
    using storable_ID [OF assms] by simp_all
  with h show ?thesis
    by (auto simp: tables_eq_def apply_entry_def map_of_setLocked fun_eq_iff simp del: restored_simps(8,9,10))
qed

lemma apply_del_restored:
  "tables_eq (apply_entry (Del i) (restored_tables s)) (restored_tables (deleteLocked i s))"
  if "storables s"
proof (cases "map_of (items s) i")
  case None
  then have "deleteLocked i s = s" "deleteLocked i (restored_tables s) = restored_tables s"
    by (simp_all add: deleteLocked_def)
  then show ?thesis
    by (simp add: apply_entry_def)
next
  case (Some d)
  then have "IdempotencyKey (restored d) = IdempotencyKey d"
    using that storable_ID(2) by (auto simp: storables_def)
  with Some show ?thesis
    by (auto simp: tables_eq_def apply_entry_def map_of_deleteLocked lookup_or_def fun_eq_iff
        simp del: restored_simps(9))
qed

lemma apply_entry_eq: "tables_eq s t \<Longrightarrow> tables_eq (apply_entry e s) (apply_entry e t)"
  by (cases e) (auto simp: apply_entry_def intro: tables_eq_set tables_eq_delete)

lemma fold_apply_eq: "tables_eq s t \<Longrightarrow> tables_eq (fold apply_entry es s) (fold apply_entry es t)"
  by (induction es arbitrary: s t) (auto intro: apply_entry_eq)

lemma view_apply [simp]: "view (apply_entry e s) = apply_entry e (view s)"
  by (cases e) (simp_all add: apply_entry_def)

lemma view_fold_apply [simp]: "view (fold apply_entry es s) = fold apply_entry es (view s)"
  by (induction es arbitrary: s) simp_all

subsection \<open>A crash\<close>

lemma crash_inodes:
  "length (inodes (crash keep old w)) = length (inodes w)"
  "f < length (inodes w) \<Longrightarrow> inodes (crash keep old w) ! f = crash_inode (keep f) (inodes w ! f)"
  by (simp_all add: crash_def Let_def nth_enumerate_eq)

lemma crash_on_disk:
  assumes "on_disk f s k w"
  obtains p where "prefix p s" "k \<le> length p" "on_disk f p (length p) (crash keep old w)"
proof
  let ?p = "take (max (keep f) (isynced (inodes w ! f))) s"
  show "prefix ?p s"
    by (rule take_is_prefix)
  show "k \<le> length ?p" "on_disk f ?p (length ?p) (crash keep old w)"
    using assms by (auto simp: on_disk_def crash_inodes crash_inode_def Let_def)
qed

lemma crash_ready:
  "faults (crash keep old w) = []" "\<not> flockHeld (crash keep old w)" "base (crash keep old w) = base w"
  by (simp_all add: crash_def Let_def)

lemma crash_named:
  assumes "journal_named f w"
  shows "journal_named f (crash keep old w)"
  using assms by (auto simp: journal_named_def crash_def Let_def journal_entry_def map_simps gomap_ok_update)

text \<open>Between a rename and the sync of the directory the name means either file.\<close>

lemma crash_renamed:
  assumes "journal_entry w = Some g" "durableEntry w = Some f" "gomap_ok (dir w)"
  shows "journal_named (if old then f else g) (crash keep old w)"
  using assms by (auto simp: journal_named_def crash_def Let_def journal_entry_def map_simps gomap_ok_update)

subsection \<open>\<open>Open\<close> when no system call fails\<close>

lemma base_not_temp: "\<not> prefix (compactionPrefix b) b"
proof
  assume "prefix (compactionPrefix b) b"
  then have "length (compactionPrefix b) \<le> length b"
    by (rule prefix_length_le)
  then show False
    by (simp add: compactionPrefix_def)
qed

definition without_names :: "bytes list \<Rightarrow> world \<Rightarrow> world" where
  "without_names names w = w\<lparr>dir := fold AList.delete names (dir w)\<rparr>"

lemma map_of_fold_delete: "map_of (fold AList.delete names m) k = (if k \<in> set names then None else map_of m k)"
  by (induction names arbitrary: m) (auto simp: map_simps)

lemma gomap_ok_fold_delete: "gomap_ok m \<Longrightarrow> gomap_ok (fold AList.delete names m)"
  by (induction names arbitrary: m) (auto simp: gomap_ok_delete)

lemma remove_names_clean:
  assumes "faults w = []" "distinct names" "\<forall>n \<in> set names. map_of (dir w) n \<noteq> None"
  shows "remove_names names w = (None, without_names names w)"
  using assms
proof (induction names arbitrary: w)
  case (Cons n names)
  let ?w = "w\<lparr>dir := AList.delete n (dir w)\<rparr>"
  have "os_remove n w = ((True, False), ?w)"
    using Cons.prems by (auto simp: os_remove_def)
  moreover have "remove_names names ?w = (None, without_names names ?w)"
    using Cons.prems by (intro Cons.IH) (auto simp: map_simps)
  ultimately show ?case
    by (simp add: without_names_def)
qed (simp add: without_names_def)

lemma syncDirectory_clean:
  "faults w = [] \<Longrightarrow> syncDirectory w = (None, w\<lparr>durableEntry := journal_entry w\<rparr>)"
  by (simp add: syncDirectory_def os_sync_dir_def)

lemma journal_entry_durable [simp]: "journal_entry (w\<lparr>durableEntry := e\<rparr>) = journal_entry w"
  by (simp add: journal_entry_def)

lemma removeAbandoned_clean:
  assumes "faults w = []" "journal_named f w"
  obtains w' where "removeAbandonedCompactions w = (None, w')" "journal_named f w'" "inodes w' = inodes w"
    "faults w' = []" "flockHeld w' = flockHeld w" "base w' = base w" "abandoned_names w' = []"
proof -
  let ?names = "abandoned_names w" and ?v = "without_names (abandoned_names w) w"
  have ok: "gomap_ok (dir w)" "journal_entry w = Some f" "durableEntry w = Some f"
    using assms(2) by (simp_all add: journal_named_def)
  have d: "distinct ?names"
    using ok(1) by (simp add: abandoned_names_def gokeys_def gomap_ok_def)
  have m: "\<forall>n \<in> set ?names. map_of (dir w) n \<noteq> None" "base w \<notin> set ?names"
    using base_not_temp by (auto simp: abandoned_names_def split: option.splits)
  have r: "remove_names ?names w = (None, ?v)"
    using assms(1) d m(1) by (rule remove_names_clean)
  have e: "journal_entry ?v = Some f"
    using m(2) ok(2) by (simp add: journal_entry_def without_names_def map_of_fold_delete)
  have keys: "set (gokeys (fold AList.delete ?names (dir w))) = set (gokeys (dir w)) - set ?names"
  proof -
    have "n \<in> set (gokeys x) \<longleftrightarrow> map_of x n \<noteq> None" for n and x :: "(bytes, dirEntry) gomap"
      by (simp add: gokeys_def map_of_eq_None_iff)
    then show ?thesis
      by (auto simp: map_of_fold_delete split: if_splits)
  qed
  have gone: "abandoned_names (?v\<lparr>durableEntry := x\<rparr>) = []" "abandoned_names ?v = []" for x
    using keys by (auto simp: abandoned_names_def without_names_def map_of_fold_delete filter_empty_conv)
  let ?w' = "if ?names = [] then ?v else ?v\<lparr>durableEntry := journal_entry ?v\<rparr>"
  have "faults ?v = []"
    using assms(1) by (simp add: without_names_def)
  then have "removeAbandonedCompactions w = (None, ?w')"
    using assms(1) r by (simp add: removeAbandonedCompactions_def Let_def syncDirectory_clean)
  moreover have "journal_named f ?w'"
    using e ok by (simp add: journal_named_def) (simp add: without_names_def gomap_ok_fold_delete)
  moreover have "inodes ?w' = inodes w" "faults ?w' = []" "flockHeld ?w' = flockHeld w" "base ?w' = base w"
    using assms(1) by (simp_all add: without_names_def)
  moreover have "abandoned_names ?w' = []"
    using gone by (cases "?names = []") simp_all
  ultimately show thesis
    by (rule that)
qed

lemma Open_clean:
  assumes w: "faults w = []" "\<not> flockHeld w" "journal_named f w" "f < length (inodes w)" "0 \<le> limit"
    and r: "replay_loop (idata (inodes w ! f)) 0 (new_store f limit) = Inr (s, n)"
  obtains w' where "Open [limit] w = (Inr (s\<lparr>records := records s + word_of_nat n\<rparr>), w')"
    "journal_named f w'" "inodes w' = inodes w" "faults w' = []" "flockHeld w'" "base w' = base w" "abandoned_names w' = []"
proof -
  let ?w1 = "w\<lparr>flockHeld := True\<rparr>"
  have "faults ?w1 = []" "journal_named f ?w1"
    using w by (simp_all add: journal_named_def journal_entry_def)
  then obtain w2 where w2: "removeAbandonedCompactions ?w1 = (None, w2)" "journal_named f w2" "inodes w2 = inodes w"
    "faults w2 = []" "flockHeld w2" "base w2 = base w" "abandoned_names w2 = []"
    by (rule removeAbandoned_clean) simp
  have e: "map_of (dir w2) (base w2) = Some (Regular f)"
    using w2(2) by (auto simp: journal_named_def journal_entry_def split: option.splits dirEntry.splits)
  then have o: "os_open_journal w2 = (Some f, w2)"
    using w2(4) by (simp add: os_open_journal_def)
  have "replay (new_store f limit) w2 = (Inr (s\<lparr>records := records s + word_of_nat n\<rparr>), w2)"
    using r w2(3,4) w(4) by (simp add: replay_def new_store_def os_read_def file_data_def)
  then have "open_locked limit ?w1 = (Inr (s\<lparr>records := records s + word_of_nat n\<rparr>), w2)"
    using w2 e o by (simp add: open_locked_def Let_def)
  moreover have "acquireJournalLock w = (None, ?w1)"
    using w(1,2) by (simp add: acquireJournalLock_def)
  ultimately have "Open [limit] w = (Inr (s\<lparr>records := records s + word_of_nat n\<rparr>), w2)"
    using w(1,5) by (simp add: Open_def)
  with w2 show thesis
    by (intro that) simp_all
qed

end
