(* ===== verification/Durability.thy ===== *)
theory Durability
  imports Recovery
begin

section \<open>What is acknowledged survives\<close>

text \<open>
  \<open>durable s w\<close>: each file the journal's name can mean after a crash holds a log that
  rebuilds the maps of the store, followed by at most a part of the entries of one
  unacknowledged operation; and as long as no write has failed, the journal is exactly the
  log. In \<open>durable_by L\<close> the predicate \<open>L\<close> says which entries may be pending. Every operation keeps it, whatever its system calls do (\<open>durable_run_op\<close>), so
  after a crash at any point the maps are recovered (\<open>crash_recovers\<close>).
\<close>

subsection \<open>Logs that rebuild the maps\<close>

text \<open>Entries each of which is a step of the machine of theory \<open>Lifecycle\<close>.\<close>

fun legal :: "entry list \<Rightarrow> tables \<Rightarrow> bool" where
  "legal [] t = True"
| "legal (e # es) t \<longleftrightarrow> step t (apply_entry e t) \<and> legal es (apply_entry e t)"

lemma legal_steps: "legal es t \<Longrightarrow> steps t (fold apply_entry (take j es) t)"
proof (induction es arbitrary: t j)
  case (Cons e es)
  then show ?case
    by (cases j) (auto intro: converse_rtranclp_into_rtranclp)
qed simp

definition holds :: "(entry list \<Rightarrow> tables \<Rightarrow> bool) \<Rightarrow> nat \<Rightarrow> world \<Rightarrow> bool \<Rightarrow> Store \<Rightarrow> bool" where
  "holds L f w torn s \<longleftrightarrow>
     (\<exists>es gs p. rebuilds es s \<and> list_all entry_ok gs \<and> (gs = [] \<or> L gs (restored_tables s)) \<and> prefix p (journal.log gs) \<and>
        (\<not> torn \<longrightarrow> p = []) \<and> on_disk f (journal.log es @ p) (length (journal.log es)) w)"

lemma holdsI:
  assumes "rebuilds es s" "list_all entry_ok gs" "prefix p (journal.log gs)" "gs = [] \<or> L gs (restored_tables s)"
    "on_disk f (journal.log es @ p) (length (journal.log es)) w" "torn \<or> p = []"
  shows "holds L f w torn s"
  unfolding holds_def by (rule exI [of _ es], rule exI [of _ gs], rule exI [of _ p]) (use assms in auto)

lemma holds_torn: "holds L f w torn s \<Longrightarrow> holds L f w True s"
  by (auto simp: holds_def)

lemma restored_tables_cong: "view s = view t \<Longrightarrow> restored_tables s = restored_tables t"
  by (metis restored_tables_view)

lemma rebuilds_cong: "view s = view t \<Longrightarrow> rebuilds es s = rebuilds es t"
  using restored_tables_cong [of s t] by (simp add: rebuilds_def)

lemma storables_cong: "view s = view t \<Longrightarrow> storables s = storables t"
  using items_cong [of s t] by (simp add: storables_def)

lemma holds_cong:
  assumes "f < length (inodes w) \<Longrightarrow> f < length (inodes w') \<and> inodes w' ! f = inodes w ! f" "view s' = view s" "holds L f w torn s"
  shows "holds L f w' torn s'"
proof -
  have d: "on_disk f x k w \<Longrightarrow> on_disk f x k w'" for x k
    using assms(1) by (auto simp: on_disk_def)
  show ?thesis
    using assms(3) d unfolding holds_def rebuilds_cong [OF assms(2)] restored_tables_cong [OF assms(2)] by blast
qed

definition durable_by :: "(entry list \<Rightarrow> tables \<Rightarrow> bool) \<Rightarrow> Store \<Rightarrow> world \<Rightarrow> bool" where
  "durable_by L s w \<longleftrightarrow>
     tables_ok s \<and> storables s \<and> gomap_ok (dir w) \<and>
     (\<exists>f g. journal_entry w = Some f \<and> durableEntry w = Some g \<and> holds L f w True s \<and> holds L g w True s \<and>
        (persistenceErr s = None \<longrightarrow> g = f \<and> journalFile s = Some f \<and> holds L f w False s))"

abbreviation durable :: "Store \<Rightarrow> world \<Rightarrow> bool" where
  "durable \<equiv> durable_by legal"

lemmas durable_def = durable_by_def [of legal]

lemma durableE:
  assumes "durable_by L s w"
  obtains f g where "tables_ok s" "storables s" "gomap_ok (dir w)" "journal_entry w = Some f" "durableEntry w = Some g"
    "holds L f w True s" "holds L g w True s" "persistenceErr s = None \<Longrightarrow> g = f \<and> journalFile s = Some f \<and> holds L f w False s"
  using assms unfolding durable_by_def by (elim conjE exE) simp

lemma holds_disk: "holds L f w torn s \<Longrightarrow> f < length (inodes w)"
  by (auto simp: holds_def on_disk_def)

text \<open>As long as no write has failed, nothing is pending, so that any \<open>L\<close> will do.\<close>

lemma durable_clean:
  assumes "durable_by L s w" "persistenceErr s = None"
  shows "durable_by M s w"
  using assms(1)
proof (rule durableE)
  fix f g
  assume d: "tables_ok s" "storables s" "gomap_ok (dir w)" "journal_entry w = Some f" "durableEntry w = Some g"
    "persistenceErr s = None \<Longrightarrow> g = f \<and> journalFile s = Some f \<and> holds L f w False s"
  obtain es where "rebuilds es s" "on_disk f (journal.log es) (length (journal.log es)) w"
    using d(6) [OF assms(2)] by (auto simp: holds_def)
  then have "holds M f w torn s" for torn
    by (intro holdsI [of es s "[]" "[]"]) auto
  then show ?thesis
    using d(1-5) d(6) [OF assms(2)] unfolding durable_by_def by blast
qed

text \<open>
  A change of the world outside the files, and of the store outside the maps, that may
  record an error.
\<close>

lemma durable_frame:
  assumes "durable_by L s w" "view s' = view s" "base w' = base w" "journal_entry w' = journal_entry w"
    "durableEntry w' = durableEntry w" "gomap_ok (dir w) \<Longrightarrow> gomap_ok (dir w')"
    "\<And>f. f < length (inodes w) \<Longrightarrow> f < length (inodes w') \<and> inodes w' ! f = inodes w ! f"
    "persistenceErr s' = None \<Longrightarrow> persistenceErr s = None \<and> journalFile s' = journalFile s"
  shows "durable_by L s' w'"
  using assms(1)
proof (rule durableE)
  fix f g
  assume d: "tables_ok s" "storables s" "gomap_ok (dir w)" "journal_entry w = Some f" "durableEntry w = Some g"
    "holds L f w True s" "holds L g w True s" "persistenceErr s = None \<Longrightarrow> g = f \<and> journalFile s = Some f \<and> holds L f w False s"
  have h: "holds L x w torn s \<Longrightarrow> holds L x w' torn s'" for x torn
    using assms(2,7) by (intro holds_cong [of x w w' s' s]) auto
  have "tables_ok s'" "storables s'"
    using d(1,2) tables_ok_cong [OF assms(2)] storables_cong [OF assms(2)] by simp_all
  moreover have "persistenceErr s' = None \<Longrightarrow> g = f \<and> journalFile s' = Some f \<and> holds L f w' False s'"
    using assms(8) d(8) h by auto
  ultimately show ?thesis
    using d assms(4-6) h unfolding durable_by_def by (intro conjI exI [of _ f] exI [of _ g]) simp_all
qed

lemma durable_same:
  assumes "durable_by L s w" "same_place w w'" "inodes w' = inodes w" "view s' = view s"
    "persistenceErr s' = None \<Longrightarrow> persistenceErr s = None \<and> journalFile s' = journalFile s"
  shows "durable_by L s' w'"
  using assms by (intro durable_frame [OF assms(1)]) (auto simp: same_place_def journal_entry_def)

subsection \<open>An append\<close>

text \<open>The append failed: its entries are the ones that may or may not be there.\<close>

lemma append_torn:
  assumes "durable_by L s w" "appendDataLocked (journal.log gs) n s w = (Some e, s', w')"
    "list_all entry_ok gs" "L gs (restored_tables s)"
  shows "durable_by L s' w'"
  using assms(1)
proof (rule durableE)
  fix f g
  assume d: "tables_ok s" "storables s" "gomap_ok (dir w)" "journal_entry w = Some f" "durableEntry w = Some g"
    "holds L f w True s" "holds L g w True s" "persistenceErr s = None \<Longrightarrow> g = f \<and> journalFile s = Some f \<and> holds L f w False s"
  show ?thesis
  proof (cases "persistenceErr s")
    case (Some e')
    then show ?thesis
      using assms(1) appendData_frame(9) [OF assms(2) Some] by simp
  next
    case None
    then have h: "g = f" "journalFile s = Some f" "holds L f w False s"
      using d(8) by auto
    then obtain es where es: "rebuilds es s" "on_disk f (journal.log es) (length (journal.log es)) w"
      by (auto simp: holds_def)
    have v: "view s' = view s" and e: "persistenceErr s' \<noteq> None"
      using appendData_frame(1,8) [OF assms(2)] by auto
    have torn: "durable_by L s' w'"
      if "prefix q (journal.log gs)" "same_place w w'" "on_disk f (journal.log es @ q) (length (journal.log es)) w'" for q
    proof -
      have "holds L f w' True s'"
        using assms(3,4) that es rebuilds_cong [OF v] restored_tables_cong [OF v]
        by (intro holdsI [of es s' gs q]) auto
      moreover have "tables_ok s'" "storables s'"
        using d(1,2) tables_ok_cong [OF v] storables_cong [OF v] by simp_all
      moreover have "journal_entry w' = Some f" "durableEntry w' = Some f" "gomap_ok (dir w')"
        using d that(2) h by (simp_all add: same_place_def journal_entry_def)
      ultimately show ?thesis
        using e unfolding durable_by_def by auto
    qed
    show ?thesis
      using assms(2)
    proof (cases rule: appendData_cases)
      case (bad_write h')
      then show ?thesis
        using os_write_effect [of f "journal.log gs" w False w' "journal.log es"] es(2) h(2) torn by (metis option.inject)
    next
      case (bad_sync h' w1)
      then obtain q where q: "prefix q (journal.log gs)" "same_place w w1"
        "on_disk f (journal.log es @ q) (length (journal.log es)) w1"
        using os_write_effect [of f "journal.log gs" w True w1 "journal.log es"] es(2) h(2) by (metis option.inject)
      have "os_sync f w1 = (False, w')"
        using bad_sync h(2) by simp
      then show ?thesis
        using os_sync_effect(1,2) [OF _ q(3), of False w'] q torn same_place_trans by fastforce
    qed (use None h(2) in auto)
  qed
qed

text \<open>The append succeeded: the journal is the longer log.\<close>

lemma append_stored:
  assumes "durable_by L s w" "appendDataLocked (journal.log gs) n s w = (None, s1, w')" "list_all entry_ok gs"
    "tables_ok s'" "storables s'" "journalFile s' = journalFile s1"
    "tables_eq (fold apply_entry gs (restored_tables s)) (restored_tables s')"
  shows "durable_by L s' w'"
  using assms(1)
proof (rule durableE)
  fix f g
  assume d: "gomap_ok (dir w)" "journal_entry w = Some f" "durableEntry w = Some g"
    "persistenceErr s = None \<Longrightarrow> g = f \<and> journalFile s = Some f \<and> holds L f w False s"
  have "persistenceErr s = None" "journalFile s1 = journalFile s"
    using appendData_frame(2,7) [OF assms(2)] by auto
  then have h: "g = f" "journalFile s = Some f" "journalFile s1 = Some f" "holds L f w False s"
    using d(4) by auto
  then obtain es where es: "rebuilds es s" "on_disk f (journal.log es) (length (journal.log es)) w"
    by (auto simp: holds_def)
  obtain w1 where w1: "os_write f (journal.log gs) w = (True, w1)" "os_sync f w1 = (True, w')"
    using assms(2) h(2) by (cases rule: appendData_cases) auto
  obtain q where q: "q = journal.log gs" "same_place w w1"
    "on_disk f (journal.log es @ q) (length (journal.log es)) w1"
    using os_write_effect [OF w1(1) es(2)] by metis
  have y: "same_place w w'" "on_disk f (journal.log (es @ gs)) (length (journal.log (es @ gs))) w'"
    using os_sync_effect(1,2) [OF w1(2) q(3)] q(1,2) same_place_trans by auto
  have "tables_eq (fold apply_entry gs (fold apply_entry es empty_tables)) (restored_tables s')"
    using es(1) assms(7) by (auto simp: rebuilds_def intro: tables_eq_trans fold_apply_eq)
  then have "rebuilds (es @ gs) s'"
    using es(1) assms(3) by (simp add: rebuilds_def)
  then have "holds L f w' torn s'" for torn
    using y(2) by (intro holdsI [of "es @ gs" s' "[]" "[]"]) auto
  moreover have "journal_entry w' = Some f" "durableEntry w' = Some f" "gomap_ok (dir w')"
    using d y(1) h(1) by (simp_all add: same_place_def journal_entry_def)
  ultimately show ?thesis
    using assms(4-6) h(3) unfolding durable_by_def by auto
qed

subsection \<open>What the journal gives back\<close>

lemma status_utf8:
  "valid_utf8 StatusPending = StatusPending" "valid_utf8 StatusInFlight = StatusInFlight"
  "valid_utf8 StatusSucceeded = StatusSucceeded" "valid_utf8 StatusFailed = StatusFailed"
  "valid_utf8 StatusCanceled = StatusCanceled"
  by (simp_all add: StatusPending_def StatusInFlight_def StatusSucceeded_def StatusFailed_def StatusCanceled_def)

lemma Status_restored [simp]: "Status (restored d) = valid_utf8 (Status d)" "LastError (restored d) = valid_utf8 (LastError d)"
  by (simp_all add: restored_def)

lemma restored_updates [simp]:
  "restored (d\<lparr>Status := st, Attempts := n, LeaseUntil := l, UpdatedAt := u\<rparr>) =
     (restored d)\<lparr>Status := valid_utf8 st, Attempts := n, LeaseUntil := l, UpdatedAt := u\<rparr>"
  "restored (d\<lparr>Status := st, NextAttemptAt := x, LeaseUntil := l, UpdatedAt := u\<rparr>) =
     (restored d)\<lparr>Status := valid_utf8 st, NextAttemptAt := x, LeaseUntil := l, UpdatedAt := u\<rparr>"
  by (simp_all add: restored_def)

lemma restored_items:
  "restored (claim_item now lease d) = claim_item now lease (restored d)"
  "restored (succeeded_item code now d) = succeeded_item code now (restored d)"
  "restored (failed_item code msg nxt terminal now d) = failed_item code (valid_utf8 msg) nxt terminal now (restored d)"
  "restored (canceled_item now d) = canceled_item now (restored d)"
  "restored (retried_item now d) = retried_item now (restored d)"
  by (simp_all add: restored_def claim_item_def succeeded_item_def failed_item_def canceled_item_def
      retried_item_def Let_def status_utf8)

lemma due_restored: "due now d \<Longrightarrow> due now (restored d)"
  by (auto simp: due_def status_utf8)

lemma evolves_restored: "evolves d e \<Longrightarrow> evolves (restored d) (restored e)"
  by (induction rule: evolves.induct)
    (auto simp: restored_items due_restored status_utf8 intro!: evolves.intros)

lemma terminal_restored: "terminal_status st \<Longrightarrow> valid_utf8 st = st"
  by (auto simp: terminal_status_def status_utf8)

subsection \<open>The entries an operation writes are legal\<close>

lemma legal_update:
  assumes "map_of (items s) i = Some d" "evolves d e"
  shows "legal [Put e (lookup_or [] (hashes s) i)] (restored_tables s)"
  using evolves_step [OF _ evolves_restored [OF assms(2)], of "restored_tables s" i] assms(1)
  by (simp add: apply_entry_def)

lemma legal_create:
  assumes "fresh_delivery d" "ID d \<noteq> []" "map_of (items s) (ID d) = None"
    "map_of (keyToID s) (IdempotencyKey d) = None" "storable d"
  shows "legal [Put d h] (restored_tables s)"
proof -
  have "gomap_ok (Headers d)"
    using assms(1) by (simp add: fresh_delivery_def)
  then have "fresh_delivery (restored d)"
    using assms(1) by (simp add: fresh_delivery_def status_utf8 restored_headers_ok)
  then have "step (restored_tables s) (setLocked (restored d) h (restored_tables s))"
    using assms storable_ID [OF assms(5)] by (intro step.created) simp_all
  then show ?thesis
    by (simp add: apply_entry_def)
qed

lemma legal_delete:
  assumes "\<forall>i \<in> set ids. \<exists>d. map_of (items t) i = Some d \<and> terminal_status (Status d)" "distinct ids"
  shows "legal (List.map Del ids) t"
  using assms
proof (induction ids arbitrary: t)
  case (Cons i ids)
  have "legal (List.map Del ids) (deleteLocked i t)"
    using Cons.prems by (intro Cons.IH) (auto simp: map_of_deleteLocked)
  moreover have "step t (deleteLocked i t)"
    using Cons.prems by (auto intro: step.pruned)
  ultimately show ?case
    by (simp add: apply_entry_def)
qed simp

subsection \<open>Storable deliveries\<close>

lemma evolves_fields:
  assumes "evolves d e"
  shows "Attempts e \<in> {Attempts d, Attempts d + 1, 0}" "Headers e = Headers d" "Body e = Body d" "MaxAttempts e = MaxAttempts d"
    "ID e = ID d" "IdempotencyKey e = IdempotencyKey d"
  using assms
  by (induction rule: evolves.induct)
    (simp_all add: claim_item_def succeeded_item_def failed_item_def canceled_item_def retried_item_def Let_def)

lemma storable_evolves:
  assumes "storable d" "evolves d e" "int64_range (Attempts e)" "int64_range (LastResponseCode e)"
  shows "storable e"
  using assms evolves_fields [OF assms(2)] by (simp add: storable_def encodable_def)

lemma hex_ascii: "list_all is_ascii (hex_encode s)"
proof -
  have "hex_digit c \<Longrightarrow> is_ascii c" for c
    by (auto simp: hex_digit_def is_digit_def is_ascii_def)
  then show ?thesis
    using hex_encode_digits [of s] by (auto simp: list_all_iff)
qed

lemma header_ascii: "header_ok h \<Longrightarrow> is_utf8 (fst h)"
proof (rule is_utf8_ascii)
  have "method_char c \<Longrightarrow> is_ascii c" for c
    using method_char_range [of c] by (simp add: is_ascii_def)
  moreover assume "header_ok h"
  ultimately show "list_all is_ascii (fst h)"
    by (auto simp: header_ok_def validHeaderName_def validMethod_def list_all_iff)
qed

lemma storables_set:
  assumes "storables s" "storable d" "is_utf8 h"
  shows "storables (setLocked d h s)"
proof -
  have "storable (Clone d)"
    using assms(2) by (simp add: storable_def encodable_def Clone_id)
  then show ?thesis
    using assms by (auto simp: storables_def map_of_setLocked)
qed

lemma storables_delete: "storables s \<Longrightarrow> storables (deleteLocked i s)"
  by (auto simp: storables_def map_of_deleteLocked split: if_splits)

lemma storables_fold_delete: "storables s \<Longrightarrow> storables (fold deleteLocked ids s)"
  by (induction ids arbitrary: s) (auto intro: storables_delete)

lemma hash_utf8: "storables s \<Longrightarrow> is_utf8 (lookup_or [] (hashes s) i)"
  by (auto simp: storables_def lookup_or_def is_utf8_def split: option.splits)

lemma entry_ok_put: "storable d \<Longrightarrow> is_utf8 h \<Longrightarrow> marshalRecord d h = Some l \<Longrightarrow> entry_ok (Put d h) \<and> journal.log [Put d h] = l"
  by (simp add: entry_ok_def entry_text_def entry_line_def)

subsection \<open>One record\<close>

lemma durable_put:
  assumes "durable_by L s w" "storable d" "appendLocked d h s w = (r, s1, w')" "is_utf8 h" "L [Put d h] (restored_tables s)"
    "tables_ok (setLocked d h s)"
  shows "durable_by L (if r = None then setLocked d h s1 else s1) w'"
  using assms(3)
proof (cases rule: append_cases)
  case encode
  then show ?thesis
    using assms(1) by simp
next
  case (payload l)
  then have a: "appendDataLocked (journal.log [Put d h]) 1 s w = (r, s1, w')" and e: "list_all entry_ok [Put d h]"
    using entry_ok_put [OF assms(2,4)] by simp_all
  show ?thesis
  proof (cases r)
    case (Some x)
    then have "durable_by L s1 w'"
      using append_torn [OF assms(1) _ e assms(5)] a by blast
    with Some show ?thesis
      by simp
  next
    case None
    have v: "view s1 = view s"
      using appendData_frame(1) [OF a] .
    let ?s = "setLocked d h s1"
    have vs: "view ?s = view (setLocked d h s)"
      using v by simp
    have "storables s"
      using assms(1) by (simp add: durable_by_def)
    then have "tables_ok ?s" "storables ?s"
      using assms(2,4,6) tables_ok_cong [OF vs] storables_cong [OF vs] by (simp_all add: storables_set)
    moreover have "journalFile ?s = journalFile s1"
      by (simp add: setLocked_def Let_def)
    moreover have "tables_eq (fold apply_entry [Put d h] (restored_tables s)) (restored_tables ?s)"
      using apply_put_restored [OF assms(2), of h s] restored_tables_cong [OF vs] by simp
    ultimately have "durable_by L ?s w'"
      using append_stored [OF assms(1) a [unfolded None] e, of ?s] by blast
    with None show ?thesis
      by simp
  qed
qed

lemma durable_persist:
  assumes "durable s w" "persistLocked e s w = (r, s', w')" "map_of (items s) i = Some d" "evolves d e"
    "int64_range (Attempts e)" "int64_range (LastResponseCode e)"
  shows "durable s' w'"
proof -
  have ok: "tables_ok s" "storables s"
    using assms(1) by (simp_all add: durable_def)
  have i: "ID e = i"
    using update_ok(2) [OF ok(1) assms(3) evolves_identity [OF assms(4)]] .
  let ?h = "lookup_or [] (hashes s) i"
  obtain r1 s1 w1 where a: "appendLocked e ?h s w = (r1, s1, w1)"
    by (cases "appendLocked e ?h s w")
  have "storable d"
    using ok(2) assms(3) by (auto simp: storables_def)
  then have "storable e"
    using assms(4-6) by (rule storable_evolves)
  then have "durable (if r1 = None then setLocked e ?h s1 else s1) w1"
    using a by (rule durable_put [OF assms(1)])
      (rule hash_utf8 [OF ok(2)] legal_update [OF assms(3,4)] update_ok(1) [OF ok(1) assms(3) evolves_identity [OF assms(4)]])+
  then show ?thesis
    using assms(2) a i by (cases r1) (auto simp: persistLocked_def)
qed

lemma durable_persist_return:
  assumes "durable s w" "persist_return e s w = (r, s', w')" "map_of (items s) i = Some d" "evolves d e"
    "int64_range (Attempts e)" "int64_range (LastResponseCode e)"
  shows "durable s' w'"
  using assms by (auto simp: persist_return_def split: option.splits prod.splits dest: durable_persist)

subsection \<open>The operations\<close>

text \<open>
  What an operation may be given: identifiers that are not in use, keys in UTF-8, JSON
  bodies that leave room for the record around them, and 64-bit integers.
\<close>

definition inputs_ok :: "(bytes \<Rightarrow> url option) \<Rightarrow> op \<Rightarrow> Store \<Rightarrow> bool" where
  "inputs_ok up x s \<longleftrightarrow> fresh_id x s \<and>
     (case x of
        OpCreate raw req now \<Rightarrow>
          (json_valid (reqBody req) \<longrightarrow> json_valid_lim 9998 (reqBody req)) \<and> is_utf8 (trim_space (reqIdempotencyKey req))
      | OpClaim now lease limit eligible \<Rightarrow> (\<forall>i d. map_of (items s) i = Some d \<longrightarrow> int64_range (Attempts d + 1))
      | OpSucceed i att code now \<Rightarrow> int64_range code
      | OpFail i att code msg nxt terminal now \<Rightarrow> int64_range code
      | _ \<Rightarrow> True)"

lemma storables_range:
  assumes "storables s" "map_of (items s) i = Some d"
  shows "int64_range (Attempts d)" "int64_range (LastResponseCode d)" "storable d"
  using assms by (auto simp: storables_def storable_def encodable_def)

lemma durable_lease:
  assumes "durable s w" "\<And>d. currentLeaseLocked i att s = Inr d \<Longrightarrow> persistLocked (f d) s w = (r, s', w')"
    "\<And>e. currentLeaseLocked i att s = Inl e \<Longrightarrow> s' = s \<and> w' = w"
    "\<And>d. Status d = StatusInFlight \<Longrightarrow> evolves d (f d) \<and> Attempts (f d) = Attempts d \<and> LastResponseCode (f d) = code"
    "int64_range code"
  shows "durable s' w'"
proof (cases rule: lease_cases [of s i att])
  case (current d)
  have "storables s"
    using assms(1) by (simp add: durable_def)
  then show ?thesis
    using durable_persist [OF assms(1) assms(2) [OF current(4)] current(1)] assms(4) [OF current(2)] assms(5)
      storables_range(1) current(1) by auto
qed (use assms in auto)

lemma durable_Succeed:
  assumes "durable s w" "Succeed i att code now s w = (r, s', w')" "int64_range code"
  shows "durable s' w'"
  using assms
  by (intro durable_lease [OF assms(1), of i att "succeeded_item code now" r s' w' code])
    (auto simp: Succeed_def succeeded_item_def intro: evolves.succeed [unfolded succeeded_item_def])

lemma durable_Fail:
  assumes "durable s w" "Fail i att code msg nxt terminal now s w = (r, s', w')" "int64_range code"
  shows "durable s' w'"
  using assms
  by (intro durable_lease [OF assms(1), of i att "failed_item code msg nxt terminal now" r s' w' code])
    (auto simp: Fail_def intro: evolves.fail, simp_all add: failed_item_def Let_def)

lemma durable_Cancel:
  assumes "durable s w" "Cancel i now s w = (r, s', w')"
  shows "durable s' w'"
proof (cases "map_of (items s) i")
  case (Some d)
  have "storables s"
    using assms(1) by (simp add: durable_def)
  note range = storables_range [OF this Some]
  show ?thesis
  proof (cases "Status d = StatusPending \<or> Status d = StatusInFlight")
    case True
    then have "persist_return (canceled_item now d) s w = (r, s', w')"
      using assms(2) Some by (auto simp: Cancel_def)
    then show ?thesis
      by (rule durable_persist_return [OF assms(1) _ Some evolves.cancel [OF True]])
        (use range in \<open>simp_all add: canceled_item_def\<close>)
  qed (use assms Some in \<open>auto simp: Cancel_def\<close>)
qed (use assms in \<open>auto simp: Cancel_def\<close>)

lemma durable_Retry:
  assumes "durable s w" "Retry i now s w = (r, s', w')"
  shows "durable s' w'"
proof (cases "map_of (items s) i")
  case (Some d)
  show ?thesis
  proof (cases "Status d = StatusFailed")
    case True
    then have "persist_return (retried_item now d) s w = (r, s', w')"
      using assms(2) Some by (auto simp: Retry_def)
    then show ?thesis
      by (rule durable_persist_return [OF assms(1) _ Some evolves.retry [OF True]])
        (simp_all add: retried_item_def int64_range_def)
  qed (use assms Some in \<open>auto simp: Retry_def\<close>)
qed (use assms in \<open>auto simp: Retry_def\<close>)

lemma durable_claim_loop:
  assumes "durable s w" "claim_loop now lease cs claimed s w = (r, s', w')" "distinct (List.map ID cs)"
    "\<forall>c \<in> set cs. map_of (items s) (ID c) = Some c \<and> due now c \<and> int64_range (Attempts c + 1)"
  shows "durable s' w'"
  using assms
proof (induction cs arbitrary: claimed s w)
  case (Cons c cs)
  let ?e = "claim_item now lease c" and ?h = "lookup_or [] (hashes s) (ID c)"
  obtain b s1 w1 where b: "appendLocked ?e ?h s w = (b, s1, w1)"
    by (cases "appendLocked ?e ?h s w") auto
  have c: "map_of (items s) (ID c) = Some c" "evolves c ?e" "int64_range (Attempts c + 1)"
    using Cons.prems(4) evolves.claim [of now c lease] by simp_all
  have ok: "tables_ok s" "storables s"
    using Cons.prems(1) by (simp_all add: durable_def)
  have "storable ?e"
    using storables_range(3) [OF ok(2) c(1)] c(2)
    by (rule storable_evolves) (use storables_range(2) [OF ok(2) c(1)] c(3) in \<open>simp_all add: claim_item_def\<close>)
  then have d: "durable (if b = None then setLocked ?e ?h s1 else s1) w1"
    using b by (rule durable_put [OF Cons.prems(1)])
      (rule hash_utf8 [OF ok(2)] legal_update [OF c(1,2)] update_ok(1) [OF ok(1) c(1) evolves_identity [OF c(2)]])+
  show ?case
  proof (cases b)
    case (Some x)
    then show ?thesis
      using Cons.prems(2) b d by (simp add: Let_def)
  next
    case None
    have "map_of (items (setLocked ?e ?h s1)) = map_of (items (setLocked ?e ?h s))"
      using items_cong(1) [OF append_frame(1) [OF b]] by (simp add: map_of_setLocked)
    moreover have "ID x \<noteq> ID c" if "x \<in> set cs" for x
      using Cons.prems(3) that by (metis distinct.simps(2) imageI list.map(2) list.set_map)
    ultimately have rest: "\<forall>x \<in> set cs. map_of (items (setLocked ?e ?h s1)) (ID x) = Some x \<and> due now x \<and> int64_range (Attempts x + 1)"
      using Cons.prems(4) by (simp add: map_of_setLocked)
    have "claim_loop now lease cs (claimed @ [Clone ?e]) (setLocked ?e ?h s1) w1 = (r, s', w')"
      using Cons.prems(2) b None by (simp add: Let_def)
    moreover have "durable (setLocked ?e ?h s1) w1" "distinct (List.map ID cs)"
      using d None Cons.prems(3) by simp_all
    ultimately show ?thesis
      using rest by (intro Cons.IH)
  qed
qed auto

lemma durable_Claim:
  assumes "durable s w" "ClaimDueMatching now lease limit eligible s w = (r, s', w')"
    "\<forall>i d. map_of (items s) i = Some d \<longrightarrow> int64_range (Attempts d + 1)"
  shows "durable s' w'"
proof -
  have "tables_ok s"
    using assms(1) by (simp add: durable_def)
  note facts = candidates_facts [OF this, where now = now and eligible = eligible and n = "nat limit"]
  show ?thesis
    using assms(2,3) facts
    by (auto simp: ClaimDueMatching_def assms(1) split: if_splits intro!: durable_claim_loop [OF assms(1) _ facts(1)])
qed

lemma entry_line_del [simp]: "entry_line (Del i) = deleteRecord i"
  by (simp add: entry_line_def entry_text_def)

lemma log_deletes: "journal.log (List.map Del ids) = concat (List.map deleteRecord ids)"
  by (induction ids) simp_all

lemma fold_deletes: "fold apply_entry (List.map Del ids) t = fold deleteLocked ids t"
  by (induction ids arbitrary: t) (simp_all add: apply_entry_def)

lemma restored_fold_delete:
  "storables s \<Longrightarrow> tables_eq (fold deleteLocked ids (restored_tables s)) (restored_tables (fold deleteLocked ids s))"
proof (induction ids arbitrary: s)
  case (Cons i ids)
  have "tables_eq (deleteLocked i (restored_tables s)) (restored_tables (deleteLocked i s))"
    using apply_del_restored [OF Cons.prems, of i] by (simp add: apply_entry_def)
  then have "tables_eq (fold deleteLocked ids (deleteLocked i (restored_tables s)))
      (fold deleteLocked ids (restored_tables (deleteLocked i s)))"
    by (rule tables_eq_fold_delete)
  then show ?case
    using Cons.IH [OF storables_delete [OF Cons.prems]] by (auto intro: tables_eq_trans)
qed simp

lemma durable_Prune:
  assumes "durable s w" "PruneTerminal before s w = ((n, r), s', w')"
  shows "durable s' w'"
proof -
  let ?ids = "prune_ids before s"
  let ?gs = "List.map Del ?ids"
  have ok: "tables_ok s" "storables s"
    using assms(1) by (simp_all add: durable_def)
  note facts = prune_ids_facts [OF ok(1), where before = before]
  have e: "list_all entry_ok ?gs"
    using facts(2) ok storables_range(3) tables_okD(5) [OF ok(1)]
    by (fastforce simp: list_all_iff entry_ok_def entry_text_def storable_def)
  have "\<forall>i \<in> set ?ids. \<exists>d. map_of (items (restored_tables s)) i = Some d \<and> terminal_status (Status d)"
    using facts(2) by (auto simp: prunable_def terminal_restored)
  then have l: "legal ?gs (restored_tables s)"
    using facts(1) by (rule legal_delete)
  show ?thesis
    using assms(2)
  proof (cases rule: Prune_cases)
    case none
    then show ?thesis
      using assms(1) by simp
  next
    case (failed x)
    then show ?thesis
      using append_torn [OF assms(1) _ e l] by (simp add: log_deletes)
  next
    case (pruned s1)
    let ?s = "fold deleteLocked ?ids s1"
    have v: "view s1 = view s"
      using appendData_frame(1) [OF pruned(4)] .
    have vs: "view s' = view (fold deleteLocked ?ids s)"
      using pruned(6) by simp
    have "tables_ok s'" "storables s'"
      using tables_ok_cong [OF vs] storables_cong [OF vs] ok by (simp_all add: tables_ok_fold_delete storables_fold_delete)
    moreover have "journalFile (fold deleteLocked ids s1) = journalFile s1" for ids
      by (induction ids arbitrary: s1) (simp_all add: deleteLocked_def Let_def split: option.splits)
    moreover have "tables_eq (fold apply_entry ?gs (restored_tables s)) (restored_tables s')"
      using restored_fold_delete [OF ok(2)] restored_tables_cong [OF vs] by (simp add: fold_deletes)
    ultimately show ?thesis
      using append_stored [OF assms(1) pruned(4) [folded log_deletes] e, of s'] pruned(5) by simp
  qed
qed

lemma normalize_key: "normalize up req = Inr r \<Longrightarrow> reqIdempotencyKey r = trim_space (reqIdempotencyKey req)"
  by (auto simp: normalize_def Let_def split: if_splits option.splits sum.splits)

lemma admission_durable:
  assumes "durable_by L s w" "checkAdmissionLocked d h s w = (a, s1, w1)"
  shows "durable_by L s1 w1"
proof -
  have "same_place w w1 \<and> inodes w1 = inodes w"
    using assms(2) by (auto simp: checkAdmissionLocked_def failPersistenceLocked_def os_stat_def
        split: option.splits prod.splits if_splits dest: attempt_frame)
  moreover have "persistenceErr s1 = None \<Longrightarrow> persistenceErr s = None \<and> journalFile s1 = journalFile s"
    using assms(2) by (auto simp: checkAdmissionLocked_def failPersistenceLocked_def
        split: option.splits prod.splits if_splits)
  ultimately show ?thesis
    using admission_cases(1) [OF assms(2)] assms(1) by (intro durable_same [of L s w w1 s1]) auto
qed

text \<open>The record of a creation can be written and read back.\<close>

lemma create_entry:
  assumes "New up sha raw req now = Inr (d, h)" "IdempotencyKey d \<noteq> [] \<Longrightarrow> map_of (keyToID s) (IdempotencyKey d) = None"
    "tables_ok s" "storables s" "inputs_ok up (OpCreate raw req now) s"
  shows "storable d \<and> is_utf8 h \<and> legal [Put d h] (restored_tables s) \<and> tables_ok (setLocked d h s)"
  using assms(1)
proof (rule New_cases)
  fix i q
  assume q: "newID raw = Some i" "normalize up req = Inr q" "h = fingerprint sha q" "fresh_delivery d" "ID d = i"
    "IdempotencyKey d = reqIdempotencyKey q" "Headers d = reqHeaders q" "Body d = reqBody q" "MaxAttempts d = reqMaxAttempts q"
    "request_ok up q"
  have i: "i \<noteq> []" "map_of (items s) i = None"
    using assms(5) q(1) by (auto simp: inputs_ok_def fresh_id_def)
  have u: "is_utf8 i" "is_utf8 h" "is_utf8 (reqIdempotencyKey q)"
    using q(1-3) assms(5) normalize_key [OF q(2)] normalize_request_ok(2) [OF q(2)]
    by (auto simp: newID_def fingerprint_def inputs_ok_def intro: is_utf8_ascii hex_ascii)
  have "reqBody q = reqBody req"
    using normalize_key [OF q(2)] normalize_request_ok(2) [OF q(2)] by simp
  then have "storable d"
    using q i u assms(5) header_ascii
    by (auto simp: storable_def encodable_def fresh_delivery_def int64_range_def inputs_ok_def request_ok_def list_all_iff)
  moreover have key: "map_of (keyToID s) (IdempotencyKey d) = None"
    using assms(2) tables_okD(8) [OF assms(3), of "[]"] by (cases "map_of (keyToID s) []") fastforce+
  moreover have "tables_ok (setLocked d h s)"
    using assms(3) i q(5) key by (intro tables_ok_set) auto
  ultimately show ?thesis
    using u(2) q(4,5) i by (intro conjI legal_create) auto
qed

lemma durable_Create:
  assumes "durable s w" "Create up sha raw req now s w = (r, s', w')" "inputs_ok up (OpCreate raw req now) s"
  shows "durable s' w'"
proof -
  have ok: "tables_ok s" "storables s"
    using assms(1) by (simp_all add: durable_def)
  note adm = admission_durable [OF assms(1)]
  have put: "durable (if a = None then setLocked d h s2 else s2) w2"
    if "New up sha raw req now = Inr (d, h)" "IdempotencyKey d \<noteq> [] \<Longrightarrow> map_of (keyToID s) (IdempotencyKey d) = None"
      "durable s w1" "appendLocked d h s w1 = (a, s2, w2)" for d h w1 a s2 w2
    using create_entry [OF that(1,2) ok assms(3)] that(3,4) by (intro durable_put) auto
  show ?thesis
    using assms(2)
  proof (cases rule: Create_cases)
    case (refused d h e)
    then show ?thesis
      using adm by blast
  next
    case (failed d h e w1)
    then show ?thesis
      using put [OF failed(1,2) adm [OF failed(3)] failed(4)] by simp
  next
    case (created d h w1 s2)
    then show ?thesis
      using put [OF created(1,2) adm [OF created(3)] created(4)] by simp
  qed (use assms(1) in auto)
qed

end
