(* ===== verification/Compaction.thy ===== *)
theory Compaction
  imports Durability
begin

section \<open>Compaction\<close>

text \<open>
  The new journal rebuilds the same maps (\<open>snapshot_rebuilds\<close>), and whatever its system
  calls do, \<open>Compact\<close> leaves the journal's name on one of the two files, both of which
  rebuild the maps (\<open>durable_Compact\<close>). With no failing call it succeeds, and clears a
  persistence error (\<open>Compact_clean\<close>).
\<close>

subsection \<open>The new journal\<close>

definition record_entry :: "bytes \<times> Delivery \<times> bytes \<Rightarrow> entry" where
  "record_entry x = (case x of (i, d, h) \<Rightarrow> Put d h)"

definition snapshot_entries :: "'a tables_scheme \<Rightarrow> entry list" where
  "snapshot_entries s = List.map record_entry (snapshot s)"

text \<open>The part of the maps of \<open>s\<close> that belongs to the identifiers in \<open>ids\<close>.\<close>

definition part_of :: "bytes set \<Rightarrow> 'a tables_scheme \<Rightarrow> tables \<Rightarrow> bool" where
  "part_of ids s t \<longleftrightarrow>
     map_of (items t) = (\<lambda>i. if i \<in> ids then map_of (items (restored_tables s)) i else None) \<and>
     map_of (hashes t) = (\<lambda>i. if i \<in> ids then map_of (hashes s) i else None) \<and>
     map_of (keyToID t) = (\<lambda>k. case map_of (keyToID s) k of None \<Rightarrow> None | Some i \<Rightarrow> if i \<in> ids then Some i else None)"

lemma part_of_put:
  assumes ok: "tables_ok s" "storables s" and p: "part_of ids s t" and d: "map_of (items s) i = Some d" "map_of (hashes s) i = Some h"
  shows "part_of (insert i ids) s (apply_entry (Put d h) t)"
proof -
  have i: "ID d = i" "IdempotencyKey d \<noteq> [] \<Longrightarrow> map_of (keyToID s) (IdempotencyKey d) = Some i"
    using tables_okD(5,8) [OF ok(1)] d(1) by auto
  have st: "storable d"
    using ok(2) d(1) by (rule storables_range(3))
  then have r: "ID (restored d) = i" "IdempotencyKey (restored d) = IdempotencyKey d" "Clone (restored d) = restored d"
    using storable_ID [OF st] i(1) restored_headers_ok by (simp_all add: storable_def encodable_def Clone_id)
  have other: "k = IdempotencyKey d \<and> k \<noteq> []" if "map_of (keyToID s) k = Some i" for k
    using that tables_okD(8) [OF ok(1), of k i] d(1) by auto
  have old: "map_of (keyToID t) k =
      (case map_of (keyToID s) k of None \<Rightarrow> None | Some j \<Rightarrow> if j \<in> ids then Some j else None)" for k
    using p by (simp add: part_of_def)
  have new: "map_of (keyToID (apply_entry (Put d h) t)) k =
      (if IdempotencyKey d \<noteq> [] \<and> k = IdempotencyKey d then Some i else map_of (keyToID t) k)" for k
    using r(1,2) by (simp add: apply_entry_def map_of_setLocked del: restored_simps)
  have "map_of (keyToID (apply_entry (Put d h) t)) k =
      (case map_of (keyToID s) k of None \<Rightarrow> None | Some j \<Rightarrow> if j \<in> insert i ids then Some j else None)" for k
  proof (cases "IdempotencyKey d \<noteq> [] \<and> k = IdempotencyKey d")
    case True
    then have "map_of (keyToID s) k = Some i"
      using i(2) by simp
    then show ?thesis
      unfolding new using True by simp
  next
    case False
    then have "map_of (keyToID s) k \<noteq> Some i"
      using other by blast
    then show ?thesis
      unfolding new old if_not_P [OF False] by (auto split: option.split)
  qed
  moreover have "map_of (items (apply_entry (Put d h) t)) = (map_of (items t))(i \<mapsto> restored d)"
    "map_of (hashes (apply_entry (Put d h) t)) = (map_of (hashes t))(i \<mapsto> h)"
    unfolding apply_entry_def entry.case map_of_setLocked r by (rule refl)+
  ultimately show ?thesis
    using p d unfolding part_of_def by (intro conjI ext) auto
qed

lemma part_of_fold:
  assumes "tables_ok s" "storables s" "part_of ids s t" "set is \<subseteq> dom (map_of (items s))"
  shows "part_of (ids \<union> set is) s (fold apply_entry
     (List.map (\<lambda>i. Put (lookup_or zero_delivery (items s) i) (lookup_or [] (hashes s) i)) is) t)"
  using assms(3,4)
proof (induction "is" arbitrary: ids t)
  case (Cons i "is")
  obtain d where d: "map_of (items s) i = Some d"
    using Cons.prems(2) by auto
  moreover from d obtain h where "map_of (hashes s) i = Some h"
    using tables_okD(4) [OF assms(1)] by blast
  ultimately have "part_of (insert i ids) s (apply_entry (Put (lookup_or zero_delivery (items s) i) (lookup_or [] (hashes s) i)) t)"
    using part_of_put [OF assms(1,2) Cons.prems(1)] by (simp add: lookup_or_def)
  then show ?case
    using Cons.IH Cons.prems(2) by fastforce
qed simp

lemma snapshot_rebuilds:
  assumes "tables_ok s" "storables s" "\<forall>x \<in> set (snapshot s). marshalRecord (fst (snd x)) (snd (snd x)) \<noteq> None"
  shows "rebuilds (snapshot_entries s) s"
proof -
  let ?ids = "sort_strings (gokeys (items s))"
  have ids: "set ?ids = dom (map_of (items s))"
    by (simp add: gokeys_def dom_map_of_conv_image_fst)
  have es: "snapshot_entries s = List.map (\<lambda>i. Put (lookup_or zero_delivery (items s) i) (lookup_or [] (hashes s) i)) ?ids"
    by (simp add: snapshot_entries_def snapshot_def record_entry_def)
  have "part_of {} s empty_tables"
    by (auto simp: part_of_def empty_tables_def fun_eq_iff split: option.splits)
  then have p: "part_of (dom (map_of (items s))) s (fold apply_entry (snapshot_entries s) empty_tables)"
    using part_of_fold [OF assms(1,2), of "{}" empty_tables ?ids] ids by (simp add: es)
  have keys: "map_of (keyToID s) k = Some j \<Longrightarrow> j \<in> dom (map_of (items s))" for k j
    using tables_okD(8) [OF assms(1)] by blast
  have hs: "map_of (items s) i = None \<Longrightarrow> map_of (hashes s) i = None" for i
    using tables_okD(4) [OF assms(1)] by (metis domIff)
  have "tables_eq (fold apply_entry (snapshot_entries s) empty_tables) (restored_tables s)"
    using p keys
    by (auto simp: part_of_def tables_eq_def fun_eq_iff domIff hs split: option.splits)
  moreover have "list_all entry_ok (snapshot_entries s)"
    unfolding list_all_iff
  proof
    fix e assume "e \<in> set (snapshot_entries s)"
    then obtain i d where i: "e = Put d (lookup_or [] (hashes s) i)" "map_of (items s) i = Some d"
      "(i, d, lookup_or [] (hashes s) i) \<in> set (snapshot s)"
      using ids by (fastforce simp: snapshot_entries_def snapshot_def record_entry_def lookup_or_def)
    then show "entry_ok e"
      using assms(2,3) storables_range(3) [OF assms(2) i(2)] hash_utf8 [OF assms(2)]
      by (fastforce simp: entry_ok_def entry_text_def)
  qed
  ultimately show ?thesis
    by (simp add: rebuilds_def)
qed

lemma write_records_effect:
  assumes "write_records f xs w = (r, w')" "on_disk f s k w"
  shows "same_place w w' \<and> length (inodes w') = length (inodes w) \<and> (\<forall>g. g \<noteq> f \<longrightarrow> inodes w' ! g = inodes w ! g) \<and>
    (r = None \<longrightarrow> (\<forall>x \<in> set xs. marshalRecord (fst (snd x)) (snd (snd x)) \<noteq> None) \<and>
       on_disk f (s @ journal.log (List.map record_entry xs)) k w')"
  using assms
proof (induction f xs w arbitrary: s rule: write_records.induct)
  case (2 f i item h rest w)
  show ?case
  proof (cases "marshalRecord item h")
    case None
    then show ?thesis
      using 2(2) by auto
  next
    case (Some payload)
    obtain ok w1 where w1: "os_write f payload w = (ok, w1)"
      by (cases "os_write f payload w")
    obtain q where q: "ok \<Longrightarrow> q = payload" "same_place w w1" "on_disk f (s @ q) k w1"
      "length (inodes w1) = length (inodes w)" "\<And>g. g \<noteq> f \<Longrightarrow> inodes w1 ! g = inodes w ! g"
      using os_write_effect [OF w1 2(3)] by metis
    show ?thesis
    proof (cases ok)
      case False
      then show ?thesis
        using 2(2) Some w1 q by auto
    next
      case True
      then have rest: "write_records f rest w1 = (r, w')"
        using 2(2) Some w1 by simp
      have "entry_line (record_entry (i, item, h)) = payload"
        using Some by (simp add: record_entry_def entry_line_def entry_text_def)
      then show ?thesis
        using 2(1) [OF Some w1 [symmetric] _ rest q(3)] q True Some same_place_trans by simp
    qed
  qed
qed simp

subsection \<open>Files that are kept\<close>

definition kept :: "world \<Rightarrow> world \<Rightarrow> bool" where
  "kept w w' \<longleftrightarrow>
     base w' = base w \<and> durableEntry w' = durableEntry w \<and> (gomap_ok (dir w) \<longrightarrow> gomap_ok (dir w')) \<and>
     (\<forall>f < length (inodes w). f < length (inodes w') \<and> inodes w' ! f = inodes w ! f)"

lemma kept_refl [simp, intro]: "kept w w"
  by (simp add: kept_def)

lemma kept_trans: "kept a b \<Longrightarrow> kept b c \<Longrightarrow> kept a c"
  by (simp add: kept_def)

lemma kept_place:
  "same_place w w' \<Longrightarrow> inodes w' = inodes w \<Longrightarrow> kept w w' \<and> journal_entry w' = journal_entry w"
  by (simp add: kept_def same_place_def journal_entry_def)

lemma durable_kept:
  assumes "durable_by L s w" "kept w w'" "journal_entry w' = journal_entry w" "view s' = view s"
    "persistenceErr s' = None \<Longrightarrow> persistenceErr s = None \<and> journalFile s' = journalFile s"
  shows "durable_by L s' w'"
  using assms by (intro durable_frame [OF assms(1)]) (auto simp: kept_def)

subsection \<open>\<open>Compact\<close>\<close>

lemma fresh_name_base: "fresh_name (compactionPrefix b) d \<noteq> b"
proof
  assume "fresh_name (compactionPrefix b) d = b"
  then have "prefix (compactionPrefix b) b"
    unfolding fresh_name_def by (metis prefixI)
  then show False
    using base_not_temp by blast
qed

lemma create_temp_effect:
  assumes "os_create_temp (compactionPrefix (base w)) w = (Some (name, f), w')"
  shows "kept w w'" "journal_entry w' = journal_entry w" "f = length (inodes w)" "on_disk f [] 0 w'" "name \<noteq> base w"
proof -
  obtain w1 where w1: "attempt w = (True, w1)"
    using assms by (cases "attempt w") (auto simp: os_create_temp_def split: if_splits)
  note a = attempt_frame [OF w1]
  have eqs: "name = fresh_name (compactionPrefix (base w)) (dir w1)" "f = length (inodes w)"
    "w' = w1\<lparr>inodes := inodes w1 @ [\<lparr>idata = [], isynced = 0\<rparr>], dir := AList.update name (Regular f) (dir w1)\<rparr>"
    using assms w1 a(2) by (auto simp: os_create_temp_def Let_def)
  show "name \<noteq> base w" "f = length (inodes w)"
    using eqs fresh_name_base by auto
  then show "kept w w'" "journal_entry w' = journal_entry w" "on_disk f [] 0 w'"
    using a eqs(3) by (auto simp: kept_def same_place_def journal_entry_def on_disk_def map_simps nth_append)
qed

lemma remove_effect:
  assumes "os_remove name w = (r, w')" "name \<noteq> base w"
  shows "kept w w'" "journal_entry w' = journal_entry w" "inodes w' = inodes w"
proof -
  obtain ok w1 where c: "attempt w = (ok, w1)"
    by (cases "attempt w")
  note a = attempt_frame [OF c]
  have "w' = w1 \<or> w' = w1\<lparr>dir := AList.delete name (dir w1)\<rparr>"
    using assms(1) c by (auto simp: os_remove_def split: if_splits)
  then show "kept w w'" "journal_entry w' = journal_entry w" "inodes w' = inodes w"
    using a assms(2) by (auto simp: kept_def same_place_def journal_entry_def map_simps)
qed

lemma cleanup_effect:
  assumes "compact_cleanup name False e w = (r, w')" "name \<noteq> base w"
  shows "kept w w'" "journal_entry w' = journal_entry w"
proof -
  obtain c w1 where c: "attempt w = (c, w1)"
    by (cases "attempt w")
  note a = attempt_frame [OF c]
  obtain x w2 where x: "os_remove name w1 = (x, w2)"
    by (cases "os_remove name w1")
  have w2: "w' = w2"
    using assms(1) c x by (auto simp: compact_cleanup_def Let_def split: prod.splits)
  have "name \<noteq> base w1"
    using a(1) assms(2) by (simp add: same_place_def)
  note rm = remove_effect [OF x this]
  show "kept w w'" "journal_entry w' = journal_entry w"
    using kept_trans [OF conjunct1 [OF kept_place [OF a]] rm(1)] rm(2) kept_place [OF a] w2 by simp_all
qed

lemma kept_others:
  assumes "kept w w1" "same_place w1 w2" "length (inodes w2) = length (inodes w1)"
    "\<forall>g. g \<noteq> f \<longrightarrow> inodes w2 ! g = inodes w1 ! g" "f = length (inodes w)"
  shows "kept w w2" "journal_entry w2 = journal_entry w1"
  using assms by (auto simp: kept_def same_place_def journal_entry_def)

lemma compact_write_effect:
  assumes "compact_write f s w = (r, w')" "on_disk f [] 0 w"
  shows "same_place w w'" "length (inodes w') = length (inodes w)" "\<forall>g. g \<noteq> f \<longrightarrow> inodes w' ! g = inodes w ! g"
    "r = None \<Longrightarrow> (\<forall>x \<in> set (snapshot s). marshalRecord (fst (snd x)) (snd (snd x)) \<noteq> None) \<and>
       on_disk f (journal.log (snapshot_entries s)) (length (journal.log (snapshot_entries s))) w'"
proof -
  obtain c w1 where c: "attempt w = (c, w1)"
    by (cases "attempt w")
  note a = attempt_frame [OF c]
  obtain x w2 where x: "write_records f (snapshot s) w1 = (x, w2)"
    by (cases "write_records f (snapshot s) w1")
  have "on_disk f [] 0 w1"
    using assms(2) a(2) by (simp add: on_disk_def)
  note wr = write_records_effect [OF x this]
  obtain y w3 where y: "os_sync f w2 = (y, w3)"
    by (cases "os_sync f w2")
  consider (chmod) "\<not> c" "r \<noteq> None" "w' = w1" | (bad) "c" "x \<noteq> None" "r \<noteq> None" "w' = w2"
    | (synced) "c" "x = None" "w' = w3" "r = None \<longrightarrow> y"
    using assms(1) c x y by (cases c; cases x) (auto simp: compact_write_def split: if_splits)
  then have "same_place w w' \<and> length (inodes w') = length (inodes w) \<and> (\<forall>g. g \<noteq> f \<longrightarrow> inodes w' ! g = inodes w ! g) \<and>
    (r = None \<longrightarrow> (\<forall>x \<in> set (snapshot s). marshalRecord (fst (snd x)) (snd (snd x)) \<noteq> None) \<and>
       on_disk f (journal.log (snapshot_entries s)) (length (journal.log (snapshot_entries s))) w')"
  proof cases
    case chmod
    then show ?thesis
      using a by auto
  next
    case bad
    then show ?thesis
      using a wr same_place_trans by auto
  next
    case synced
    then have d: "on_disk f (journal.log (snapshot_entries s)) 0 w2"
      using wr by (simp add: snapshot_entries_def)
    note sy = os_sync_effect [OF y d]
    show ?thesis
      using synced sy wr a same_place_trans [OF a(1) same_place_trans [OF _ sy(1)]] by auto
  qed
  then show "same_place w w'" "length (inodes w') = length (inodes w)" "\<forall>g. g \<noteq> f \<longrightarrow> inodes w' ! g = inodes w ! g"
    "r = None \<Longrightarrow> (\<forall>x \<in> set (snapshot s). marshalRecord (fst (snd x)) (snd (snd x)) \<noteq> None) \<and>
       on_disk f (journal.log (snapshot_entries s)) (length (journal.log (snapshot_entries s))) w'"
    by auto
qed

lemma attempt_world: "\<exists>fs. snd (attempt w) = w\<lparr>faults := fs\<rparr>"
  by (cases "faults w") (auto simp: attempt_def syscall_def intro: exI [of _ "faults w"] exI [of _ "tl (faults w)"])

lemma syncDirectory_world:
  assumes "syncDirectory w = (r, w')"
  shows "base w' = base w \<and> dir w' = dir w \<and> inodes w' = inodes w \<and>
    durableEntry w' = (if r = None then journal_entry w else durableEntry w)"
proof -
  obtain a w1 where a: "attempt w = (a, w1)"
    by (cases "attempt w")
  obtain b w2 where b: "attempt w1 = (b, w2)"
    by (cases "attempt w1")
  show ?thesis
    using assms attempt_frame [OF a] attempt_frame [OF b] a b
    by (cases a; cases b) (auto simp: syncDirectory_def os_sync_dir_def same_place_def journal_entry_def)
qed

lemma failPersistence_none: "failPersistenceLocked c s = (e, s') \<Longrightarrow> persistenceErr s' \<noteq> None"
  using failPersistence_cases(1) by fastforce

lemma compact_adopt_world:
  assumes "compact_adopt f n s w = (r, s', w')"
  shows "base w' = base w \<and> dir w' = dir w \<and> inodes w' = inodes w \<and>
    (durableEntry w' = durableEntry w \<and> persistenceErr s' \<noteq> None \<or> durableEntry w' = journal_entry w)"
proof -
  obtain es s1 w1 where a: "adoptCompactedLocked f n s w = (es, s1, w1)"
    by (metis prod_cases3)
  obtain c w2 where c: "syncDirectory w = (c, w2)"
    by (cases "syncDirectory w")
  obtain fs s3 w3 where d: "adoptCompactedLocked f n s w2 = (fs, s3, w3)"
    by (metis prod_cases3)
  obtain g1 g2 where g: "w1 = w\<lparr>faults := g1\<rparr>" "w3 = w2\<lparr>faults := g2\<rparr>"
    using adopt_frame(6) [OF a] adopt_frame(6) [OF d] attempt_world by metis
  show ?thesis
  proof (cases "compactionHook s AfterRename")
    case True
    then have "w' = w1" "persistenceErr s' \<noteq> None"
      using assms a by (auto simp: compact_adopt_def split: prod.splits dest: failPersistence_none)
    then show ?thesis
      by (simp add: g)
  next
    case False
    then have "w' = w3" "c = None \<or> persistenceErr s' \<noteq> None"
      using assms c d
      by (auto simp: compact_adopt_def Let_def split: prod.splits option.splits if_splits dest: failPersistence_none)
    then show ?thesis
      using syncDirectory_world [OF c] by (auto simp: g split: if_splits)
  qed
qed

text \<open>After the rename the name may mean either file; once the directory is synced, the new one.\<close>

lemma durable_adopt:
  assumes "durable_by L s w" "kept w w1" "journal_entry w1 = Some f" "compact_adopt f n s w1 = (r, s', w')"
    "\<And>torn. holds L f w1 torn s"
  shows "durable_by L s' w'"
  using assms(1)
proof (rule durableE)
  fix f0 g
  assume d: "tables_ok s" "storables s" "gomap_ok (dir w)" "durableEntry w = Some g" "holds L g w True s"
  obtain v: "view s' = view s" and j: "journalFile s' = Some f"
    using compact_adopt_view [OF assms(4)] by blast
  have w': "base w' = base w1 \<and> dir w' = dir w1 \<and> inodes w' = inodes w1 \<and>
      (durableEntry w' = durableEntry w1 \<and> persistenceErr s' \<noteq> None \<or> durableEntry w' = journal_entry w1)"
    using compact_adopt_world [OF assms(4)] .
  have "g < length (inodes w)"
    using d(5) by (rule holds_disk)
  then have old: "holds L g w' True s'"
    using d(5) assms(2) w' v by (intro holds_cong [of g w w' s' s]) (auto simp: kept_def)
  have new: "holds L f w' torn s'" for torn
    using assms(5) w' v by (intro holds_cong [of f w1 w' s' s]) auto
  have "tables_ok s'" "storables s'" "gomap_ok (dir w')" "journal_entry w' = Some f"
    using d tables_ok_cong [OF v] storables_cong [OF v] w' assms(2,3) by (auto simp: kept_def journal_entry_def)
  then show ?thesis
    using w' assms(2,3) d(4) old new j unfolding durable_by_def kept_def by auto
qed

lemma durable_Compact:
  assumes "durable_by L s w" "Compact s w = (r, s', w')"
  shows "durable_by L s' w'"
proof -
  have fail: "durable_by L s1 w1" if "durable_by L s2 w1" "s1 = s2\<lparr>compactionsFailed := n\<rparr>" for s1 s2 w1 n
    using that by (intro durable_kept [OF that(1)]) auto
  obtain r0 s0 where b: "compact_body s w = (r0, s0, w')" "s' = s0 \<or> (\<exists>n. s' = s0\<lparr>compactionsFailed := n\<rparr>)"
    using assms(2) by (auto simp: Compact_def split: prod.splits option.splits)
  have "durable_by L s0 w'"
  proof (cases "journalFile s")
    case None
    then show ?thesis
      using b(1) assms(1) by (simp add: compact_body_def)
  next
    case (Some j)
    obtain t w1 where t: "os_create_temp (compactionPrefix (base w)) w = (t, w1)"
      by (cases "os_create_temp (compactionPrefix (base w)) w")
    show ?thesis
    proof (cases t)
      case None
      then have eq: "s0 = s" "w' = w1"
        using b(1) t Some by (auto simp: compact_body_def)
      have "attempt w = (False, w1)"
        using t None by (cases "attempt w") (auto simp: os_create_temp_def Let_def split: if_splits)
      note a = attempt_frame [OF this]
      show ?thesis
        unfolding eq using a by (intro durable_same [OF assms(1)]) auto
    next
      case (Some nf)
      then obtain name f where nf: "t = Some (name, f)"
        by (cases nf) auto
      note c = create_temp_effect [OF t [unfolded nf]]
      obtain x w2 where x: "compact_write f s w1 = (x, w2)"
        by (cases "compact_write f s w1")
      note cw = compact_write_effect [OF x c(4)]
      note k = kept_others [OF c(1) cw(1-3) c(3)]
      have failed: ?thesis if "compact_cleanup name False e w3 = (r0, w')" "s0 = s" "same_place w2 w3" "inodes w3 = inodes w2" for e w3
      proof -
        have k3: "kept w w3" "journal_entry w3 = journal_entry w"
          using kept_trans [OF k(1) conjunct1 [OF kept_place [OF that(3,4)]]] kept_place [OF that(3,4)] k(2) c(2) by simp_all
        have "name \<noteq> base w3"
          using c(5) k3(1) by (simp add: kept_def)
        note cl = cleanup_effect [OF that(1) this]
        show ?thesis
          unfolding that(2) using kept_trans [OF k3(1) cl(1)] cl(2) k3(2) by (intro durable_kept [OF assms(1)]) simp_all
      qed
      show ?thesis
      proof (cases x)
        case (Some e)
        then show ?thesis
          using b(1) \<open>journalFile s = Some j\<close> t nf x by (intro failed [of "Some e" w2]) (auto simp: compact_body_def split: prod.splits)
      next
        case None
        obtain ok w3 where w3: "os_rename name f w2 = (ok, w3)"
          by (cases "os_rename name f w2")
        show ?thesis
        proof (cases ok)
          case False
          then have "attempt w2 = (False, w3)"
            using w3 by (auto simp: os_rename_def split: prod.splits if_splits)
          note a = attempt_frame [OF this]
          show ?thesis
            using b(1) \<open>journalFile s = Some j\<close> t nf x None w3 False a
            by (intro failed [of "Some (IOError [RenameTemp])" w3]) (auto simp: compact_body_def split: prod.splits)
        next
          case True
          then obtain v where v: "attempt w2 = (True, v)"
            "w3 = v\<lparr>dir := AList.update (base v) (Regular f) (AList.delete name (dir v))\<rparr>"
            using w3 by (auto simp: os_rename_def split: prod.splits if_splits)
          note a = attempt_frame [OF v(1)]
          have "kept w2 w3" "journal_entry w3 = Some f" "inodes w3 = inodes w2"
            using a v(2) by (auto simp: kept_def same_place_def journal_entry_def map_simps)
          note ren = this
          have "holds L f w3 torn s" for torn
          proof -
            have "rebuilds (snapshot_entries s) s"
              using assms(1) cw(4) [OF None] by (intro snapshot_rebuilds) (auto simp: durable_by_def)
            then show ?thesis
              using cw(4) [OF None] ren(3) on_disk_inodes [OF ren(3)] by (intro holdsI [of "snapshot_entries s" s "[]" "[]"]) auto
          qed
          moreover have "compact_adopt f (word_of_nat (length (items s))) s w3 = (r0, s0, w')"
            using b(1) \<open>journalFile s = Some j\<close> t nf x None w3 True by (simp add: compact_body_def)
          ultimately show ?thesis
            using kept_trans [OF k(1) ren(1)] ren(2) by (intro durable_adopt [OF assms(1)])
        qed
      qed
    qed
  qed
  then show ?thesis
    using b(2) fail by auto
qed

subsection \<open>Compaction when no call fails\<close>

lemma write_records_clean:
  assumes "faults w = []" "\<forall>x \<in> set xs. marshalRecord (fst (snd x)) (snd (snd x)) \<noteq> None"
  shows "\<exists>w'. write_records f xs w = (None, w') \<and> faults w' = []"
  using assms
proof (induction f xs w rule: write_records.induct)
  case (2 f i item h rest w)
  then obtain payload where p: "marshalRecord item h = Some payload"
    by auto
  have "os_write f payload w = (True, append_inode f payload w)" "faults (append_inode f payload w) = []"
    using 2(2) by (simp_all add: os_write_def syscall_def append_inode_def)
  then show ?case
    using 2(1) [OF p] 2(3) p by auto
qed simp

lemma Compact_clean:
  assumes "faults w = []" "journalFile s = Some j" "compactionHook s = (\<lambda>_. False)"
    "\<forall>x \<in> set (snapshot s). marshalRecord (fst (snd x)) (snd (snd x)) \<noteq> None"
  obtains s' w' where "Compact s w = (None, s', w')" "persistenceErr s' = None" "journalFile s' \<noteq> None"
    "compactionsSucceeded s' = compactionsSucceeded s + 1" "view s' = view s" "faults w' = []"
proof -
  obtain name f w1 where t: "os_create_temp (compactionPrefix (base w)) w = (Some (name, f), w1)" "faults w1 = []"
    using assms(1) by (simp add: os_create_temp_def Let_def)
  obtain w2 where w2: "write_records f (snapshot s) w1 = (None, w2)" "faults w2 = []"
    using write_records_clean [OF t(2) assms(4)] by blast
  obtain w3 where w3: "os_sync f w2 = (True, w3)" "faults w3 = []"
    using w2(2) by (simp add: os_sync_def sync_inode_def)
  obtain w4 where w4: "os_rename name f w3 = (True, w4)" "faults w4 = []"
    using w3(2) by (simp add: os_rename_def)
  let ?w5 = "w4\<lparr>durableEntry := journal_entry w4\<rparr>"
  have "compact_write f s w1 = (None, w3)"
    using t(2) w2 w3 assms(3) by (simp add: compact_write_def)
  moreover have "compact_adopt f n s w4 =
      (None, s\<lparr>journalFile := Some f, records := n, persistenceErr := None,
         compactionsSucceeded := compactionsSucceeded s + 1\<rparr>, ?w5)" for n
    using w4(2) assms(3) by (simp add: compact_adopt_def syncDirectory_clean adoptCompactedLocked_def Let_def)
  ultimately have "Compact s w = (None, s\<lparr>journalFile := Some f, records := word_of_nat (length (items s)),
      persistenceErr := None, compactionsSucceeded := compactionsSucceeded s + 1\<rparr>, ?w5)"
    using t(1) w4(1) assms(2) by (simp add: Compact_def compact_body_def)
  then show thesis
    by (rule that) (use w4(2) in simp_all)
qed

end
