(* ===== verification/CrashSafety.thy ===== *)
theory CrashSafety
  imports Compaction
begin

section \<open>Crash safety\<close>

text \<open>
  The composition of the store with its disk: \<open>durable_run_op\<close> for every operation,
  \<open>crash_recovers\<close> for a crash followed by \<open>Open\<close>, and the runs of the daemon over
  operations, failures, crashes and restarts (\<open>history\<close>), all of whose states are durable.
\<close>

lemma durable_run_op:
  assumes "durable s w" "run_op up sha x s w = (s', w')" "inputs_ok up x s"
  shows "durable s' w'"
proof (cases x)
  case (OpCreate raw req now)
  then show ?thesis
    using assms durable_Create [OF assms(1)] by (cases "Create up sha raw req now s w") auto
next
  case (OpClaim now lease limit eligible)
  then show ?thesis
    using assms durable_Claim [OF assms(1)]
    by (cases "ClaimDueMatching now lease limit eligible s w") (auto simp: inputs_ok_def)
next
  case (OpSucceed i att code now)
  then show ?thesis
    using assms durable_Succeed [OF assms(1)] by (cases "Succeed i att code now s w") (auto simp: inputs_ok_def)
next
  case (OpFail i att code msg nxt terminal now)
  then show ?thesis
    using assms durable_Fail [OF assms(1)] by (cases "Fail i att code msg nxt terminal now s w") (auto simp: inputs_ok_def)
next
  case (OpCancel i now)
  then show ?thesis
    using assms durable_Cancel [OF assms(1)] by (cases "Cancel i now s w") auto
next
  case (OpRetry i now)
  then show ?thesis
    using assms durable_Retry [OF assms(1)] by (cases "Retry i now s w") auto
next
  case (OpPrune before)
  then show ?thesis
    using assms durable_Prune [OF assms(1)] by (cases "PruneTerminal before s w") fastforce
next
  case OpCompact
  then show ?thesis
    using assms durable_Compact [OF assms(1)] by (cases "Compact s w") auto
qed

subsection \<open>Reading back twice\<close>

lemma gokeys_restored: "gokeys (restored_headers hs) = sort_strings (gokeys hs)"
  by (simp add: restored_headers_def gokeys_def comp_def)

lemma restored_headers_idem: "restored_headers (restored_headers hs) = restored_headers hs"
proof -
  have l: "lookup_or [] (restored_headers hs) n = valid_utf8 (lookup_or [] hs n)" if "n \<in> set (gokeys hs)" for n
    using that by (simp add: restored_headers_def lookup_or_def map_of_map_restrict restrict_map_def)
  have "sort_strings (sort_strings (gokeys hs)) = sort_strings (gokeys hs)"
    by (rule sort_strings_perm) simp
  then have "restored_headers (restored_headers hs) =
      List.map (\<lambda>n. (n, valid_utf8 (lookup_or [] (restored_headers hs) n))) (sort_strings (gokeys hs))"
    unfolding restored_headers_def [of "restored_headers hs"] gokeys_restored by simp
  also have "\<dots> = List.map (\<lambda>n. (n, valid_utf8 (lookup_or [] hs n))) (sort_strings (gokeys hs))"
    using l by simp
  also have "\<dots> = restored_headers hs"
    by (simp only: restored_headers_def)
  finally show ?thesis .
qed

lemma restored_body_idem: "restored_body (restored_body b) = restored_body b"
proof (cases "json_valid b")
  case True
  then have "json_compact b = Some (compact_from Out b)"
    by (simp add: json_compact_def)
  then have "json_compact (compact_from Out b) = Some (compact_from Out b)"
    by (rule json_compact_idem)
  then show ?thesis
    using True by (auto simp: restored_body_def json_compact_def split: if_splits)
qed (simp add: restored_body_def)

lemma restored_idem [simp]: "restored (restored d) = restored d"
  using restored_headers_idem restored_body_idem by (simp add: restored_def)

lemma restored_tables_idem [simp]: "restored_tables (restored_tables s) = restored_tables s"
  by (auto simp: restored_tables_def)

lemma storable_restored:
  assumes "storable d"
  shows "storable (restored d)"
proof -
  have h: "list_all (\<lambda>h. is_utf8 (fst h)) (restored_headers (Headers d))"
    using assms by (auto simp: storable_def encodable_def restored_headers_def list_all_iff gokeys_def)
  have "json_valid (restored_body (Body d)) \<Longrightarrow> json_valid_lim 9998 (restored_body (Body d))"
    using assms json_valid_compact by (auto simp: storable_def encodable_def restored_body_def split: if_splits)
  then show ?thesis
    using assms h storable_ID [OF assms] restored_headers_ok by (simp add: storable_def encodable_def)
qed

lemma storables_restored: "storables s \<Longrightarrow> storables (restored_tables s)"
  by (auto simp: storables_def storable_restored)

lemma tables_ok_restored:
  assumes "tables_ok s" "storables s"
  shows "tables_ok (restored_tables s)"
proof -
  note ok = tables_okD [OF assms(1)]
  have st: "ID (restored d) = ID d \<and> IdempotencyKey (restored d) = IdempotencyKey d" if "map_of (items s) i = Some d" for i d
    using storable_ID [OF storables_range(3) [OF assms(2) that]] by simp
  show ?thesis
  proof (rule tables_okI)
    show "gomap_ok (items (restored_tables s))"
      using ok(1) by (simp add: restored_tables_def gomap_ok_def comp_def case_prod_beta)
    show "dom (map_of (hashes (restored_tables s))) = dom (map_of (items (restored_tables s)))"
      using ok(4) by (auto simp: dom_def)
    show "ID d = i \<and> i \<noteq> [] \<and> gomap_ok (Headers d)" if m: "map_of (items (restored_tables s)) i = Some d" for i d
    proof -
      obtain e where e: "map_of (items s) i = Some e" "d = restored e"
        using m by auto
      then show ?thesis
        using st [OF e(1)] ok(5-7) [OF e(1)] restored_headers_ok by simp
    qed
    show "map_of (keyToID (restored_tables s)) k = Some i \<longleftrightarrow>
        k \<noteq> [] \<and> (\<exists>d. map_of (items (restored_tables s)) i = Some d \<and> IdempotencyKey d = k)" for k i
      using st ok(8) [of k i] by (auto simp del: restored_simps(8,9))
  qed (use ok in simp_all)
qed

lemma tables_ok_eq:
  assumes "tables_eq s t" "tables_ok t" "gomap_ok (items s)" "gomap_ok (hashes s)" "gomap_ok (keyToID s)"
  shows "tables_ok s"
  using assms unfolding tables_ok_def tables_eq_def by simp

lemma storables_eq: "tables_eq s t \<Longrightarrow> storables t \<Longrightarrow> storables s"
  by (simp add: storables_def tables_eq_def)

lemma restored_eq: "tables_eq s t \<Longrightarrow> tables_eq (restored_tables s) (restored_tables t)"
  by (auto simp: tables_eq_def fun_eq_iff)

lemma rebuilds_restored: "rebuilds es s \<Longrightarrow> tables_eq t (restored_tables s) \<Longrightarrow> rebuilds es t"
  using restored_eq [of t "restored_tables s"] by (auto simp: rebuilds_def intro: tables_eq_trans tables_eq_sym)

definition maps_ok :: "'a tables_scheme \<Rightarrow> bool" where
  "maps_ok s \<longleftrightarrow> gomap_ok (items s) \<and> gomap_ok (hashes s) \<and> gomap_ok (keyToID s)"

lemma maps_ok_apply: "maps_ok s \<Longrightarrow> maps_ok (apply_entry e s)"
  by (auto simp: maps_ok_def apply_entry_def setLocked_def deleteLocked_def Let_def split: entry.splits option.splits)

lemma maps_ok_fold: "maps_ok s \<Longrightarrow> maps_ok (fold apply_entry es s)"
  by (induction es arbitrary: s) (auto intro: maps_ok_apply)

subsection \<open>A crash, and \<open>Open\<close>\<close>

lemma new_store_view: "view (new_store f limit) = empty_tables"
  by (simp add: new_store_def view_def tables.defs empty_tables_def)

lemma fold_apply_frame:
  fixes t :: Store
  shows "persistenceErr (fold apply_entry es t) = persistenceErr t" "journalFile (fold apply_entry es t) = journalFile t"
  by (induction es arbitrary: t)
    (auto simp: apply_entry_def setLocked_def deleteLocked_def Let_def split: entry.splits option.splits)

lemma holds_crash:
  fixes S :: Store
  assumes "holds L f w torn s"
  obtains es gs q j where "rebuilds es s" "gs = [] \<or> L gs (restored_tables s)" "list_all entry_ok gs" "\<not> torn \<longrightarrow> q = [] \<and> j = 0"
    "on_disk f (journal.log es @ q) (length (journal.log es @ q)) (crash keep old w)"
    "replay_loop (journal.log es @ q) 0 S = Inr (fold apply_entry (take j gs) (fold apply_entry es S), length es + j)"
proof -
  obtain es gs p where h: "rebuilds es s" "list_all entry_ok gs" "gs = [] \<or> L gs (restored_tables s)" "prefix p (journal.log gs)"
    "\<not> torn \<longrightarrow> p = []" "on_disk f (journal.log es @ p) (length (journal.log es)) w"
    using assms by (auto simp: holds_def)
  obtain p' where p': "prefix p' (journal.log es @ p)" "length (journal.log es) \<le> length p'"
    "on_disk f p' (length p') (crash keep old w)"
    using crash_on_disk [OF h(6)] by blast
  obtain q where q: "p' = journal.log es @ q" "prefix q p"
  proof -
    have "prefix p' (journal.log es) \<Longrightarrow> p' = journal.log es"
      using p'(2) by (auto simp: prefix_def)
    then show thesis
      using p'(1) that [of "[]"] that by (auto simp: prefix_append)
  qed
  have "prefix q (journal.log gs)"
    using q(2) h(4) prefix_order.trans by blast
  then obtain j where j: "replay_loop q (length es) (fold apply_entry es S) =
      Inr (fold apply_entry (take j gs) (fold apply_entry es S), length es + j)"
    using journal.replay_prefix [OF h(2)] by blast
  have "list_all entry_ok es"
    using h(1) by (simp add: rebuilds_def)
  then have r: "replay_loop (journal.log es @ q) 0 S =
      Inr (fold apply_entry (take j gs) (fold apply_entry es S), length es + j)"
    using j by (simp add: journal.reader_log)
  show thesis
  proof (cases torn)
    case True
    then show thesis
      using h(1-3) p'(3) q(1) r by (intro that [of es gs q j]) auto
  next
    case False
    then have "q = []"
      using h(5) q(2) by simp
    moreover from this have "replay_loop (journal.log es @ q) 0 S = Inr (fold apply_entry es S, length es)"
      using journal.replay_log [OF \<open>list_all entry_ok es\<close>, of 0 S] by simp
    ultimately show thesis
      using h(1-3) p'(3) q(1) by (intro that [of es gs q 0]) auto
  qed
qed

text \<open>
  After a crash at any point, \<open>Open\<close> succeeds and the maps are those of the store, as the
  journal gives them back, after some of the steps of an operation that was not
  acknowledged; if no write had failed, exactly those, and the store is durable again.
\<close>

lemma crash_recovers_by:
  assumes "durable_by L s w" "0 \<le> limit"
  obtains s2 w2 gs j where "Open [limit] (crash keep old w) = (Inr s2, w2)"
    "tables_eq s2 (fold apply_entry (take j gs) (restored_tables s))" "gs = [] \<or> L gs (restored_tables s)" "list_all entry_ok gs" "maps_ok s2"
    "persistenceErr s2 = None" "journalFile s2 \<noteq> None" "flockHeld w2" "abandoned_names w2 = []"
    "persistenceErr s = None \<longrightarrow> tables_eq s2 (restored_tables s) \<and> durable s2 w2"
  using assms(1)
proof (rule durableE)
  fix f g
  assume d: "tables_ok s" "storables s" "gomap_ok (dir w)" "journal_entry w = Some f" "durableEntry w = Some g"
    "holds L f w True s" "holds L g w True s" "persistenceErr s = None \<Longrightarrow> g = f \<and> journalFile s = Some f \<and> holds L f w False s"
  let ?x = "if old then g else f" and ?c = "crash keep old w" and ?torn = "persistenceErr s \<noteq> None"
  have named: "journal_named ?x ?c"
    using d by (intro crash_renamed)
  have "holds L ?x w ?torn s"
    using d(6-8) by (cases "persistenceErr s") auto
  then obtain es gs q j where h: "rebuilds es s" "gs = [] \<or> L gs (restored_tables s)" "\<not> ?torn \<longrightarrow> q = [] \<and> j = 0"
    "on_disk ?x (journal.log es @ q) (length (journal.log es @ q)) ?c"
    "replay_loop (journal.log es @ q) 0 (new_store ?x limit) =
       Inr (fold apply_entry (take j gs) (fold apply_entry es (new_store ?x limit)), length es + j)" "list_all entry_ok gs"
    by (rule holds_crash)
  let ?S = "fold apply_entry (take j gs) (fold apply_entry es (new_store ?x limit))"
  let ?s2 = "?S\<lparr>records := records ?S + word_of_nat (length es + j)\<rparr>"
  have disk: "?x < length (inodes ?c)" "idata (inodes ?c ! ?x) = journal.log es @ q"
    using h(4) by (simp_all add: on_disk_def)
  obtain w2 where w2: "Open [limit] ?c = (Inr ?s2, w2)" "journal_named ?x w2" "inodes w2 = inodes ?c" "faults w2 = []"
    "flockHeld w2" "base w2 = base ?c" "abandoned_names w2 = []"
    using Open_clean [OF crash_ready(1,2) named disk(1) assms(2), of ?S "length es + j"] h(5) disk(2) by auto
  have p: "persistenceErr ?s2 = None" "journalFile ?s2 = Some ?x"
    by (simp_all add: fold_apply_frame new_store_def)
  have ok2: "maps_ok ?s2"
    using maps_ok_fold [of "fold apply_entry es (new_store ?x limit)" "take j gs"] maps_ok_fold [of "new_store ?x limit" es]
    by (simp add: maps_ok_def new_store_def)
  let ?u = "fold apply_entry (take j gs) (restored_tables s)"
  have v: "view ?s2 = fold apply_entry (take j gs) (fold apply_entry es empty_tables)"
    by (simp add: new_store_view)
  have "tables_eq (view ?s2) ?u"
    unfolding v using h(1) by (intro fold_apply_eq) (simp add: rebuilds_def)
  then have u: "tables_eq ?s2 ?u"
    by (simp add: tables_eq_def del: view_update)
  have "tables_eq ?s2 (restored_tables s) \<and> durable ?s2 w2" if "persistenceErr s = None"
  proof
    have q: "q = []" "j = 0"
      using h(3) that by simp_all
    then show e: "tables_eq ?s2 (restored_tables s)"
      using u by simp
    have "tables_ok ?s2" "storables ?s2"
      using e tables_ok_restored [OF d(1,2)] storables_restored [OF d(2)] tables_ok_eq [OF e] storables_eq [OF e] ok2
      by (simp_all add: maps_ok_def)
    moreover have "rebuilds es ?s2"
      using h(1) e by (rule rebuilds_restored)
    then have "holds legal ?x w2 torn ?s2" for torn
      using h(4) q(1) on_disk_inodes [OF w2(3)] by (intro holdsI [of es ?s2 "[]" "[]"]) auto
    ultimately show "durable ?s2 w2"
      using w2(2) p(2) unfolding durable_def journal_named_def by blast
  qed
  then show thesis
    using w2 u h(2,6) p ok2 by (intro that [of ?s2 w2 j gs]) auto
qed

lemma crash_recovers:
  assumes "durable s w" "0 \<le> limit"
  obtains s2 w2 u where "Open [limit] (crash keep old w) = (Inr s2, w2)" "tables_eq s2 u" "steps (restored_tables s) u"
    "persistenceErr s2 = None" "journalFile s2 \<noteq> None" "flockHeld w2" "abandoned_names w2 = []"
    "persistenceErr s = None \<longrightarrow> tables_eq s2 (restored_tables s) \<and> durable s2 w2"
proof (rule crash_recovers_by [OF assms, of keep old])
  fix s2 w2 gs j
  assume r: "Open [limit] (crash keep old w) = (Inr s2, w2)" "tables_eq s2 (fold apply_entry (take j gs) (restored_tables s))"
    "gs = [] \<or> legal gs (restored_tables s)" "persistenceErr s2 = None" "journalFile s2 \<noteq> None" "flockHeld w2"
    "abandoned_names w2 = []" "persistenceErr s = None \<longrightarrow> tables_eq s2 (restored_tables s) \<and> durable s2 w2"
  then have "steps (restored_tables s) (fold apply_entry (take j gs) (restored_tables s))"
    using legal_steps [of gs] by auto
  then show thesis
    using r by (intro that)
qed

subsection \<open>Runs\<close>

text \<open>
  The states of a daemon and its disk: the first start in an empty directory, then
  operations, any outcomes of the system calls to come, and crashes at any point followed
  by a restart, as long as no write had failed before the crash.
\<close>

definition empty_world :: "bytes \<Rightarrow> world" where
  "empty_world b = \<lparr>base = b, inodes = [], dir = [], durableEntry = None, flockHeld = False, faults = []\<rparr>"

inductive history :: "(bytes \<Rightarrow> url option) \<Rightarrow> (bytes \<Rightarrow> bytes) \<Rightarrow> Store \<Rightarrow> world \<Rightarrow> bool" for up sha where
  boot: "0 \<le> limit \<Longrightarrow> Open [limit] (empty_world b) = (Inr s, w) \<Longrightarrow> history up sha s w"
| operation: "history up sha s w \<Longrightarrow> inputs_ok up x s \<Longrightarrow> run_op up sha x s w = (s', w') \<Longrightarrow> history up sha s' w'"
| environment: "history up sha s w \<Longrightarrow> history up sha s (w\<lparr>faults := fs\<rparr>)"
| restart: "history up sha s w \<Longrightarrow> persistenceErr s = None \<Longrightarrow> 0 \<le> limit \<Longrightarrow>
    Open [limit] (crash keep old w) = (Inr s', w') \<Longrightarrow> history up sha s' w'"

definition boot_world :: "bytes \<Rightarrow> world" where
  "boot_world b =
     \<lparr>base = b, inodes = [\<lparr>idata = [], isynced = 0\<rparr>], dir = [(b, Regular 0)], durableEntry = Some 0,
      flockHeld = True, faults = []\<rparr>"

lemma Open_empty:
  assumes "0 \<le> limit"
  shows "Open [limit] (empty_world b) = (Inr (new_store 0 limit), boot_world b)"
proof -
  let ?w = "(empty_world b)\<lparr>flockHeld := True\<rparr>" and ?v = "boot_world b"
  have a: "removeAbandonedCompactions ?w = (None, ?w)"
    by (simp add: removeAbandonedCompactions_def empty_world_def abandoned_names_def gokeys_def Let_def sort_strings_def)
  have o: "os_open_journal ?w = (Some 0, ?v\<lparr>durableEntry := None\<rparr>)"
    by (simp add: os_open_journal_def empty_world_def boot_world_def)
  have y: "syncDirectory (?v\<lparr>durableEntry := None\<rparr>) = (None, ?v)"
    by (simp add: syncDirectory_clean boot_world_def journal_entry_def)
  have "open_locked limit ?w = replay (new_store 0 limit) ?v"
    using a o y by (simp add: open_locked_def Let_def empty_world_def)
  moreover have "replay (new_store 0 limit) ?v = (Inr (new_store 0 limit), ?v)"
    by (simp add: replay_def new_store_def os_read_def file_data_def boot_world_def replay_tail)
  moreover have "acquireJournalLock (empty_world b) = (None, ?w)"
    by (simp add: acquireJournalLock_def empty_world_def)
  ultimately show ?thesis
    using assms by (simp add: Open_def) (simp add: empty_world_def)
qed

lemma boot_durable:
  assumes "Open [limit] (empty_world b) = (Inr s, w)" "0 \<le> limit"
  shows "durable s w" "deliveries_ok s"
proof -
  have eq: "s = new_store 0 limit" "w = boot_world b"
    using assms Open_empty [OF assms(2), of b] by simp_all
  have "rebuilds [] s"
    by (simp add: rebuilds_def eq new_store_def tables_eq_def restored_tables_def empty_tables_def)
  moreover have "on_disk 0 [] 0 w"
    by (simp add: eq on_disk_def boot_world_def)
  ultimately have "holds legal 0 w torn s" for torn
    by (intro holdsI [of "[]" s "[]" "[]"]) simp_all
  moreover have "journal_entry w = Some 0" "durableEntry w = Some 0" "gomap_ok (dir w)" "journalFile s = Some 0"
    "tables_ok s" "storables s"
    by (simp_all add: eq journal_entry_def boot_world_def gomap_ok_def new_store_def storables_def tables_ok_empty)
  ultimately show "durable s w"
    unfolding durable_def by blast
  show "deliveries_ok s"
    by (simp add: eq new_store_def deliveries_ok_def)
qed

lemma deliveries_ok_restored: "deliveries_ok s \<Longrightarrow> deliveries_ok (restored_tables s)"
proof -
  assume ok: "deliveries_ok s"
  have "delivery_ok d \<Longrightarrow> delivery_ok (restored d)" for d
    by (auto simp: delivery_ok_def status_utf8 terminal_status_def)
  with ok show ?thesis
    by (auto simp: deliveries_ok_def)
qed

lemma deliveries_ok_eq: "tables_eq s t \<Longrightarrow> deliveries_ok t \<Longrightarrow> deliveries_ok s"
  by (simp add: deliveries_ok_def tables_eq_def)

lemma deliveries_ok_view: "deliveries_ok (view s) = deliveries_ok s"
  by (simp add: deliveries_ok_def)

lemma run_op_deliveries_ok:
  assumes "run_op up sha x s w = (s', w')" "tables_ok s" "fresh_id x s" "deliveries_ok s"
  shows "deliveries_ok s'"
  using steps_deliveries_ok [OF run_op_steps [OF assms(1-3)]] assms(4) by (simp add: deliveries_ok_view)

lemma history_ok:
  assumes "history up sha s w"
  shows "durable s w \<and> deliveries_ok s"
  using assms
proof (induction rule: history.induct)
  case (boot limit b s w)
  then show ?case
    using boot_durable by blast
next
  case (operation s w x s' w')
  then have "tables_ok s" "fresh_id x s"
    by (simp_all add: durable_def inputs_ok_def)
  then show ?case
    using operation durable_run_op run_op_deliveries_ok by blast
next
  case (environment s w fs)
  then show ?case
    by (auto intro: durable_same [of legal s w] simp: same_place_def)
next
  case (restart s w limit keep old s' w')
  obtain s2 w2 where r: "Open [limit] (crash keep old w) = (Inr s2, w2)"
    "persistenceErr s = None \<longrightarrow> tables_eq s2 (restored_tables s) \<and> durable s2 w2"
    using crash_recovers [OF conjunct1 [OF restart.IH] restart.hyps(3)] by metis
  then have "s' = s2" "w' = w2"
    using restart.hyps(4) by simp_all
  then show ?case
    using r(2) restart.hyps(2) restart.IH deliveries_ok_restored deliveries_ok_eq by blast
qed

end
