(* ===== verification/TornTail.thy ===== *)
theory TornTail
  imports CrashSafety
begin

section \<open>Appending after a torn record\<close>

text \<open>
  \<open>replay\<close> accepts a torn record at the end of the journal but leaves it there, and the
  journal is opened for appending: the next record continues the torn line. The line that
  results is not valid (\<open>glued_line\<close>), so that the start after the next one fails, although
  the append was acknowledged (\<open>torn_append_unreadable\<close>).
\<close>

lemma glued_line:
  fixes S :: Store
  assumes "list_all entry_ok es" "entry_ok e" "entry_ok e'" "entry_line e = t @ [CHR 0x0A]" "prefix p t" "p \<noteq> []"
  shows "replay_loop (journal.log es @ p @ entry_line e') 0 S = Inl (DecodeLine (length es + 1))"
proof -
  obtain t1 where t1: "entry_line e = t1 @ [CHR 0x0A]" "record_text t1"
    using assms(2) entry_record by metis
  obtain r u where r: "unmarshalRecord (entry_line e') = Some r" and u: "entry_line e' = u @ [CHR 0x0A]" "record_text u"
    using assms(3) entry_record by metis
  have t: "record_text t"
    using t1 assms(4) by simp
  obtain q where q: "t = p @ q"
    using assms(5) by (auto simp: prefix_def)
  obtain v where v: "entry_line e' = CHR ''{'' # CHR 0x22 # CHR ''v'' # v"
    using u by (auto simp: record_text_def)
  have "json_valid (entry_line e')"
    using r invalid_line_unreadable by fastforce
  then have "\<not> json_valid_lim max_nesting (p @ entry_line e')"
    using t q assms(6) v by (intro glued_invalid) (auto simp: record_text_def json_valid_def)
  then have bad: "unmarshalRecord ((p @ u) @ [CHR 0x0A]) = None"
    using u(1) by (intro invalid_line_unreadable) (simp add: json_valid_def)
  have nl: "CHR 0x0A \<notin> set (p @ u)"
    using t u(2) q by (auto simp: record_text_def)
  have "replay_loop ((p @ u) @ [CHR 0x0A]) n T = Inl (DecodeLine (n + 1))" for n and T :: Store
    using cut_at_found [OF nl, of "[]"] bad by (subst replay_loop.simps) simp
  then show ?thesis
    using u(1) by (simp add: journal.reader_log [OF assms(1)])
qed

lemma Open_replay_error:
  assumes w: "faults w = []" "\<not> flockHeld w" "journal_named f w" "f < length (inodes w)" "0 \<le> limit"
    and r: "replay_loop (idata (inodes w ! f)) 0 (new_store f limit) = Inl e"
  shows "fst (Open [limit] w) = Inl e"
proof -
  let ?w1 = "w\<lparr>flockHeld := True\<rparr>"
  have "faults ?w1 = []" "journal_named f ?w1"
    using w by (simp_all add: journal_named_def journal_entry_def)
  then obtain w2 where w2: "removeAbandonedCompactions ?w1 = (None, w2)" "journal_named f w2" "inodes w2 = inodes w"
    "faults w2 = []"
    by (rule removeAbandoned_clean) simp
  have e: "map_of (dir w2) (base w2) = Some (Regular f)"
    using w2(2) by (auto simp: journal_named_def journal_entry_def split: option.splits dirEntry.splits)
  then have o: "os_open_journal w2 = (Some f, w2)"
    using w2(4) by (simp add: os_open_journal_def)
  have "replay (new_store f limit) w2 = (Inl e, w2)"
    using r w2(3,4) w(4) by (simp add: replay_def new_store_def os_read_def file_data_def)
  then have "open_locked limit ?w1 = (Inl e, w2)"
    using w2 e o by (simp add: open_locked_def Let_def)
  moreover have "acquireJournalLock w = (None, ?w1)"
    using w(1,2) by (simp add: acquireJournalLock_def)
  ultimately show ?thesis
    using w(1,5) by (simp add: Open_def)
qed

text \<open>A directory as a crash leaves it: the journal and no lock.\<close>

definition journal_world :: "bytes \<Rightarrow> bytes \<Rightarrow> world" where
  "journal_world b text =
     \<lparr>base = b, inodes = [\<lparr>idata = text, isynced = length text\<rparr>], dir = [(b, Regular 0)], durableEntry = Some 0,
      flockHeld = False, faults = []\<rparr>"

lemma journal_world_named: "journal_named 0 (journal_world b text)"
  by (simp add: journal_named_def journal_world_def journal_entry_def gomap_ok_def)

lemma appendLocked_clean:
  assumes "faults w = []" "persistenceErr s = None" "journalFile s = Some f" "on_disk f x k w" "marshalRecord d h = Some l"
  obtains w' where "appendLocked d h s w = (None, s\<lparr>records := records s + 1\<rparr>, w')" "same_place w w'"
    "on_disk f (x @ l) (length (x @ l)) w'" "faults w' = []" "length (inodes w') = length (inodes w)"
proof -
  obtain w1 where w1: "os_write f l w = (True, w1)" "faults w1 = []"
    using assms(1) by (simp add: os_write_def syscall_def append_inode_def)
  obtain w2 where w2: "os_sync f w1 = (True, w2)" "faults w2 = []"
    using w1(2) by (simp add: os_sync_def sync_inode_def)
  obtain q where q: "q = l" "same_place w w1" "on_disk f (x @ q) k w1" "length (inodes w1) = length (inodes w)"
    using os_write_effect [OF w1(1) assms(4)] by metis
  note y = os_sync_effect [OF w2(1) q(3)]
  have "appendLocked d h s w = (None, s\<lparr>records := records s + 1\<rparr>, w2)"
    using assms(2,3,5) w1 w2 by (simp add: appendLocked_def appendDataLocked_def)
  then show thesis
    by (rule that) (use y q w2(2) same_place_trans [OF q(2) y(1)] in simp_all)
qed

theorem torn_append_unreadable:
  assumes "list_all entry_ok es" "entry_ok e" "entry_line e = t @ [CHR 0x0A]" "strict_prefix p t" "p \<noteq> []" "0 \<le> limit"
  obtains s w where "Open [limit] (journal_world b (journal.log es @ p)) = (Inr s, w)" "persistenceErr s = None"
    "\<And>d h. entry_ok (Put d h) \<Longrightarrow> \<exists>s' w'. appendLocked d h s w = (None, s', w') \<and>
       fst (Open [limit] (kill w')) = Inl (DecodeLine (length es + 1))"
proof -
  let ?w = "journal_world b (journal.log es @ p)"
  obtain t1 where "entry_line e = t1 @ [CHR 0x0A]" "record_text t1"
    using assms(2) entry_record by metis
  then have t: "object_text max_nesting t" "CHR 0x0A \<notin> set t"
    using assms(3) by (simp_all add: record_text_def)
  obtain q where q: "t = p @ q" "q \<noteq> []"
    using assms(4) by (auto simp: strict_prefix_def prefix_def)
  have "\<not> json_valid p"
    using object_prefix_invalid [OF t(1) q] by (simp add: json_valid_def)
  moreover have "CHR 0x0A \<notin> set p"
    using t(2) q(1) by simp
  ultimately have tail: "replay_loop p n S = Inr (S, n)" for n and S :: Store
    by (simp add: replay_tail invalid_line_unreadable)
  let ?S = "fold apply_entry es (new_store 0 limit)"
  let ?s = "?S\<lparr>records := records ?S + word_of_nat (length es)\<rparr>"
  have "replay_loop (idata (inodes ?w ! 0)) 0 (new_store 0 limit) = Inr (?S, length es)"
    using tail by (simp add: journal_world_def journal.reader_log [OF assms(1)])
  moreover have "faults ?w = []" "\<not> flockHeld ?w" "0 < length (inodes ?w)"
    by (simp_all add: journal_world_def)
  ultimately obtain w where w: "Open [limit] ?w = (Inr ?s, w)" "journal_named 0 w" "inodes w = inodes ?w" "faults w = []"
    using Open_clean [OF _ _ journal_world_named _ assms(6)] by metis
  have s: "persistenceErr ?s = None" "journalFile ?s = Some 0"
    by (simp_all add: fold_apply_frame new_store_def)
  have disk: "on_disk 0 (journal.log es @ p) 0 w"
    using w(3) by (simp add: on_disk_def journal_world_def)
  have "\<exists>s' w'. appendLocked d h ?s w = (None, s', w') \<and> fst (Open [limit] (kill w')) = Inl (DecodeLine (length es + 1))"
    if d: "entry_ok (Put d h)" for d h
  proof -
    obtain l where l: "marshalRecord d h = Some l" "entry_line (Put d h) = l"
      using d by (auto simp: entry_ok_def entry_text_def entry_line_def)
    obtain w' where w': "appendLocked d h ?s w = (None, ?s\<lparr>records := records ?s + 1\<rparr>, w')" "same_place w w'"
      "on_disk 0 ((journal.log es @ p) @ l) (length ((journal.log es @ p) @ l)) w'" "length (inodes w') = length (inodes w)"
      using appendLocked_clean [OF w(4) s disk l(1)] by blast
    have n: "journal_named 0 (kill w')"
      using w(2) journal_named_place [OF w'(2)] by (simp add: kill_def journal_named_def journal_entry_def)
    have i: "0 < length (inodes (kill w'))" "idata (inodes (kill w') ! 0) = journal.log es @ p @ l"
      using w'(3) by (simp_all add: on_disk_def kill_def)
    have "replay_loop (idata (inodes (kill w') ! 0)) 0 (new_store 0 limit) = Inl (DecodeLine (length es + 1))"
      using glued_line [OF assms(1,2) d assms(3) _ assms(5)] assms(4) l(2) i(2) by (simp add: strict_prefix_def)
    then have "fst (Open [limit] (kill w')) = Inl (DecodeLine (length es + 1))"
      using n i(1) assms(6) by (intro Open_replay_error [where f = 0]) (simp_all add: kill_def)
    then show ?thesis
      using w'(1) by blast
  qed
  then show thesis
    using that [OF w(1) s(1)] by blast
qed

end
