(* ===== verification/StoreOps.thy ===== *)
theory StoreOps
  imports Scheduling TornTail
begin

section \<open>Results of the operations\<close>

text \<open>
  What the operations return, branch by branch: claims and leases, what a creation computes,
  the admission limit, the persistence error that blocks every mutation, and the lock.
\<close>

subsection \<open>Claims and leases\<close>

lemma find_ID:
  assumes "distinct (List.map ID l)"
  shows "c \<in> set l \<Longrightarrow> find (\<lambda>x. ID x = ID c) l = Some c" "i \<notin> ID ` set l \<Longrightarrow> find (\<lambda>x. ID x = i) l = None"
proof -
  show "c \<in> set l \<Longrightarrow> find (\<lambda>x. ID x = ID c) l = Some c"
    using assms by (induction l) (auto simp: image_iff)
  show "i \<notin> ID ` set l \<Longrightarrow> find (\<lambda>x. ID x = i) l = None"
    by (auto simp: find_None_iff)
qed

lemma claim_view_items:
  assumes "distinct (List.map ID cs)"
  shows "map_of (items (claim_view now lease cs t)) i =
    (case find (\<lambda>c. ID c = i) cs of None \<Rightarrow> map_of (items t) i | Some c \<Rightarrow> Some (Clone (claim_item now lease c)))"
  using assms
proof (induction cs arbitrary: t)
  case (Cons c cs)
  have "find (\<lambda>x. ID x = ID c) cs = None"
    using Cons.prems by (intro find_ID(2)) simp_all
  then show ?case
    using Cons by (auto simp: map_of_setLocked split: option.splits)
qed simp

lemma Claim_cases:
  assumes "ClaimDueMatching now lease limit eligible s w = ((cl, err), s', w')" "tables_ok s"
  obtains k where "cl = List.map (\<lambda>c. Clone (claim_item now lease c)) (take k (candidates now eligible (nat limit) s))"
    "view s' = claim_view now lease (take k (candidates now eligible (nat limit) s)) (view s)"
    "err = None \<longleftrightarrow> k = length (candidates now eligible (nat limit) s)" "limit < 1 \<Longrightarrow> k = 0"
    "distinct (List.map ID (take k (candidates now eligible (nat limit) s)))"
proof (cases "limit < 1")
  case True
  with assms show ?thesis
    by (intro that [of 0]) (auto simp: ClaimDueMatching_def candidates_def)
next
  case False
  let ?cs = "candidates now eligible (nat limit) s"
  have "claim_loop now lease ?cs [] s w = ((cl, err), s', w')"
    using assms False by (simp add: ClaimDueMatching_def)
  then obtain k where "k \<le> length ?cs" "cl = List.map (\<lambda>c. Clone (claim_item now lease c)) (take k ?cs)"
    "view s' = claim_view now lease (take k ?cs) (view s)" "err = None \<longleftrightarrow> k = length ?cs"
    using claim_loop_view [of now lease ?cs "[]" s w cl err s' w'] by auto
  moreover have "distinct (List.map ID (take k ?cs))"
    using candidates_facts(1) [OF assms(2)] by (simp flip: take_map)
  ultimately show ?thesis
    using False by (intro that [of k]) auto
qed

lemma claimed_stored:
  assumes "ClaimDueMatching now lease limit eligible s w = ((cl, err), s', w')" "tables_ok s" "d \<in> set cl"
  shows "map_of (items s') (ID d) = Some d" "Status d = StatusInFlight" "LeaseUntil d = now + lease" "eligible (Clone (the (map_of (items s) (ID d))))"
    "\<exists>c. map_of (items s) (ID d) = Some c \<and> due now c \<and> d = Clone (claim_item now lease c)"
proof -
  obtain k where k: "cl = List.map (\<lambda>c. Clone (claim_item now lease c)) (take k (candidates now eligible (nat limit) s))"
    "view s' = claim_view now lease (take k (candidates now eligible (nat limit) s)) (view s)"
    "distinct (List.map ID (take k (candidates now eligible (nat limit) s)))"
    using assms(1,2) by (rule Claim_cases)
  obtain c where c: "c \<in> set (take k (candidates now eligible (nat limit) s))" "d = Clone (claim_item now lease c)"
    using assms(3) k(1) by auto
  have "c \<in> set (candidates now eligible (nat limit) s)"
    using c(1) by (rule in_set_takeD)
  then have src: "map_of (items s) (ID c) = Some c" "due now c" "eligible (Clone c)"
    using candidates_facts(2) [OF assms(2), of now eligible "nat limit"] by simp_all
  have id: "ID d = ID c"
    using c(2) by simp
  have "find (\<lambda>x. ID x = ID c) (take k (candidates now eligible (nat limit) s)) = Some c"
    using k(3) c(1) by (rule find_ID(1))
  then have "map_of (items (view s')) (ID c) = Some (Clone (claim_item now lease c))"
    unfolding k(2) using claim_view_items [OF k(3)] by simp
  then show "map_of (items s') (ID d) = Some d"
    using c(2) id by simp
  show "Status d = StatusInFlight" "LeaseUntil d = now + lease"
    using c(2) by (simp_all add: claim_item_def)
  show "\<exists>c. map_of (items s) (ID d) = Some c \<and> due now c \<and> d = Clone (claim_item now lease c)"
    using src c(2) id by auto
  show "eligible (Clone (the (map_of (items s) (ID d))))"
    using src id by simp
qed

lemma run_op_Claim: "ClaimDueMatching now lease limit eligible s w = (r, s', w') \<Longrightarrow>
    run_op up sha (OpClaim now lease limit eligible) s w = (s', w')"
  by simp

lemma Claim_tables_ok:
  assumes "ClaimDueMatching now lease limit eligible s w = ((cl, err), s', w')" "tables_ok s"
  shows "tables_ok s'"
  using steps_tables_ok [OF Claim_steps [OF assms]] assms(2) by simp

lemma lease_refused:
  assumes "\<And>d. map_of (items s) i = Some d \<Longrightarrow> Status d = StatusInFlight \<Longrightarrow> Attempts d \<noteq> att"
  shows "currentLeaseLocked i att s = Inl (if map_of (items s) i = None then ErrNotFound else ErrStaleLease)"
  using assms by (auto simp: currentLeaseLocked_def split: option.splits)

lemma persist_stored:
  assumes "persistLocked e s w = (None, s', w')" "tables_ok s" "map_of (items s) i = Some d" "same_identity d e"
  shows "map_of (items s') = (map_of (items s))(i \<mapsto> e)" "view s' = setLocked e (lookup_or [] (hashes s) i) (view s)"
proof -
  have e: "ID e = i" "Clone e = e"
    using update_ok(2,4) [OF assms(2-4)] .
  have v: "view s' = setLocked e (lookup_or [] (hashes s) (ID e)) (view s)"
    using assms(1) by (cases rule: persist_cases) simp_all
  then have "items s' = items (setLocked e (lookup_or [] (hashes s) (ID e)) (view s))"
    by (metis view_simps(1))
  then show "map_of (items s') = (map_of (items s))(i \<mapsto> e)"
    using e by (simp add: map_of_setLocked)
  show "view s' = setLocked e (lookup_or [] (hashes s) i) (view s)"
    using v e by simp
qed

lemma outcome_stored:
  assumes "tables_ok s"
  shows "Succeed i att code now s w = (None, s', w') \<Longrightarrow>
      \<exists>d. map_of (items s) i = Some d \<and> Status d = StatusInFlight \<and> Attempts d = att \<and>
        map_of (items s') = (map_of (items s))(i \<mapsto> succeeded_item code now d)"
    "Fail i att code msg nxt terminal now s w = (None, s', w') \<Longrightarrow>
      \<exists>d. map_of (items s) i = Some d \<and> Status d = StatusInFlight \<and> Attempts d = att \<and>
        map_of (items s') = (map_of (items s))(i \<mapsto> failed_item code msg nxt terminal now d)"
proof -
  show "\<exists>d. map_of (items s) i = Some d \<and> Status d = StatusInFlight \<and> Attempts d = att \<and>
      map_of (items s') = (map_of (items s))(i \<mapsto> succeeded_item code now d)"
    if a: "Succeed i att code now s w = (None, s', w')"
  proof (cases rule: lease_cases [of s i att])
    case (current d)
    then have "persistLocked (succeeded_item code now d) s w = (None, s', w')"
      using a by (simp add: Succeed_def)
    then show ?thesis
      using persist_stored(1) [OF _ assms current(1)] current by fastforce
  qed (use a in \<open>simp_all add: Succeed_def\<close>)
  show "\<exists>d. map_of (items s) i = Some d \<and> Status d = StatusInFlight \<and> Attempts d = att \<and>
      map_of (items s') = (map_of (items s))(i \<mapsto> failed_item code msg nxt terminal now d)"
    if a: "Fail i att code msg nxt terminal now s w = (None, s', w')"
  proof (cases rule: lease_cases [of s i att])
    case (current d)
    then have "persistLocked (failed_item code msg nxt terminal now d) s w = (None, s', w')"
      using a by (simp add: Fail_def)
    then show ?thesis
      using persist_stored(1) [OF _ assms current(1)] current by fastforce
  qed (use a in \<open>simp_all add: Fail_def\<close>)
qed

subsection \<open>The persistence error\<close>

lemma append_blocked: "persistenceErr s = Some e \<Longrightarrow> appendDataLocked p n s w = (Some e, s, w)"
  by (simp add: appendDataLocked_def)

lemma appendLocked_blocked:
  "persistenceErr s = Some e \<Longrightarrow> appendLocked d h s w = (Some (if marshalRecord d h = None then EncodeRecord else e), s, w)"
  by (simp add: appendLocked_def append_blocked split: option.splits)

lemma persist_blocked:
  assumes "persistenceErr s = Some e"
  shows "snd (persistLocked d s w) = (s, w)" "fst (persistLocked d s w) \<noteq> None" "snd (persist_return d s w) = (s, w)"
    "\<exists>e'. fst (persist_return d s w) = Inl e'"
  using assms by (simp_all add: persist_return_def persistLocked_def Let_def appendLocked_blocked)

lemma admission_blocked:
  assumes "persistenceErr s = Some e"
  shows "\<exists>r w'. checkAdmissionLocked d h s w = (r, s, w') \<and> same_place w w' \<and> inodes w' = inodes w"
proof (cases "journalFile s")
  case None
  then show ?thesis
    using assms by (auto simp: checkAdmissionLocked_def failPersistenceLocked_def split: option.splits)
next
  case (Some f)
  obtain ok w1 where a: "attempt w = (ok, w1)"
    by (cases "attempt w")
  show ?thesis
    using Some assms a attempt_frame [OF a]
    by (auto simp: checkAdmissionLocked_def failPersistenceLocked_def os_stat_def split: option.splits)
qed

lemma op_blocked:
  assumes "persistenceErr s = Some e" "x \<noteq> OpCompact" "run_op up sha x s w = (s', w')"
  shows "s' = s \<and> same_place w w' \<and> inodes w' = inodes w"
proof (cases x)
  case (OpCreate raw req now)
  then have c: "Create up sha raw req now s w = (fst (Create up sha raw req now s w), s', w')"
    using assms(3) by (metis prod.collapse run_op.simps(1))
  have adm: "s1 = s \<and> same_place w w1 \<and> inodes w1 = inodes w" if "checkAdmissionLocked d h s w = (r, s1, w1)" for d h r s1 w1
    using admission_blocked [OF assms(1), of d h w] that by auto
  show ?thesis
    using c
  proof (cases rule: Create_cases)
    case (refused d h e')
    then show ?thesis
      using adm by blast
  next
    case (failed d h e' w1)
    then show ?thesis
      using adm [OF failed(3)] appendLocked_blocked [OF assms(1), of d h w1] by simp
  next
    case (created d h w1 s2)
    then show ?thesis
      using appendLocked_blocked [OF assms(1), of d h w1] by simp
  qed simp_all
next
  case (OpClaim now lease limit eligible)
  have "snd (claim_loop now lease cs cl s w) = (s, w)" for cs cl
    by (cases cs) (simp_all add: Let_def appendLocked_blocked [OF assms(1)])
  then show ?thesis
    using assms(3) OpClaim by (auto simp: ClaimDueMatching_def split: if_splits)
next
  case (OpSucceed i att code now)
  have "snd (Succeed i att code now s w) = (s, w)"
    by (simp add: Succeed_def persist_blocked [OF assms(1)] split: sum.split)
  then show ?thesis
    using assms(3) OpSucceed by simp
next
  case (OpFail i att code msg nxt terminal now)
  have "snd (Fail i att code msg nxt terminal now s w) = (s, w)"
    by (simp add: Fail_def persist_blocked [OF assms(1)] split: sum.split)
  then show ?thesis
    using assms(3) OpFail by simp
next
  case (OpCancel i now)
  have "snd (Cancel i now s w) = (s, w)"
    by (simp add: Cancel_def persist_blocked [OF assms(1)] split: option.split)
  then show ?thesis
    using assms(3) OpCancel by simp
next
  case (OpRetry i now)
  have "snd (Retry i now s w) = (s, w)"
    by (simp add: Retry_def persist_blocked [OF assms(1)] split: option.split)
  then show ?thesis
    using assms(3) OpRetry by simp
next
  case (OpPrune before)
  then show ?thesis
    using assms(3) by (auto simp: PruneTerminal_def append_blocked [OF assms(1)] Let_def split: if_splits)
qed (use assms in simp)

lemma Ready_blocked: "persistenceErr s = Some e \<Longrightarrow> Ready s w = (Some e, w)"
  by (simp add: Ready_def)

subsection \<open>Creation\<close>

lemma New_hash:
  assumes "New up sha raw req now = Inr (d, h)" "normalize up req = Inr r"
  shows "h = fingerprint sha r" "IdempotencyKey d = reqIdempotencyKey r"
  using assms by (auto simp: New_def split: option.splits)

lemma New_defined: "normalize up req = Inr r \<Longrightarrow> \<exists>d. New up sha (Some raw) req now = Inr (d, fingerprint sha r)"
  by (simp add: New_def newID_def)

lemma write_length: "os_write f p w = (True, w') \<Longrightarrow> length (file_data f w') \<le> length (file_data f w) + length p"
  by (auto simp: os_write_def syscall_def append_inode_def file_data_def split: fault.splits prod.splits list.splits)

lemma sync_data: "os_sync f w = (ok, w') \<Longrightarrow> file_data f w' = file_data f w"
  by (auto simp: os_sync_def sync_inode_def attempt_def syscall_def file_data_def split: prod.splits list.splits if_splits)

lemma Create_admitted:
  assumes "Create up sha raw req now s w = (Inr (d, True), s1, w1)" "maxJournalBytes s \<noteq> 0" "journalFile s = Some f"
  shows "int (length (file_data f w1)) \<le> maxJournalBytes s"
  using assms(1)
proof (cases rule: Create_cases)
  case (created d0 h w' s2)
  obtain p where p: "marshalRecord d0 h = Some p" "appendDataLocked p 1 s w' = (None, s2, w1)"
    using created(4) by (cases rule: append_cases) auto
  obtain sz where sz: "os_stat f w = (Some sz, w')" "int sz + int (length p) \<le> maxJournalBytes s"
    using created(3) p(1) assms(2,3) by (auto simp: checkAdmissionLocked_def failPersistenceLocked_def split: prod.splits option.splits if_splits)
  have data: "sz = length (file_data f w')"
    using sz(1) by (auto simp: os_stat_def split: prod.splits if_splits)
  obtain v where v: "os_write f p w' = (True, v)" "os_sync f v = (True, w1)"
    using p(2) assms(3) by (cases rule: appendData_cases) auto
  show ?thesis
    using write_length [OF v(1)] sync_data [OF v(2)] sz(2) data by simp
qed simp_all

subsection \<open>The lock\<close>

lemma acquire_held:
  assumes "flockHeld w" "acquireJournalLock w = (r, w')"
  shows "r \<noteq> None" "same_place w w'" "inodes w' = inodes w" "faults w = [] \<Longrightarrow> r = Some ErrJournalLocked"
proof -
  obtain a w1 where a: "attempt w = (a, w1)"
    by (cases "attempt w")
  obtain b w2 where b: "attempt w1 = (b, w2)"
    by (cases "attempt w1")
  obtain c w3 where c: "attempt w2 = (c, w3)"
    by (cases "attempt w2")
  note fr = attempt_frame [OF a] attempt_frame [OF b] attempt_frame [OF c]
  have held: "flockHeld w3"
    using assms(1) fr by (simp add: same_place_def)
  have "r \<noteq> None \<and> same_place w w' \<and> inodes w' = inodes w"
    using assms(2) a b c fr held by (cases a; cases b) (auto simp: acquireJournalLock_def same_place_def)
  then show "r \<noteq> None" "same_place w w'" "inodes w' = inodes w"
    by simp_all
  show "faults w = [] \<Longrightarrow> r = Some ErrJournalLocked"
    using assms by (simp add: acquireJournalLock_def)
qed

lemma Open_held:
  assumes "flockHeld w" "Open options w = (r, w')"
  shows "\<exists>e. r = Inl e" "same_place w w'" "inodes w' = inodes w"
proof -
  obtain a w1 where a: "attempt w = (a, w1)"
    by (cases "attempt w")
  note fr = attempt_frame [OF a]
  obtain q w2 where q: "acquireJournalLock w1 = (q, w2)"
    by (cases "acquireJournalLock w1")
  have held: "flockHeld w1"
    using assms(1) fr(1) by (simp add: same_place_def)
  note ac = acquire_held [OF held q]
  have "(\<exists>e. r = Inl e) \<and> same_place w w' \<and> inodes w' = inodes w"
    using assms(2) a q ac(1-3) fr same_place_trans [OF fr(1) ac(2)]
    by (auto simp: Open_def Let_def split: if_splits option.splits)
  then show "\<exists>e. r = Inl e" "same_place w w'" "inodes w' = inodes w"
    by simp_all
qed

end
