(* ===== verification/ErrorState.thy ===== *)
theory ErrorState
  imports CrashSafety
begin

section \<open>The recorded failure\<close>

text \<open>
  The error a store has recorded is always a persistence error (\<open>errors.Is(err, ErrPersistence)\<close>),
  in every state of a run; so clients that look at the kind of an error are told the truth.
\<close>

definition is_persistence :: "store_error \<Rightarrow> bool" where
  "is_persistence e = (case e of ErrPersistence _ \<Rightarrow> True | _ \<Rightarrow> False)"

definition error_sound :: "Store \<Rightarrow> bool" where
  "error_sound s \<longleftrightarrow> (\<forall>e. persistenceErr s = Some e \<longrightarrow> is_persistence e)"

lemma failPersistence_sound:
  "failPersistenceLocked c s = (e, s') \<Longrightarrow> error_sound s \<Longrightarrow> error_sound s' \<and> is_persistence e"
  by (auto simp: failPersistenceLocked_def error_sound_def is_persistence_def split: option.splits)

lemma appendData_sound:
  assumes "appendDataLocked p n s w = (r, s', w')" "error_sound s"
  shows "error_sound s' \<and> (\<forall>e. r = Some e \<longrightarrow> is_persistence e)"
  using assms
  by (auto simp: appendDataLocked_def dest: failPersistence_sound split: option.splits prod.splits if_splits)
    (auto simp: error_sound_def)

lemma append_sound:
  assumes "appendLocked d h s w = (r, s', w')" "error_sound s"
  shows "error_sound s' \<and> (\<forall>e. r = Some e \<longrightarrow> is_persistence e \<or> e = EncodeRecord)"
  using assms by (auto simp: appendLocked_def dest: appendData_sound split: option.splits)

lemma set_sound [simp]: "error_sound (setLocked d h s) = error_sound s"
  by (simp add: error_sound_def setLocked_def Let_def)

lemma delete_sound [simp]: "error_sound (deleteLocked i s) = error_sound s"
  by (simp add: error_sound_def deleteLocked_def Let_def split: option.split)

lemma fold_delete_sound [simp]: "error_sound (fold deleteLocked ids s) = error_sound s"
  by (induction ids arbitrary: s) simp_all

lemma persist_sound:
  assumes "persistLocked d s w = (r, s', w')" "error_sound s"
  shows "error_sound s' \<and> (\<forall>e. r = Some e \<longrightarrow> is_persistence e \<or> e = EncodeRecord)"
  using assms by (auto simp: persistLocked_def Let_def dest: append_sound split: option.splits prod.splits)

lemma persist_return_sound:
  assumes "persist_return d s w = (r, s', w')" "error_sound s"
  shows "error_sound s' \<and> (\<forall>e. r = Inl e \<longrightarrow> is_persistence e \<or> e = EncodeRecord)"
  using assms by (auto simp: persist_return_def dest: persist_sound split: option.splits prod.splits)

lemma admission_sound:
  assumes "checkAdmissionLocked d h s w = (r, s', w')" "error_sound s"
  shows "error_sound s' \<and> (\<forall>e. r = Some e \<longrightarrow> is_persistence e \<or> e = EncodeRecord \<or> e = ErrJournalFull)"
  using assms
  by (auto simp: checkAdmissionLocked_def dest: failPersistence_sound split: option.splits prod.splits if_splits)

lemma Create_sound:
  assumes "Create up sha raw req now s w = (r, s', w')" "error_sound s"
  shows "error_sound s'"
  using assms(1)
proof (cases rule: Create_cases)
  case (refused d h e)
  then show ?thesis
    using admission_sound assms(2) by blast
next
  case (failed d h e w1)
  then show ?thesis
    using append_sound assms(2) by blast
next
  case (created d h w1 s2)
  then show ?thesis
    using append_sound [OF created(4) assms(2)] by simp
qed (use assms(2) in simp_all)

lemma claim_loop_sound:
  assumes "claim_loop now lease cs cl s w = (r, s', w')" "error_sound s"
  shows "error_sound s'"
  using assms
proof (induction cs arbitrary: cl s w)
  case (Cons c cs)
  obtain a s1 w1 where a: "appendLocked (claim_item now lease c) (lookup_or [] (hashes s) (ID (claim_item now lease c))) s w = (a, s1, w1)"
    by (cases "appendLocked (claim_item now lease c) (lookup_or [] (hashes s) (ID (claim_item now lease c))) s w") auto
  show ?case
    using Cons a append_sound [OF a Cons.prems(2)] by (auto simp: Let_def split: option.splits)
qed simp

lemma adopt_sound: "compact_adopt f n s w = (r, s', w') \<Longrightarrow> error_sound s \<Longrightarrow> error_sound s'"
  by (auto simp: compact_adopt_def adoptCompactedLocked_def Let_def failPersistenceLocked_def error_sound_def is_persistence_def
      split: prod.splits option.splits if_splits)

lemma Compact_sound:
  assumes "Compact s w = (r, s', w')" "error_sound s"
  shows "error_sound s'"
proof -
  obtain r1 s1 w1 where b: "compact_body s w = (r1, s1, w1)"
    by (cases "compact_body s w") auto
  then have "error_sound s1"
    using assms(2) by (auto simp: compact_body_def dest: adopt_sound split: option.splits prod.splits if_splits)
  then show ?thesis
    using assms(1) b by (auto simp: Compact_def error_sound_def split: option.splits)
qed

lemma pruned_sound [simp]: "error_sound (s\<lparr>prunedDeliveries := n\<rparr>) = error_sound s"
  by (simp add: error_sound_def)

lemma run_op_sound:
  assumes "run_op up sha x s w = (s', w')" "error_sound s"
  shows "error_sound s'"
proof (cases x)
  case (OpCreate raw req now)
  then have "Create up sha raw req now s w = (fst (Create up sha raw req now s w), s', w')"
    using assms(1) by (metis prod.collapse run_op.simps(1))
  then show ?thesis
    using Create_sound assms(2) by blast
next
  case (OpClaim now lease limit eligible)
  then show ?thesis
    using assms claim_loop_sound by (fastforce simp: ClaimDueMatching_def snd_def split: if_splits prod.splits)
next
  case (OpSucceed i att code now)
  then show ?thesis
    using assms persist_sound by (fastforce simp: Succeed_def snd_def split: sum.splits prod.splits)
next
  case (OpFail i att code msg nxt terminal now)
  then show ?thesis
    using assms persist_sound by (fastforce simp: Fail_def snd_def split: sum.splits prod.splits)
next
  case (OpCancel i now)
  then show ?thesis
    using assms persist_return_sound by (fastforce simp: Cancel_def snd_def split: option.splits if_splits prod.splits)
next
  case (OpRetry i now)
  then show ?thesis
    using assms persist_return_sound by (fastforce simp: Retry_def snd_def split: option.splits if_splits prod.splits)
next
  case (OpPrune before)
  then show ?thesis
    using assms
    by (auto simp: PruneTerminal_def Let_def dest!: appendData_sound split: option.splits if_splits prod.splits)
next
  case OpCompact
  then show ?thesis
    using assms Compact_sound by (fastforce simp: snd_def split: prod.splits)
qed

lemma history_sound:
  assumes "history up sha s w"
  shows "error_sound s"
  using assms
proof (induction rule: history.induct)
  case (boot limit b s w)
  then show ?case
    using Open_empty [OF boot(1), of b] by (auto simp: error_sound_def new_store_def)
next
  case (operation s w x s' w')
  then show ?case
    using run_op_sound by blast
next
  case (restart s w limit keep old s' w')
  obtain s2 w2 where "Open [limit] (crash keep old w) = (Inr s2, w2)" "persistenceErr s2 = None"
    using crash_recovers [OF conjunct1 [OF history_ok [OF restart.hyps(1)]] restart.hyps(3)] by metis
  then show ?case
    using restart.hyps(4) by (simp add: error_sound_def)
qed

end
