(* ===== verification/StoreSpec.thy ===== *)
theory StoreSpec
  imports StoreOps ErrorState
begin

section \<open>What each operation of the store is asked to do\<close>

text \<open>
  An abstract store has one map instead of three: from identifiers to a delivery and the hash
  of its request (\<open>shelf_of\<close>). \<open>asks\<close> says, without journal, index and iteration order, what each
  operation is to do in a state: refuse with an error, or make a list of changes. The
  theorems: every operation refuses exactly as asked, or makes the changes, all if it reports no error
  (\<open>op_carried_out\<close>, \<open>op_shelf\<close>); theory \<open>PendingWrites\<close> follows the changes to the disk.
\<close>

subsection \<open>The abstract store\<close>

type_synonym shelf = "bytes \<rightharpoonup> Delivery \<times> bytes"

definition shelf_of :: "'a tables_scheme \<Rightarrow> shelf" where
  "shelf_of t i = map_option (\<lambda>d. (d, lookup_or [] (hashes t) i)) (map_of (items t) i)"

fun put_entry :: "entry \<Rightarrow> shelf \<Rightarrow> shelf" where
  "put_entry (Put d h) a = a(ID d \<mapsto> (d, h))"
| "put_entry (Del i) a = a(i := None)"

definition restored_shelf :: "shelf \<Rightarrow> shelf" where
  "restored_shelf a i = map_option (\<lambda>(d, h). (restored d, h)) (a i)"

text \<open>The deliveries a claim may take, in the order it takes them.\<close>

definition claim_order :: "int \<Rightarrow> (Delivery \<Rightarrow> bool) \<Rightarrow> shelf \<Rightarrow> (Delivery \<times> bytes) list \<Rightarrow> bool" where
  "claim_order now eligible a q \<longleftrightarrow>
     sorted (List.map (claim_key \<circ> fst) q) \<and> distinct (List.map (ID \<circ> fst) q) \<and>
     set q = {(d, h). a (ID d) = Some (d, h) \<and> eligible d \<and>
       (Status d = StatusPending \<and> NextAttemptAt d \<le> now \<or> Status d = StatusInFlight \<and> LeaseUntil d \<le> now)}"

inductive asks ::
  "(bytes \<Rightarrow> url option) \<Rightarrow> (bytes \<Rightarrow> bytes) \<Rightarrow> shelf \<Rightarrow> op \<Rightarrow> store_error + entry list \<Rightarrow> bool" for up sha a where
  rejected: "New up sha raw req now = Inl e \<Longrightarrow> asks up sha a (OpCreate raw req now) (Inl (Rejected e))"
| conflict: "New up sha raw req now = Inr (d, h) \<Longrightarrow> IdempotencyKey d \<noteq> [] \<Longrightarrow> a i = Some (e, g) \<Longrightarrow>
    IdempotencyKey e = IdempotencyKey d \<Longrightarrow> g \<noteq> h \<Longrightarrow> asks up sha a (OpCreate raw req now) (Inl ErrIdempotencyConflict)"
| repeated: "New up sha raw req now = Inr (d, h) \<Longrightarrow> IdempotencyKey d \<noteq> [] \<Longrightarrow> a i = Some (e, h) \<Longrightarrow>
    IdempotencyKey e = IdempotencyKey d \<Longrightarrow> asks up sha a (OpCreate raw req now) (Inr [])"
| created: "New up sha raw req now = Inr (d, h) \<Longrightarrow>
    IdempotencyKey d = [] \<or> (\<forall>i e g. a i = Some (e, g) \<longrightarrow> IdempotencyKey e \<noteq> IdempotencyKey d) \<Longrightarrow>
    asks up sha a (OpCreate raw req now) (Inr [Put d h])"
| claimed: "claim_order now eligible a q \<Longrightarrow>
    asks up sha a (OpClaim now lease limit eligible) (Inr (List.map (\<lambda>(d, h).
      Put (d\<lparr>Status := StatusInFlight, Attempts := Attempts d + 1, LeaseUntil := now + lease, UpdatedAt := now\<rparr>) h)
      (take (nat limit) q)))"
| succeeded: "a i = Some (d, h) \<Longrightarrow> Status d = StatusInFlight \<Longrightarrow> Attempts d = att \<Longrightarrow>
    asks up sha a (OpSucceed i att code now) (Inr [Put (d\<lparr>Status := StatusSucceeded, LastResponseCode := code, LastError := [],
      NextAttemptAt := zero_time, LeaseUntil := zero_time, UpdatedAt := now\<rparr>) h])"
| failed: "a i = Some (d, h) \<Longrightarrow> Status d = StatusInFlight \<Longrightarrow> Attempts d = att \<Longrightarrow>
    asks up sha a (OpFail i att code msg nxt terminal now) (Inr [Put (d\<lparr>LastResponseCode := code, LastError := msg,
      LeaseUntil := zero_time, UpdatedAt := now, Status := (if terminal then StatusFailed else StatusPending),
      NextAttemptAt := (if terminal then zero_time else nxt)\<rparr>) h])"
| not_leased: "x = OpSucceed i att code now \<or> x = OpFail i att code msg nxt terminal now \<Longrightarrow> a i = Some (d, h) \<Longrightarrow>
    Status d \<noteq> StatusInFlight \<or> Attempts d \<noteq> att \<Longrightarrow> asks up sha a x (Inl ErrStaleLease)"
| canceled: "a i = Some (d, h) \<Longrightarrow> Status d = StatusPending \<or> Status d = StatusInFlight \<Longrightarrow>
    asks up sha a (OpCancel i now) (Inr [Put (d\<lparr>Status := StatusCanceled, NextAttemptAt := zero_time,
      LeaseUntil := zero_time, UpdatedAt := now\<rparr>) h])"
| not_cancelable: "a i = Some (d, h) \<Longrightarrow> Status d \<noteq> StatusPending \<Longrightarrow> Status d \<noteq> StatusInFlight \<Longrightarrow>
    asks up sha a (OpCancel i now) (Inl ErrInvalidTransition)"
| retried: "a i = Some (d, h) \<Longrightarrow> Status d = StatusFailed \<Longrightarrow>
    asks up sha a (OpRetry i now) (Inr [Put (d\<lparr>Status := StatusPending, Attempts := 0, NextAttemptAt := now,
      LeaseUntil := zero_time, LastError := [], LastResponseCode := 0, UpdatedAt := now\<rparr>) h])"
| not_failed: "a i = Some (d, h) \<Longrightarrow> Status d \<noteq> StatusFailed \<Longrightarrow> asks up sha a (OpRetry i now) (Inl ErrInvalidTransition)"
| unknown: "x = OpSucceed i att code now \<or> x = OpFail i att code msg nxt terminal now \<or> x = OpCancel i now \<or> x = OpRetry i now \<Longrightarrow>
    a i = None \<Longrightarrow> asks up sha a x (Inl ErrNotFound)"
| pruned: "distinct ids \<Longrightarrow>
    set ids = {i. \<exists>d h. a i = Some (d, h) \<and> UpdatedAt d \<le> before \<and> Status d \<in> {StatusSucceeded, StatusFailed, StatusCanceled}} \<Longrightarrow>
    asks up sha a (OpPrune before) (Inr (List.map Del ids))"
| compacted: "asks up sha a OpCompact (Inr [])"

inductive_cases asks_createE: "asks up sha a (OpCreate raw req now) r"
inductive_cases asks_cancelE: "asks up sha a (OpCancel i now) r"

text \<open>The error an operation reports.\<close>

fun op_error :: "(bytes \<Rightarrow> url option) \<Rightarrow> (bytes \<Rightarrow> bytes) \<Rightarrow> op \<Rightarrow> Store \<Rightarrow> world \<Rightarrow> store_error option" where
  "op_error up sha (OpCreate raw req now) s w = (case fst (Create up sha raw req now s w) of Inl e \<Rightarrow> Some e | Inr _ \<Rightarrow> None)"
| "op_error up sha (OpClaim now lease limit eligible) s w = snd (fst (ClaimDueMatching now lease limit eligible s w))"
| "op_error up sha (OpSucceed i att code now) s w = fst (Succeed i att code now s w)"
| "op_error up sha (OpFail i att code msg nxt terminal now) s w = fst (Fail i att code msg nxt terminal now s w)"
| "op_error up sha (OpCancel i now) s w = (case fst (Cancel i now s w) of Inl e \<Rightarrow> Some e | Inr _ \<Rightarrow> None)"
| "op_error up sha (OpRetry i now) s w = (case fst (Retry i now s w) of Inl e \<Rightarrow> Some e | Inr _ \<Rightarrow> None)"
| "op_error up sha (OpPrune before) s w = snd (fst (PruneTerminal before s w))"
| "op_error up sha OpCompact s w = fst (Compact s w)"

subsection \<open>The plan of an operation, from the three maps\<close>

text \<open>What the code computes for \<open>asks\<close>: the error, or the entries it goes on to write.\<close>

fun planned :: "(bytes \<Rightarrow> url option) \<Rightarrow> (bytes \<Rightarrow> bytes) \<Rightarrow> op \<Rightarrow> 'a tables_scheme \<Rightarrow> store_error + entry list" where
  "planned up sha (OpCreate raw req now) t =
     (case New up sha raw req now of
        Inl e \<Rightarrow> Inl (Rejected e)
      | Inr (d, h) \<Rightarrow>
          (case (if IdempotencyKey d \<noteq> [] then map_of (keyToID t) (IdempotencyKey d) else None) of
             Some i \<Rightarrow> if lookup_or [] (hashes t) i \<noteq> h then Inl ErrIdempotencyConflict else Inr []
           | None \<Rightarrow> Inr [Put d h]))"
| "planned up sha (OpClaim now lease limit eligible) t =
     Inr (List.map (\<lambda>c. Put (claim_item now lease c) (lookup_or [] (hashes t) (ID c))) (candidates now eligible (nat limit) t))"
| "planned up sha (OpSucceed i att code now) t =
     (case currentLeaseLocked i att t of Inl e \<Rightarrow> Inl e
      | Inr d \<Rightarrow> Inr [Put (succeeded_item code now d) (lookup_or [] (hashes t) i)])"
| "planned up sha (OpFail i att code msg nxt terminal now) t =
     (case currentLeaseLocked i att t of Inl e \<Rightarrow> Inl e
      | Inr d \<Rightarrow> Inr [Put (failed_item code msg nxt terminal now d) (lookup_or [] (hashes t) i)])"
| "planned up sha (OpCancel i now) t =
     (case map_of (items t) i of None \<Rightarrow> Inl ErrNotFound
      | Some d \<Rightarrow> if Status d \<noteq> StatusPending \<and> Status d \<noteq> StatusInFlight then Inl ErrInvalidTransition
          else Inr [Put (canceled_item now d) (lookup_or [] (hashes t) i)])"
| "planned up sha (OpRetry i now) t =
     (case map_of (items t) i of None \<Rightarrow> Inl ErrNotFound
      | Some d \<Rightarrow> if Status d \<noteq> StatusFailed then Inl ErrInvalidTransition
          else Inr [Put (retried_item now d) (lookup_or [] (hashes t) i)])"
| "planned up sha (OpPrune before) t = Inr (List.map Del (prune_ids before t))"
| "planned up sha OpCompact t = Inr []"

lemma shelf_Some: "shelf_of t i = Some (d, h) \<longleftrightarrow> map_of (items t) i = Some d \<and> h = lookup_or [] (hashes t) i"
  by (auto simp: shelf_of_def)

lemma shelf_None: "shelf_of t i = None \<longleftrightarrow> map_of (items t) i = None"
  by (simp add: shelf_of_def)

lemma shelf_view [simp]: "shelf_of (view t) = shelf_of t"
  by (simp add: shelf_of_def fun_eq_iff)

lemma claim_order_queue:
  assumes "tables_ok t"
  shows "claim_order now eligible (shelf_of t)
    (List.map (\<lambda>d. (d, lookup_or [] (hashes t) (ID d))) (due_queue now eligible t))"
proof -
  note q = due_queue_facts [OF assms, where now = now and eligible = eligible]
  have c: "map_of (items t) (ID d) = Some d \<Longrightarrow> Clone d = d" for d
    using tables_okD(7) [OF assms] by (auto simp: Clone_id)
  have s: "List.map (claim_key \<circ> fst) (List.map (\<lambda>d. (d, lookup_or [] (hashes t) (ID d))) xs) = List.map claim_key xs"
    "List.map (ID \<circ> fst) (List.map (\<lambda>d. (d, lookup_or [] (hashes t) (ID d))) xs) = List.map ID xs" for xs
    by simp_all
  have "(d, h) \<in> (\<lambda>d. (d, lookup_or [] (hashes t) (ID d))) ` set (due_queue now eligible t) \<longleftrightarrow>
      shelf_of t (ID d) = Some (d, h) \<and> eligible d \<and>
       (Status d = StatusPending \<and> NextAttemptAt d \<le> now \<or> Status d = StatusInFlight \<and> LeaseUntil d \<le> now)" for d h
    using q(3) [of d] c [of d] by (auto simp: shelf_Some due_def)
  then show ?thesis
    unfolding claim_order_def s using q(1,2) by auto
qed

lemma planned_asks:
  assumes "tables_ok t"
  shows "asks up sha (shelf_of t) x (planned up sha x t)"
proof (cases x)
  case (OpCreate raw req now)
  show ?thesis
  proof (cases "New up sha raw req now")
    case (Inl e)
    then show ?thesis
      using OpCreate asks.rejected by simp
  next
    case (Inr y)
    obtain d h where d: "New up sha raw req now = Inr (d, h)"
      using Inr by (cases y) auto
    show ?thesis
    proof (cases "IdempotencyKey d \<noteq> [] \<and> (\<exists>i. map_of (keyToID t) (IdempotencyKey d) = Some i)")
      case True
      then obtain i e where i: "map_of (keyToID t) (IdempotencyKey d) = Some i" "IdempotencyKey d \<noteq> []"
        "map_of (items t) i = Some e" "IdempotencyKey e = IdempotencyKey d"
        using tables_okD(8) [OF assms, of "IdempotencyKey d"] by auto
      then show ?thesis
        using OpCreate d asks.conflict [OF d i(2), of "shelf_of t" i e "lookup_or [] (hashes t) i"]
          asks.repeated [OF d i(2), of "shelf_of t" i e] by (simp add: shelf_Some)
    next
      case False
      then have "IdempotencyKey d = [] \<or> (\<forall>i e g. shelf_of t i = Some (e, g) \<longrightarrow> IdempotencyKey e \<noteq> IdempotencyKey d)"
        using tables_okD(8) [OF assms, of "IdempotencyKey d"] by (auto simp: shelf_Some)
      moreover have "(if IdempotencyKey d \<noteq> [] then map_of (keyToID t) (IdempotencyKey d) else None) = None"
        using False by auto
      ultimately show ?thesis
        using OpCreate d asks.created [OF d] by simp
    qed
  qed
next
  case (OpClaim now lease limit eligible)
  have "planned up sha x t = Inr (List.map (\<lambda>(d, h).
      Put (d\<lparr>Status := StatusInFlight, Attempts := Attempts d + 1, LeaseUntil := now + lease, UpdatedAt := now\<rparr>) h)
      (take (nat limit) (List.map (\<lambda>d. (d, lookup_or [] (hashes t) (ID d))) (due_queue now eligible t))))"
    using OpClaim by (simp add: candidates_queue take_map claim_item_def)
  then show ?thesis
    using asks.claimed [OF claim_order_queue [OF assms], where up = up and sha = sha] OpClaim by simp
next
  case (OpSucceed i att code now)
  show ?thesis
  proof (cases rule: lease_cases [of t i att])
    case missing
    then show ?thesis
      using OpSucceed asks.unknown [of x i att code now] by (simp add: shelf_None)
  next
    case (stale d)
    then show ?thesis
      using OpSucceed asks.not_leased [of x i att code now] by (simp add: shelf_Some)
  next
    case (current d)
    then show ?thesis
      using OpSucceed asks.succeeded [of "shelf_of t" i d _ att up sha code now] by (simp add: shelf_Some succeeded_item_def)
  qed
next
  case (OpFail i att code msg nxt terminal now)
  show ?thesis
  proof (cases rule: lease_cases [of t i att])
    case missing
    then show ?thesis
      using OpFail asks.unknown [of x i att code now msg nxt terminal] by (simp add: shelf_None)
  next
    case (stale d)
    then show ?thesis
      using OpFail asks.not_leased [of x i att code now msg nxt terminal] by (simp add: shelf_Some)
  next
    case (current d)
    then show ?thesis
      using OpFail asks.failed [of "shelf_of t" i d _ att up sha code msg nxt terminal now]
      by (cases terminal) (simp_all add: shelf_Some failed_item_def)
  qed
next
  case (OpCancel i now)
  show ?thesis
  proof (cases "map_of (items t) i")
    case None
    then show ?thesis
      using OpCancel by (auto simp: shelf_None intro: asks.unknown)
  next
    case (Some d)
    then show ?thesis
      using OpCancel asks.canceled [of "shelf_of t" i d _ up sha now] asks.not_cancelable [of "shelf_of t" i d _ up sha now]
      by (simp add: shelf_Some canceled_item_def)
  qed
next
  case (OpRetry i now)
  show ?thesis
  proof (cases "map_of (items t) i")
    case None
    then show ?thesis
      using OpRetry by (auto simp: shelf_None intro: asks.unknown)
  next
    case (Some d)
    then show ?thesis
      using OpRetry asks.retried [of "shelf_of t" i d _ up sha now] asks.not_failed [of "shelf_of t" i d _ up sha now]
      by (simp add: shelf_Some retried_item_def)
  qed
next
  case (OpPrune before)
  have "set (prune_ids before t) =
      {i. \<exists>d h. shelf_of t i = Some (d, h) \<and> UpdatedAt d \<le> before \<and> Status d \<in> {StatusSucceeded, StatusFailed, StatusCanceled}}"
    using prune_ids_facts(2) [OF assms, of _ before] by (auto simp: shelf_Some prunable_def terminal_status_def)
  then show ?thesis
    using OpPrune asks.pruned [OF prune_ids_facts(1) [OF assms]] by simp
next
  case OpCompact
  then show ?thesis
    by (simp add: asks.compacted)
qed

subsection \<open>The plan is carried out\<close>

fun set_entry :: "entry \<Rightarrow> 'a tables_scheme \<Rightarrow> 'a tables_scheme" where
  "set_entry (Put d h) t = setLocked d h t"
| "set_entry (Del i) t = deleteLocked i t"

definition is_claim :: "op \<Rightarrow> bool" where
  "is_claim x \<longleftrightarrow> (\<exists>now lease limit eligible. x = OpClaim now lease limit eligible)"

lemma is_claim_simps [simp]:
  "is_claim (OpClaim now lease limit eligible)" "\<not> is_claim (OpCreate raw req now)" "\<not> is_claim (OpSucceed i att code now)"
  "\<not> is_claim (OpFail i att code msg nxt terminal now)" "\<not> is_claim (OpCancel i now)" "\<not> is_claim (OpRetry i now)"
  "\<not> is_claim (OpPrune before)" "\<not> is_claim OpCompact"
  by (simp_all add: is_claim_def)

text \<open>How many of the planned entries were written and acknowledged.\<close>

definition acked :: "(bytes \<Rightarrow> url option) \<Rightarrow> (bytes \<Rightarrow> bytes) \<Rightarrow> op \<Rightarrow> Store \<Rightarrow> world \<Rightarrow> nat" where
  "acked up sha x s w =
     (case x of
        OpClaim now lease limit eligible \<Rightarrow> length (fst (fst (ClaimDueMatching now lease limit eligible s w)))
      | _ \<Rightarrow> (case planned up sha x s of
          Inl _ \<Rightarrow> 0
        | Inr es \<Rightarrow> if op_error up sha x s w = None then length es else 0))"

text \<open>An error that is not a refusal: the record could not be encoded or did not fit, or a write failed, now or before.\<close>

definition write_error :: "op \<Rightarrow> store_error \<Rightarrow> Store \<Rightarrow> bool" where
  "write_error x e s' \<longleftrightarrow> x = OpCompact \<or> e = EncodeRecord \<or> e = ErrJournalFull \<or> persistenceErr s' = Some e"

definition carried_out ::
  "op \<Rightarrow> store_error + entry list \<Rightarrow> nat \<Rightarrow> store_error option \<Rightarrow> Store \<Rightarrow> Store \<Rightarrow> bool" where
  "carried_out x plan k err s s' \<longleftrightarrow>
     (case plan of
        Inl e \<Rightarrow> err = Some e \<and> s' = s
      | Inr es \<Rightarrow> k \<le> length es \<and> view s' = fold set_entry (take k es) (view s) \<and>
          (case err of
             None \<Rightarrow> k = length es
           | Some e \<Rightarrow> (if is_claim x then k < length es else k = 0) \<and> write_error x e s'))"

lemma carried_refused [simp]: "carried_out x (Inl e) k (Some e) s s"
  by (simp add: carried_out_def)

lemma carried_all: "view s' = fold set_entry es (view s) \<Longrightarrow> carried_out x (Inr es) (length es) None s s'"
  by (simp add: carried_out_def)

lemma carried_none: "view s' = view s \<Longrightarrow> \<not> is_claim x \<Longrightarrow> write_error x e s' \<Longrightarrow> carried_out x (Inr es) 0 (Some e) s s'"
  by (simp add: carried_out_def)

lemma append_write_error: "appendLocked d h s w = (Some e, s', w') \<Longrightarrow> write_error x e s'"
  by (auto simp: write_error_def elim!: append_cases dest: appendData_frame(8))

lemma admission_write_error: "checkAdmissionLocked d h s w = (Some e, s', w') \<Longrightarrow> write_error x e s'"
  by (auto simp: write_error_def checkAdmissionLocked_def dest: failPersistence_cases(1)
      split: option.splits prod.splits if_splits)

lemma persist_carried:
  assumes "persistLocked e s w = (r, s', w')" "map_of (items s) (ID e) = Some d" "\<not> is_claim x"
  shows "carried_out x (Inr [Put e (lookup_or [] (hashes s) (ID e))]) (if r = None then 1 else 0) r s s'"
  using assms(1)
proof (cases rule: persist_cases)
  case (stored s1)
  then show ?thesis
    using carried_all [of s' "[Put e (lookup_or [] (hashes s) (ID e))]" s x] by simp
next
  case (failed e')
  then show ?thesis
    using carried_none assms(3) append_write_error by auto
qed

lemma persist_return_error:
  assumes "persist_return e s w = (r, s', w')"
  shows "persistLocked e s w = (case r of Inl x \<Rightarrow> Some x | Inr _ \<Rightarrow> None, s', w')"
  using assms by (auto simp: persist_return_def split: option.splits prod.splits)

lemma updated_ID [simp]:
  "ID (succeeded_item code now d) = ID d" "ID (failed_item code msg nxt terminal now d) = ID d"
  "ID (canceled_item now d) = ID d" "ID (retried_item now d) = ID d"
  by (simp_all add: succeeded_item_def failed_item_def canceled_item_def retried_item_def Let_def)

lemma claim_view_entries:
  assumes "distinct (List.map ID cs)" "\<And>c. c \<in> set cs \<Longrightarrow> f (ID c) = lookup_or [] (hashes t) (ID c)"
  shows "claim_view now lease cs t = fold set_entry (List.map (\<lambda>c. Put (claim_item now lease c) (f (ID c))) cs) t"
  using assms
proof (induction cs arbitrary: t)
  case (Cons c cs)
  let ?u = "setLocked (claim_item now lease c) (lookup_or [] (hashes t) (ID c)) t"
  have "f (ID x) = lookup_or [] (hashes ?u) (ID x)" if "x \<in> set cs" for x
  proof -
    have "ID x \<noteq> ID c"
      using Cons.prems(1) that by (metis distinct.simps(2) imageI list.map(2) list.set_map)
    then show ?thesis
      using Cons.prems(2) [of x] that by (simp add: lookup_or_def map_of_setLocked)
  qed
  then show ?case
    using Cons.IH [of ?u] Cons.prems by simp
qed simp

lemma fold_set_deletes: "fold set_entry (List.map Del ids) t = fold deleteLocked ids t"
  by (induction ids arbitrary: t) simp_all

lemma claim_loop_error:
  "claim_loop now lease cs claimed s w = ((cl, Some e), s', w') \<Longrightarrow> write_error x e s'"
proof (induction cs arbitrary: claimed s w)
  case (Cons c cs)
  then show ?case
    by (auto simp: Let_def append_write_error split: option.splits prod.splits)
qed simp

theorem op_carried_out:
  assumes "run_op up sha x s w = (s', w')" "tables_ok s"
  shows "carried_out x (planned up sha x s) (acked up sha x s w) (op_error up sha x s w) s s'"
proof (cases x)
  case (OpCreate raw req now)
  obtain r where c: "Create up sha raw req now s w = (r, s', w')"
    using assms(1) OpCreate by (cases "Create up sha raw req now s w") auto
  then show ?thesis
  proof (cases rule: Create_cases)
    case (rejected e)
    then show ?thesis
      using OpCreate c carried_refused by simp
  next
    case (conflict d h i)
    then show ?thesis
      using OpCreate c carried_refused by simp
  next
    case (existing d h i)
    then show ?thesis
      using OpCreate c carried_all [of s "[]" s] by (simp add: acked_def)
  next
    case (refused d h e)
    then have "(if IdempotencyKey d \<noteq> [] then map_of (keyToID s) (IdempotencyKey d) else None) = None"
      by simp
    then show ?thesis
      using OpCreate c refused carried_none admission_cases(1) admission_write_error by (simp add: acked_def)
  next
    case (failed d h e w1)
    then have "(if IdempotencyKey d \<noteq> [] then map_of (keyToID s) (IdempotencyKey d) else None) = None"
      by simp
    then show ?thesis
      using OpCreate c failed carried_none append_frame(1) append_write_error by (simp add: acked_def)
  next
    case (created d h w1 s2)
    then have "(if IdempotencyKey d \<noteq> [] then map_of (keyToID s) (IdempotencyKey d) else None) = None"
      by simp
    then show ?thesis
      using OpCreate c created carried_all [of s' "[Put d h]" s] by (simp add: acked_def)
  qed
next
  case (OpClaim now lease limit eligible)
  let ?cs = "candidates now eligible (nat limit) s"
  obtain cl err where c: "ClaimDueMatching now lease limit eligible s w = ((cl, err), s', w')"
    using assms(1) OpClaim by (cases "ClaimDueMatching now lease limit eligible s w") auto
  from Claim_cases [OF c assms(2)] obtain k where k: "cl = List.map (\<lambda>c. Clone (claim_item now lease c)) (take k ?cs)"
    "view s' = claim_view now lease (take k ?cs) (view s)" "err = None \<longleftrightarrow> k = length ?cs"
    "distinct (List.map ID (take k ?cs))"
    by metis
  have len: "length cl = min k (length ?cs)"
    using k(1) by simp
  have "view s' = fold set_entry (take k (List.map (\<lambda>c. Put (claim_item now lease c) (lookup_or [] (hashes s) (ID c))) ?cs)) (view s)"
    unfolding k(2) take_map using k(4) by (rule claim_view_entries [where f = "lookup_or [] (hashes s)"]) simp
  moreover have "write_error x e s'" if "err = Some e" for e
    using c that by (auto simp: ClaimDueMatching_def claim_loop_error split: if_splits)
  moreover have "length cl < length ?cs" if "err \<noteq> None"
  proof -
    have "\<not> limit < 1"
      using c that by (auto simp: ClaimDueMatching_def)
    then have "claim_loop now lease ?cs [] s w = ((cl, err), s', w')"
      using c by (simp add: ClaimDueMatching_def)
    then obtain j where "j \<le> length ?cs" "cl = List.map (\<lambda>c. Clone (claim_item now lease c)) (take j ?cs)" "err = None \<longleftrightarrow> j = length ?cs"
      using claim_loop_view [of now lease ?cs "[]" s w cl err s' w'] by auto
    then show ?thesis
      using that by simp
  qed
  moreover have "take (length cl) xs = take k xs" if "length xs = length ?cs" for xs :: "entry list"
    using len that by (simp add: min_def)
  ultimately show ?thesis
    using OpClaim c len k(3) by (auto simp: carried_out_def acked_def split: option.split)
next
  case (OpSucceed i att code now)
  obtain r where c: "Succeed i att code now s w = (r, s', w')"
    using assms(1) OpSucceed by (cases "Succeed i att code now s w") auto
  show ?thesis
  proof (cases rule: lease_cases [of s i att])
    case (current d)
    have "ID d = i"
      using tables_okD(5) [OF assms(2) current(1)] .
    then show ?thesis
      using OpSucceed c current persist_carried [of "succeeded_item code now d" s w r s' w' d x]
      by (cases r) (simp_all add: Succeed_def acked_def)
  qed (use OpSucceed c in \<open>auto simp: Succeed_def\<close>)
next
  case (OpFail i att code msg nxt terminal now)
  obtain r where c: "Fail i att code msg nxt terminal now s w = (r, s', w')"
    using assms(1) OpFail by (cases "Fail i att code msg nxt terminal now s w") auto
  show ?thesis
  proof (cases rule: lease_cases [of s i att])
    case (current d)
    have "ID d = i"
      using tables_okD(5) [OF assms(2) current(1)] .
    then show ?thesis
      using OpFail c current persist_carried [of "failed_item code msg nxt terminal now d" s w r s' w' d x]
      by (cases r) (simp_all add: Fail_def acked_def)
  qed (use OpFail c in \<open>auto simp: Fail_def\<close>)
next
  case (OpCancel i now)
  obtain r where c: "Cancel i now s w = (r, s', w')"
    using assms(1) OpCancel by (cases "Cancel i now s w") auto
  show ?thesis
  proof (cases "map_of (items s) i")
    case None
    then show ?thesis
      using OpCancel c by (auto simp: Cancel_def)
  next
    case (Some d)
    have i: "ID d = i"
      using tables_okD(5) [OF assms(2) Some] .
    show ?thesis
    proof (cases "Status d \<noteq> StatusPending \<and> Status d \<noteq> StatusInFlight")
      case True
      then show ?thesis
        using OpCancel c Some by (auto simp: Cancel_def)
    next
      case False
      then have "persist_return (canceled_item now d) s w = (r, s', w')"
        using c Some by (auto simp: Cancel_def)
      then show ?thesis
        using OpCancel c Some i False persist_carried [OF persist_return_error, of "canceled_item now d" s w r s' w' d x]
        by (auto simp: acked_def split: sum.splits)
    qed
  qed
next
  case (OpRetry i now)
  obtain r where c: "Retry i now s w = (r, s', w')"
    using assms(1) OpRetry by (cases "Retry i now s w") auto
  show ?thesis
  proof (cases "map_of (items s) i")
    case None
    then show ?thesis
      using OpRetry c by (auto simp: Retry_def)
  next
    case (Some d)
    have i: "ID d = i"
      using tables_okD(5) [OF assms(2) Some] .
    show ?thesis
    proof (cases "Status d = StatusFailed")
      case False
      then show ?thesis
        using OpRetry c Some by (auto simp: Retry_def)
    next
      case True
      then have "persist_return (retried_item now d) s w = (r, s', w')"
        using c Some by (auto simp: Retry_def)
      then show ?thesis
        using OpRetry c Some i True persist_carried [OF persist_return_error, of "retried_item now d" s w r s' w' d x]
        by (auto simp: acked_def split: sum.splits)
    qed
  qed
next
  case (OpPrune before)
  obtain n r where c: "PruneTerminal before s w = ((n, r), s', w')"
    using assms(1) OpPrune by (cases "PruneTerminal before s w") auto
  then show ?thesis
  proof (cases rule: Prune_cases)
    case none
    then show ?thesis
      using OpPrune c carried_all [of s "[]" s x] by (simp add: acked_def)
  next
    case (failed e)
    then have "view s' = view s" "persistenceErr s' = Some e"
      using appendData_frame(1,8) by blast+
    then show ?thesis
      using OpPrune c failed carried_none [of s' s x e] by (simp add: acked_def write_error_def)
  next
    case (pruned s1)
    then show ?thesis
      using OpPrune c carried_all [of s' "List.map Del (prune_ids before s)" s x]
      by (simp add: acked_def fold_set_deletes)
  qed
next
  case OpCompact
  obtain r where c: "Compact s w = (r, s', w')"
    using assms(1) OpCompact by (cases "Compact s w") auto
  then have "view s' = view s"
    by (rule Compact_view)
  then show ?thesis
    using OpCompact c by (simp add: carried_out_def acked_def write_error_def split: option.split)
qed

subsection \<open>Refinement of the abstract store\<close>

definition entry_headers :: "entry \<Rightarrow> bool" where
  "entry_headers e \<longleftrightarrow> (\<forall>d h. e = Put d h \<longrightarrow> gomap_ok (Headers d))"

lemma shelf_set_entry: "entry_headers e \<Longrightarrow> shelf_of (set_entry e t) = put_entry e (shelf_of t)"
  by (cases e)
    (auto simp: entry_headers_def shelf_of_def fun_eq_iff map_of_setLocked map_of_deleteLocked lookup_or_def Clone_id)

lemma shelf_fold_set: "list_all entry_headers es \<Longrightarrow> shelf_of (fold set_entry es t) = fold put_entry es (shelf_of t)"
  by (induction es arbitrary: t) (simp_all add: shelf_set_entry)

lemma planned_headers:
  assumes "tables_ok t" "planned up sha x t = Inr es"
  shows "list_all entry_headers es"
proof -
  have h: "map_of (items t) i = Some d \<Longrightarrow> gomap_ok (Headers d)" for i d
    using tables_okD(7) [OF assms(1)] .
  have u: "entry_headers (Put e g)" if "map_of (items t) i = Some d" "Headers e = Headers d" for i d e g
    using h [OF that(1)] that(2) by (simp add: entry_headers_def)
  have lease: "currentLeaseLocked i att t = Inr d \<Longrightarrow> gomap_ok (Headers d)" for i att d
    using h by (auto simp: currentLeaseLocked_def split: option.splits if_splits)
  show ?thesis
  proof (cases x)
    case (OpCreate raw req now)
    then obtain y where y: "New up sha raw req now = Inr y"
      using assms(2) by (cases "New up sha raw req now") auto
    obtain d h where d: "y = (d, h)"
      by (cases y)
    have "gomap_ok (Headers d)"
      using y unfolding d by (rule New_cases) (simp add: fresh_delivery_def)
    then show ?thesis
      using assms(2) OpCreate y d by (auto simp: entry_headers_def split: option.splits if_splits)
  next
    case (OpClaim now lease limit eligible)
    have "entry_headers (Put (claim_item now lease c) g)" if "c \<in> set (candidates now eligible (nat limit) t)" for c g
      by (rule u [of "ID c" c])
        (use that candidates_facts(2) [OF assms(1), of now eligible "nat limit"] in \<open>auto simp: claim_item_def\<close>)
    then show ?thesis
      using assms(2) OpClaim by (auto simp: list_all_iff)
  next
    case (OpPrune before)
    then show ?thesis
      using assms(2) by (auto simp: list_all_iff entry_headers_def)
  next
    case OpCompact
    then show ?thesis
      using assms(2) by simp
  qed (use assms(2) lease h in \<open>auto simp: entry_headers_def succeeded_item_def failed_item_def canceled_item_def retried_item_def Let_def
      split: sum.splits option.splits if_splits\<close>)
qed

lemma op_shelf:
  assumes "run_op up sha x s w = (s', w')" "tables_ok s" "planned up sha x s = Inr es"
  shows "shelf_of s' = fold put_entry (take (acked up sha x s w) es) (shelf_of s)" "acked up sha x s w \<le> length es"
    "op_error up sha x s w = None \<Longrightarrow> acked up sha x s w = length es"
proof -
  note c = op_carried_out [OF assms(1,2), unfolded assms(3)]
  then have v: "view s' = fold set_entry (take (acked up sha x s w) es) (view s)"
    by (simp add: carried_out_def)
  have "list_all entry_headers (take (acked up sha x s w) es)"
    using planned_headers [OF assms(2,3)] by (auto simp: list_all_iff dest: in_set_takeD)
  then have "shelf_of (view s') = fold put_entry (take (acked up sha x s w) es) (shelf_of (view s))"
    unfolding v by (rule shelf_fold_set)
  then show "shelf_of s' = fold put_entry (take (acked up sha x s w) es) (shelf_of s)"
    by simp
  show "acked up sha x s w \<le> length es" "op_error up sha x s w = None \<Longrightarrow> acked up sha x s w = length es"
    using c by (simp_all add: carried_out_def)
qed

lemma op_refused:
  assumes "run_op up sha x s w = (s', w')" "tables_ok s" "planned up sha x s = Inl e"
  shows "s' = s" "op_error up sha x s w = Some e"
  using op_carried_out [OF assms(1,2)] assms(3) by (simp_all add: carried_out_def)

lemma op_failed:
  assumes "run_op up sha x s w = (s', w')" "tables_ok s" "planned up sha x s = Inr es" "op_error up sha x s w = Some e"
  shows "if is_claim x then acked up sha x s w < length es else acked up sha x s w = 0" "write_error x e s'"
  using op_carried_out [OF assms(1,2)] assms(3,4) by (simp_all add: carried_out_def)

end
