(* ===== verification/PendingWrites.thy ===== *)
theory PendingWrites
  imports StoreSpec
begin

section \<open>Crashes in the middle of an operation, and after a failed write\<close>

text \<open>
  While an operation runs, what a crash may add to the acknowledged state is the next part of the
  plan of that operation (\<open>pending_op\<close>), so that \<open>Open\<close> gives back the state after some of its changes,
  at least those it had acknowledged (\<open>crash_in_operation\<close>). And once a write has failed, only operations
  that have nothing to write report success (\<open>blocked_idle\<close>), in any sequence of operations (\<open>ops_blocked\<close>).
\<close>

subsection \<open>What may be pending after a failed write\<close>

lemma storable_update:
  assumes "storables s" "map_of (items s) i = Some d" "evolves d e" "int64_range (Attempts e)" "int64_range (LastResponseCode e)"
  shows "storable e"
  using storables_range(3) [OF assms(1,2)] assms(3-5) by (rule storable_evolves)

lemma pending_put:
  assumes "durable s w" "persistenceErr s = None" "map_of (items s) i = Some d" "evolves d e"
    "int64_range (Attempts e)" "int64_range (LastResponseCode e)"
    "appendLocked e (lookup_or [] (hashes s) i) s w = (Some x, s', w')"
  shows "durable_by (\<lambda>gs t. gs = [Put e (lookup_or [] (hashes s) i)]) s' w'"
proof -
  have ok: "tables_ok s" "storables s"
    using assms(1) by (simp_all add: durable_def)
  have "durable_by (\<lambda>gs t. gs = [Put e (lookup_or [] (hashes s) i)]) s w"
    using durable_clean [OF assms(1,2)] .
  then have "durable_by (\<lambda>gs t. gs = [Put e (lookup_or [] (hashes s) i)])
      (if Some x = None then setLocked e (lookup_or [] (hashes s) i) s' else s') w'"
    using storable_update [OF ok(2) assms(3-6)] assms(7) hash_utf8 [OF ok(2)] refl
      update_ok(1) [OF ok(1) assms(3) evolves_identity [OF assms(4)]] by (rule durable_put)
  then show ?thesis
    by simp
qed

lemma pending_persist:
  assumes "durable s w" "persistenceErr s = None" "map_of (items s) i = Some d" "evolves d e"
    "int64_range (Attempts e)" "int64_range (LastResponseCode e)" "persistLocked e s w = (Some x, s', w')"
  shows "durable_by (\<lambda>gs t. gs = [Put e (lookup_or [] (hashes s) i)]) s' w'"
proof -
  have "ID e = i"
    using update_ok(2) [OF _ assms(3) evolves_identity [OF assms(4)]] assms(1) by (simp add: durable_def)
  moreover have "appendLocked e (lookup_or [] (hashes s) (ID e)) s w = (Some x, s', w')"
    using assms(7) by (cases rule: persist_cases) simp_all
  ultimately have "appendLocked e (lookup_or [] (hashes s) i) s w = (Some x, s', w')"
    by simp
  then show ?thesis
    by (rule pending_put [OF assms(1-6)])
qed

lemma pending_claim_loop:
  assumes "durable s w" "persistenceErr s = None" "claim_loop now lease cs claimed s w = ((cl, Some x), s', w')"
    "distinct (List.map ID cs)" "\<forall>c \<in> set cs. map_of (items s) (ID c) = Some c \<and> due now c \<and> int64_range (Attempts c + 1)"
    "\<And>c. c \<in> set cs \<Longrightarrow> f (ID c) = lookup_or [] (hashes s) (ID c)"
  shows "\<exists>k < length cs. length cl = length claimed + k \<and>
    durable_by (\<lambda>gs t. gs = [Put (claim_item now lease (cs ! k)) (f (ID (cs ! k)))]) s' w'"
  using assms
proof (induction cs arbitrary: claimed s w)
  case (Cons c cs)
  let ?e = "claim_item now lease c" and ?h = "lookup_or [] (hashes s) (ID c)"
  obtain b s1 w1 where b: "appendLocked ?e ?h s w = (b, s1, w1)"
    by (cases "appendLocked ?e ?h s w") auto
  have c: "map_of (items s) (ID c) = Some c" "evolves c ?e" "int64_range (Attempts c + 1)" "?h = f (ID c)"
    using Cons.prems(5) Cons.prems(6) [of c] evolves.claim [of now c lease] by simp_all
  have ok: "tables_ok s" "storables s"
    using Cons.prems(1) by (simp_all add: durable_def)
  have r: "int64_range (Attempts ?e)" "int64_range (LastResponseCode ?e)"
    using c(3) storables_range(2) [OF ok(2) c(1)] by (simp_all add: claim_item_def)
  show ?case
  proof (cases b)
    case (Some y)
    then have "durable_by (\<lambda>gs t. gs = [Put ?e ?h]) s1 w1" "s' = s1" "w' = w1" "cl = claimed"
      using pending_put [OF Cons.prems(1,2) c(1,2) r] b Cons.prems(3) by (simp_all add: Let_def)
    then show ?thesis
      using c(4) by (intro exI [of _ 0]) simp
  next
    case None
    let ?s = "setLocked ?e ?h s1"
    have d: "durable ?s w1"
      using durable_put [OF Cons.prems(1) storable_update [OF ok(2) c(1,2) r] b hash_utf8 [OF ok(2)] legal_update [OF c(1,2)]
        update_ok(1) [OF ok(1) c(1) evolves_identity [OF c(2)]]] None by simp
    have p: "persistenceErr ?s = None"
      using append_frame(7) [OF b] None by (simp add: setLocked_def Let_def)
    have v: "map_of (items ?s) = map_of (items (setLocked ?e ?h s))" "map_of (hashes ?s) = map_of (hashes (setLocked ?e ?h s))"
      using items_cong [OF append_frame(1) [OF b]] by (simp_all add: map_of_setLocked)
    have other: "ID x \<noteq> ID c" if "x \<in> set cs" for x
      using Cons.prems(4) that by (metis distinct.simps(2) imageI list.map(2) list.set_map)
    have rest: "\<forall>x \<in> set cs. map_of (items ?s) (ID x) = Some x \<and> due now x \<and> int64_range (Attempts x + 1)"
      using Cons.prems(5) other unfolding v by (simp add: map_of_setLocked)
    have hash: "f (ID x) = lookup_or [] (hashes ?s) (ID x)" if "x \<in> set cs" for x
      using Cons.prems(6) [of x] other [OF that] that v(2) by (simp add: lookup_or_def map_of_setLocked)
    have "claim_loop now lease cs (claimed @ [Clone ?e]) ?s w1 = ((cl, Some x), s', w')"
      using Cons.prems(3) b None by (simp add: Let_def)
    moreover have "distinct (List.map ID cs)"
      using Cons.prems(4) by simp
    ultimately obtain k where "k < length cs" "length cl = length (claimed @ [Clone ?e]) + k"
      "durable_by (\<lambda>gs t. gs = [Put (claim_item now lease (cs ! k)) (f (ID (cs ! k)))]) s' w'"
      using Cons.IH [OF d p _ _ rest hash] by blast
    then show ?thesis
      by (intro exI [of _ "Suc k"]) simp
  qed
qed simp

lemma durable_mono:
  assumes "durable_by L s w" "\<And>gs. L gs (restored_tables s) \<Longrightarrow> M gs (restored_tables s)"
  shows "durable_by M s w"
proof -
  have h: "holds L f w torn s \<Longrightarrow> holds M f w torn s" for f torn
    using assms(2) unfolding holds_def by blast
  show ?thesis
    using assms(1) by (rule durableE) (use h in \<open>auto simp: durable_by_def\<close>)
qed

subsection \<open>Success keeps the store healthy\<close>

lemma set_healthy [simp]: "persistenceErr (setLocked d h t) = persistenceErr (t :: Store)"
  by (simp add: setLocked_def Let_def)

lemma fold_delete_healthy [simp]: "persistenceErr (fold deleteLocked ids t) = persistenceErr (t :: Store)"
  by (induction ids arbitrary: t) (simp_all add: deleteLocked_def Let_def split: option.splits)

lemma persist_healthy: "persistLocked e s w = (None, s', w') \<Longrightarrow> persistenceErr s' = None"
  by (elim persist_cases) (auto dest: append_frame(7))

lemma claim_loop_healthy:
  "claim_loop now lease cs claimed s w = ((cl, None), s', w') \<Longrightarrow> persistenceErr s = None \<Longrightarrow> persistenceErr s' = None"
proof (induction cs arbitrary: claimed s w)
  case (Cons c cs)
  let ?e = "claim_item now lease c"
  obtain b s1 w1 where b: "appendLocked ?e (lookup_or [] (hashes s) (ID c)) s w = (b, s1, w1)"
    by (cases "appendLocked ?e (lookup_or [] (hashes s) (ID c)) s w") auto
  then have "b = None"
    using Cons.prems(1) by (cases b) (auto simp: Let_def)
  then show ?case
    using Cons b append_frame(7) [OF b] by (simp add: Let_def)
qed simp

lemma op_healthy:
  assumes "run_op up sha x s w = (s', w')" "op_error up sha x s w = None" "persistenceErr s = None" "x \<noteq> OpCompact"
  shows "persistenceErr s' = None"
proof (cases x)
  case (OpCreate raw req now)
  obtain r where c: "Create up sha raw req now s w = (Inr r, s', w')"
    using assms(1,2) OpCreate by (cases "Create up sha raw req now s w") (auto split: sum.splits)
  then show ?thesis
    using assms(3) append_frame(7) by (cases rule: Create_cases) auto
next
  case (OpClaim now lease limit eligible)
  then obtain cl where "ClaimDueMatching now lease limit eligible s w = ((cl, None), s', w')"
    using assms(1,2) by (cases "ClaimDueMatching now lease limit eligible s w") auto
  then show ?thesis
    using assms(3) claim_loop_healthy by (auto simp: ClaimDueMatching_def split: if_splits)
next
  case (OpSucceed i att code now)
  then have "Succeed i att code now s w = (None, s', w')"
    using assms(1,2) by (cases "Succeed i att code now s w") auto
  then show ?thesis
    using persist_healthy by (auto simp: Succeed_def split: sum.splits)
next
  case (OpFail i att code msg nxt terminal now)
  then have "Fail i att code msg nxt terminal now s w = (None, s', w')"
    using assms(1,2) by (cases "Fail i att code msg nxt terminal now s w") auto
  then show ?thesis
    using persist_healthy by (auto simp: Fail_def split: sum.splits)
next
  case (OpCancel i now)
  then obtain d where "Cancel i now s w = (Inr d, s', w')"
    using assms(1,2) by (cases "Cancel i now s w") (auto split: sum.splits)
  then obtain e where "persist_return e s w = (Inr d, s', w')"
    by (auto simp: Cancel_def split: option.splits if_splits)
  then show ?thesis
    using persist_return_error persist_healthy by fastforce
next
  case (OpRetry i now)
  then obtain d where "Retry i now s w = (Inr d, s', w')"
    using assms(1,2) by (cases "Retry i now s w") (auto split: sum.splits)
  then obtain e where "persist_return e s w = (Inr d, s', w')"
    by (auto simp: Retry_def split: option.splits if_splits)
  then show ?thesis
    using persist_return_error persist_healthy by fastforce
next
  case (OpPrune before)
  then obtain k where "PruneTerminal before s w = ((k, None), s', w')"
    using assms(1,2) by (cases "PruneTerminal before s w") auto
  then show ?thesis
    using assms(3) appendData_frame(7) by (cases rule: Prune_cases) auto
qed (use assms(4) in simp)

text \<open>After any operation on a store without a failed write, what is pending is the next part of its plan.\<close>

lemma durable_lease_update:
  assumes "storables s" "currentLeaseLocked i att s = Inr d"
  shows "map_of (items s) i = Some d" "Status d = StatusInFlight" "int64_range (Attempts d)"
  using assms storables_range(1) [OF assms(1)] by (auto simp: currentLeaseLocked_def split: option.splits if_splits)

lemma pending_op:
  assumes "durable s w" "persistenceErr s = None" "run_op up sha x s w = (s', w')" "inputs_ok up x s"
    "planned up sha x s = Inr es"
  shows "durable_by (\<lambda>gs t. prefix gs (drop (acked up sha x s w) es)) s' w'"
proof (cases "op_error up sha x s w = None \<and> x \<noteq> OpCompact")
  case True
  then have "persistenceErr s' = None"
    using op_healthy assms(2,3) by blast
  then show ?thesis
    using durable_run_op [OF assms(1,3,4)] durable_clean by blast
next
  case False
  have ok: "tables_ok s" "storables s"
    using assms(1) by (simp_all add: durable_def)
  note range = storables_range [OF ok(2)]
  have clean: "durable_by L s w" for L
    using durable_clean [OF assms(1,2)] .
  have one: ?thesis if "durable_by (\<lambda>gs t. gs = es) s' w'" "\<not> is_claim x" "x \<noteq> OpCompact"
  proof -
    have "acked up sha x s w = 0"
      using op_failed(1) [OF assms(3) ok(1) assms(5)] False that by auto
    then show ?thesis
      by (intro durable_mono [OF that(1)]) simp
  qed
  show ?thesis
  proof (cases x)
    case (OpCreate raw req now)
    then obtain e where c: "Create up sha raw req now s w = (Inl e, s', w')"
      using assms(3) False by (cases "Create up sha raw req now s w") (auto split: sum.splits)
    then show ?thesis
    proof (cases rule: Create_cases)
      case (refused d h e')
      then show ?thesis
        using admission_durable [OF clean] by blast
    next
      case (failed d h e' w1)
      have "durable_by (\<lambda>gs t. gs = [Put d h]) s w1"
        using admission_durable [OF clean failed(3)] .
      then have "durable_by (\<lambda>gs t. gs = [Put d h]) (if Some e' = None then setLocked d h s' else s') w'"
        using create_entry [OF failed(1,2) ok] assms(4) OpCreate failed(4) by (intro durable_put) auto
      moreover have "es = [Put d h]"
        using assms(5) OpCreate failed(1,2) by (auto split: if_splits option.splits)
      ultimately show ?thesis
        using OpCreate by (intro one) auto
    qed (use clean assms(5) OpCreate in \<open>auto split: option.splits\<close>)
  next
    case (OpClaim now lease limit eligible)
    let ?cs = "candidates now eligible (nat limit) s"
    obtain cl e where "ClaimDueMatching now lease limit eligible s w = ((cl, Some e), s', w')"
      using assms(3) False OpClaim by (cases "ClaimDueMatching now lease limit eligible s w") auto
    note c = this
    then have l: "claim_loop now lease ?cs [] s w = ((cl, Some e), s', w')"
      by (auto simp: ClaimDueMatching_def split: if_splits)
    have src: "\<forall>c \<in> set ?cs. map_of (items s) (ID c) = Some c \<and> due now c \<and> int64_range (Attempts c + 1)"
      using candidates_facts(2) [OF ok(1), of now eligible "nat limit"] assms(4) OpClaim by (auto simp: inputs_ok_def)
    obtain k where k: "k < length ?cs" "length cl = k"
      "durable_by (\<lambda>gs t. gs = [Put (claim_item now lease (?cs ! k)) (lookup_or [] (hashes s) (ID (?cs ! k)))]) s' w'"
      using pending_claim_loop [OF assms(1,2) l candidates_facts(1) [OF ok(1)] src, of "lookup_or [] (hashes s)"] by auto
    have "acked up sha x s w = k"
      using OpClaim c k(2) by (simp add: acked_def)
    moreover have "prefix [Put (claim_item now lease (?cs ! k)) (lookup_or [] (hashes s) (ID (?cs ! k)))] (drop k es)"
      using assms(5) OpClaim k(1) by (auto simp: drop_map Cons_nth_drop_Suc [symmetric])
    ultimately show ?thesis
      by (intro durable_mono [OF k(3)]) simp
  next
    case (OpSucceed i att code now)
    obtain e where c: "Succeed i att code now s w = (Some e, s', w')"
      using assms(3) False OpSucceed by (cases "Succeed i att code now s w") auto
    obtain d where d: "currentLeaseLocked i att s = Inr d" "es = [Put (succeeded_item code now d) (lookup_or [] (hashes s) i)]"
      using assms(5) OpSucceed by (auto split: sum.splits)
    note u = durable_lease_update [OF ok(2) d(1)]
    have "durable_by (\<lambda>gs t. gs = es) s' w'"
      unfolding d(2) using c d(1) assms(4) OpSucceed u
      by (intro pending_persist [OF assms(1,2) u(1) evolves.succeed [OF u(2)]])
        (auto simp: Succeed_def succeeded_item_def inputs_ok_def)
    then show ?thesis
      using OpSucceed by (intro one) auto
  next
    case (OpFail i att code msg nxt terminal now)
    obtain e where c: "Fail i att code msg nxt terminal now s w = (Some e, s', w')"
      using assms(3) False OpFail by (cases "Fail i att code msg nxt terminal now s w") auto
    obtain d where d: "currentLeaseLocked i att s = Inr d" "es = [Put (failed_item code msg nxt terminal now d) (lookup_or [] (hashes s) i)]"
      using assms(5) OpFail by (auto split: sum.splits)
    note u = durable_lease_update [OF ok(2) d(1)]
    have "Attempts (failed_item code msg nxt terminal now d) = Attempts d" "LastResponseCode (failed_item code msg nxt terminal now d) = code"
      by (simp_all add: failed_item_def Let_def)
    then have "durable_by (\<lambda>gs t. gs = es) s' w'"
      unfolding d(2) using c d(1) assms(4) OpFail u
      by (intro pending_persist [OF assms(1,2) u(1) evolves.fail [OF u(2)]]) (auto simp: Fail_def inputs_ok_def)
    then show ?thesis
      using OpFail by (intro one) auto
  next
    case (OpCancel i now)
    obtain e where c: "Cancel i now s w = (Inl e, s', w')"
      using assms(3) False OpCancel by (cases "Cancel i now s w") (auto split: sum.splits)
    obtain d where d: "map_of (items s) i = Some d" "Status d = StatusPending \<or> Status d = StatusInFlight"
      "es = [Put (canceled_item now d) (lookup_or [] (hashes s) i)]"
      using assms(5) OpCancel by (auto split: option.splits if_splits)
    have "persist_return (canceled_item now d) s w = (Inl e, s', w')"
      using c d(1,2) by (auto simp: Cancel_def)
    then have p: "persistLocked (canceled_item now d) s w = (Some e, s', w')"
      using persist_return_error [of "canceled_item now d" s w "Inl e" s' w'] by simp
    have "int64_range (Attempts (canceled_item now d))" "int64_range (LastResponseCode (canceled_item now d))"
      using range(1,2) [OF d(1)] by (simp_all add: canceled_item_def)
    then have "durable_by (\<lambda>gs t. gs = es) s' w'"
      unfolding d(3) using pending_persist [OF assms(1,2) d(1) evolves.cancel [OF d(2)] _ _ p] by simp
    then show ?thesis
      using OpCancel by (intro one) auto
  next
    case (OpRetry i now)
    obtain e where c: "Retry i now s w = (Inl e, s', w')"
      using assms(3) False OpRetry by (cases "Retry i now s w") (auto split: sum.splits)
    obtain d where d: "map_of (items s) i = Some d" "Status d = StatusFailed"
      "es = [Put (retried_item now d) (lookup_or [] (hashes s) i)]"
      using assms(5) OpRetry by (auto split: option.splits if_splits)
    have "persist_return (retried_item now d) s w = (Inl e, s', w')"
      using c d(1,2) by (auto simp: Retry_def)
    then have p: "persistLocked (retried_item now d) s w = (Some e, s', w')"
      using persist_return_error [of "retried_item now d" s w "Inl e" s' w'] by simp
    have "int64_range (Attempts (retried_item now d))" "int64_range (LastResponseCode (retried_item now d))"
      by (simp_all add: retried_item_def int64_range_def)
    then have "durable_by (\<lambda>gs t. gs = es) s' w'"
      unfolding d(3) using pending_persist [OF assms(1,2) d(1) evolves.retry [OF d(2)] _ _ p] by simp
    then show ?thesis
      using OpRetry by (intro one) auto
  next
    case (OpPrune before)
    let ?ids = "prune_ids before s"
    obtain k e where c: "PruneTerminal before s w = ((k, Some e), s', w')"
      using assms(3) False OpPrune by (cases "PruneTerminal before s w") auto
    then have a: "appendDataLocked (journal.log (List.map Del ?ids)) (word_of_nat (length ?ids)) s w = (Some e, s', w')"
      by (cases rule: Prune_cases) (simp_all add: log_deletes)
    have "entry_ok (Del i)" if i: "i \<in> set ?ids" for i
    proof -
      obtain d where d: "map_of (items s) i = Some d"
        using i prune_ids_facts(2) [OF ok(1)] by blast
      then show ?thesis
        using range(3) [OF d] tables_okD(5) [OF ok(1) d] by (auto simp: entry_ok_def entry_text_def storable_def)
    qed
    then have "list_all entry_ok (List.map Del ?ids)"
      by (simp add: list_all_iff)
    then have "durable_by (\<lambda>gs t. gs = List.map Del ?ids) s' w'"
      using append_torn [OF clean [of "\<lambda>gs t. gs = List.map Del ?ids"] a] by simp
    then show ?thesis
      using assms(5) OpPrune by (intro one) auto
  next
    case OpCompact
    obtain r where "Compact s w = (r, s', w')"
      using assms(3) OpCompact by (cases "Compact s w") auto
    then show ?thesis
      by (rule durable_Compact [OF clean])
  qed
qed

subsection \<open>A crash in the middle of an operation\<close>

lemma shelf_eq: "tables_eq s t \<Longrightarrow> shelf_of s = shelf_of t"
  by (simp add: tables_eq_def shelf_of_def lookup_or_def fun_eq_iff)

lemma shelf_restored: "shelf_of (restored_tables s) = restored_shelf (shelf_of s)"
  by (auto simp: shelf_of_def restored_shelf_def fun_eq_iff option.map_comp comp_def)

lemma shelf_apply:
  assumes "entry_ok e" "shelf_of t = restored_shelf a"
  shows "shelf_of (apply_entry e t) = restored_shelf (put_entry e a)"
proof -
  have same: "shelf_of t i = restored_shelf a i" for i
    using assms(2) by simp
  show ?thesis
  proof (cases e)
    case (Put d h)
    then have st: "storable d"
      using assms(1) by (simp add: entry_ok_def)
    then have "gomap_ok (Headers (restored d))" "ID (restored d) = ID d"
      using storable_ID(1) [OF st] restored_headers_ok by (simp_all add: storable_def encodable_def)
    then show ?thesis
      using same Put
      by (auto simp: apply_entry_def restored_shelf_def shelf_of_def fun_eq_iff map_of_setLocked lookup_or_def Clone_id
          simp del: restored_simps)
  next
    case (Del i)
    then show ?thesis
      using same
      by (auto simp: apply_entry_def restored_shelf_def shelf_of_def fun_eq_iff map_of_deleteLocked lookup_or_def)
  qed
qed

lemma shelf_fold_apply:
  "list_all entry_ok es \<Longrightarrow> shelf_of t = restored_shelf a \<Longrightarrow> shelf_of (fold apply_entry es t) = restored_shelf (fold put_entry es a)"
  by (induction es arbitrary: t a) (simp_all add: shelf_apply)

theorem crash_in_operation:
  assumes "durable s w" "persistenceErr s = None" "run_op up sha x s w = (s1, w1)" "inputs_ok up x s" "0 \<le> limit"
  shows "\<exists>r s2 w2. asks up sha (shelf_of s) x r \<and> Open [limit] (crash keep old w1) = (Inr s2, w2) \<and> tables_ok s2 \<and>
    (case r of
       Inl e \<Rightarrow> op_error up sha x s w = Some e \<and> s1 = s \<and> shelf_of s2 = restored_shelf (shelf_of s)
     | Inr es \<Rightarrow> \<exists>k j. k \<le> j \<and> j \<le> length es \<and> (op_error up sha x s w = None \<longrightarrow> k = length es) \<and>
         shelf_of s1 = fold put_entry (take k es) (shelf_of s) \<and>
         shelf_of s2 = restored_shelf (fold put_entry (take j es) (shelf_of s)))"
proof -
  have ok: "tables_ok s"
    using assms(1) by (simp add: durable_def)
  have d1: "durable s1 w1"
    using durable_run_op [OF assms(1,3,4)] .
  then have ok1: "tables_ok (restored_tables s1)"
    using tables_ok_restored [of s1] by (simp add: durable_def)
  define L where "L gs t \<longleftrightarrow> (\<forall>es. planned up sha x s = Inr es \<longrightarrow> prefix gs (drop (acked up sha x s w) es)) \<and>
      (\<forall>e. planned up sha x s = Inl e \<longrightarrow> gs = [])" for gs :: "entry list" and t :: tables
  have "durable_by L s1 w1"
  proof (cases "planned up sha x s")
    case (Inl e)
    then have "s1 = s"
      using op_refused(1) [OF assms(3) ok] by simp
    then show ?thesis
      using durable_clean [OF d1] assms(2) by simp
  next
    case (Inr es)
    show ?thesis
      by (rule durable_mono [OF pending_op [OF assms(1-4) Inr]]) (simp add: L_def Inr)
  qed
  then obtain s2 w2 gs j where r: "Open [limit] (crash keep old w1) = (Inr s2, w2)"
    "tables_eq s2 (fold apply_entry (take j gs) (restored_tables s1))" "gs = [] \<or> L gs (restored_tables s1)"
    "list_all entry_ok gs" "maps_ok s2"
    by (rule crash_recovers_by [OF _ assms(5)])
  obtain u where u: "tables_eq s2 u" "steps (restored_tables s1) u"
    using crash_recovers [OF d1 assms(5), of keep old] r(1) by (metis Pair_inject sum.inject(2))
  have ok2: "tables_ok s2"
    using tables_ok_eq [OF u(1) steps_tables_ok [OF u(2) ok1]] r(5) by (simp add: maps_ok_def)
  have "list_all entry_ok (take j gs)"
    using r(4) by (auto simp: list_all_iff dest: in_set_takeD)
  then have sh: "shelf_of s2 = restored_shelf (fold put_entry (take j gs) (shelf_of s1))"
    using shelf_eq [OF r(2)] shelf_fold_apply [OF _ shelf_restored] by metis
  show ?thesis
  proof (cases "planned up sha x s")
    case (Inl e)
    then have "gs = []"
      using r(3) by (auto simp: L_def)
    then show ?thesis
      using op_refused [OF assms(3) ok Inl] sh r(1) ok2 planned_asks [OF ok, of up sha x] Inl
      by (intro exI [of _ "Inl e"] exI [of _ s2] exI [of _ w2]) simp
  next
    case (Inr es)
    let ?k = "acked up sha x s w"
    have "prefix gs (drop ?k es)"
      using r(3) Inr by (auto simp: L_def)
    then obtain tl where tl: "drop ?k es = gs @ tl"
      by (auto simp: prefix_def)
    note o = op_shelf [OF assms(3) ok Inr]
    obtain m where m: "take m es = take ?k es @ take j gs" "?k \<le> m" "m \<le> length es"
    proof
      have "take (?k + length (take j gs)) es = take ?k es @ take (length (take j gs)) (gs @ tl)"
        using tl by (simp add: take_add)
      then show "take (?k + length (take j gs)) es = take ?k es @ take j gs"
        by (simp add: min_def split: if_splits)
      have "length (drop ?k es) = length gs + length tl"
        by (simp add: tl)
      then show "?k + length (take j gs) \<le> length es"
        using o(2) by simp
    qed simp
    have "shelf_of s2 = restored_shelf (fold put_entry (take m es) (shelf_of s))"
      using sh o(1) by (simp add: m(1))
    then have "case Inr es of
       Inl e \<Rightarrow> op_error up sha x s w = Some e \<and> s1 = s \<and> shelf_of s2 = restored_shelf (shelf_of s)
     | Inr es \<Rightarrow> \<exists>k j. k \<le> j \<and> j \<le> length es \<and> (op_error up sha x s w = None \<longrightarrow> k = length es) \<and>
         shelf_of s1 = fold put_entry (take k es) (shelf_of s) \<and>
         shelf_of s2 = restored_shelf (fold put_entry (take j es) (shelf_of s))"
      using o m(2,3) unfolding sum.case by (intro exI [of _ ?k] exI [of _ m]) simp
    then show ?thesis
      using r(1) ok2 planned_asks [OF ok, of up sha x] Inr by (intro exI [of _ "Inr es"] exI [of _ s2] exI [of _ w2]) simp
  qed
qed

subsection \<open>After a failed write\<close>

lemma blocked_idle:
  assumes "persistenceErr s = Some e" "x \<noteq> OpCompact" "op_error up sha x s w = None" "tables_ok s"
  shows "planned up sha x s = Inr []"
proof -
  obtain s' w' where r: "run_op up sha x s w = (s', w')"
    by (cases "run_op up sha x s w")
  have p: "(fst (persistLocked d s w) = None) = False" "(fst (persist_return d s w) = Inr y) = False" for d y
    using persist_blocked(2,4) [OF assms(1), of d w] by auto
  have a: "fst (appendLocked d h s v) \<noteq> None" for d h v
    by (simp add: appendLocked_blocked [OF assms(1)])
  show ?thesis
  proof (cases x)
    case (OpCreate raw req now)
    obtain y s1 w1 where c: "Create up sha raw req now s w = (Inr y, s1, w1)"
      using assms(3) OpCreate by (cases "Create up sha raw req now s w") (auto split: sum.splits)
    then show ?thesis
    proof (cases rule: Create_cases)
      case (created d h v s2)
      then show ?thesis
        using a [of d h v] by simp
    qed (use OpCreate in auto)
  next
    case (OpClaim now lease limit eligible)
    show ?thesis
    proof (cases "limit < 1 \<or> candidates now eligible (nat limit) s = []")
      case True
      then show ?thesis
        using OpClaim by (auto simp: candidates_def)
    next
      case False
      then obtain c cs where "candidates now eligible (nat limit) s = c # cs" "\<not> limit < 1"
        by (cases "candidates now eligible (nat limit) s") auto
      then show ?thesis
        using OpClaim assms(3) by (simp add: ClaimDueMatching_def Let_def appendLocked_blocked [OF assms(1)])
    qed
  next
    case (OpSucceed i att code now)
    then show ?thesis
      using assms(3) by (auto simp: Succeed_def p split: sum.splits)
  next
    case (OpFail i att code msg nxt terminal now)
    then show ?thesis
      using assms(3) by (auto simp: Fail_def p split: sum.splits)
  next
    case (OpCancel i now)
    then show ?thesis
      using assms(3) by (auto simp: Cancel_def p split: option.splits if_splits sum.splits)
  next
    case (OpRetry i now)
    then show ?thesis
      using assms(3) by (auto simp: Retry_def p split: option.splits if_splits sum.splits)
  next
    case (OpPrune before)
    then show ?thesis
      using assms(3) by (auto simp: PruneTerminal_def append_blocked [OF assms(1)] Let_def split: if_splits)
  qed (use assms(2) in simp)
qed

text \<open>A sequence of operations, each with the outcomes of its system calls.\<close>

fun run_ops :: "(bytes \<Rightarrow> url option) \<Rightarrow> (bytes \<Rightarrow> bytes) \<Rightarrow> (op \<times> fault list) list \<Rightarrow> Store \<Rightarrow> world \<Rightarrow> Store \<times> world" where
  "run_ops up sha [] s w = (s, w)"
| "run_ops up sha ((x, fs) # xs) s w = (case run_op up sha x s (w\<lparr>faults := fs\<rparr>) of (s', w') \<Rightarrow> run_ops up sha xs s' w')"

lemma ops_blocked:
  assumes "persistenceErr s = Some e" "OpCompact \<notin> fst ` set xs" "run_ops up sha xs s w = (s', w')"
  shows "s' = s \<and> same_place w w' \<and> inodes w' = inodes w"
  using assms(2,3)
proof (induction xs arbitrary: w)
  case (Cons x xs)
  obtain y fs where y: "x = (y, fs)"
    by (cases x)
  obtain s1 w1 where r: "run_op up sha y s (w\<lparr>faults := fs\<rparr>) = (s1, w1)"
    by (cases "run_op up sha y s (w\<lparr>faults := fs\<rparr>)")
  have "s1 = s \<and> same_place (w\<lparr>faults := fs\<rparr>) w1 \<and> inodes w1 = inodes (w\<lparr>faults := fs\<rparr>)"
    using op_blocked [OF assms(1) _ r] Cons.prems(1) y by auto
  moreover from this have "s' = s \<and> same_place w1 w' \<and> inodes w' = inodes w1"
    using Cons.IH [of w1] Cons.prems y r by simp
  ultimately show ?case
    by (simp add: same_place_def)
qed simp

text \<open>What a store with a failed write answers.\<close>

lemma blocked_error:
  assumes "persistenceErr s = Some e" "y \<noteq> OpCompact" "tables_ok s" "\<not> asks up sha (shelf_of s) y (Inr [])"
  shows "\<exists>e'. op_error up sha y s w = Some e' \<and>
    (e' = e \<or> e' = EncodeRecord \<or> e' = ErrJournalFull \<or> asks up sha (shelf_of s) y (Inl e'))"
proof -
  obtain s' w' where run: "run_op up sha y s w = (s', w')"
    by (cases "run_op up sha y s w")
  have ask: "asks up sha (shelf_of s) y (planned up sha y s)"
    using planned_asks [OF assms(3)] .
  then have "op_error up sha y s w \<noteq> None"
    using blocked_idle [OF assms(1,2) _ assms(3), of up sha w] assms(4) by metis
  then obtain e' where e': "op_error up sha y s w = Some e'"
    by blast
  show ?thesis
  proof (cases "planned up sha y s")
    case (Inl x)
    then show ?thesis
      using op_refused(2) [OF run assms(3)] ask by simp
  next
    case (Inr es)
    have "s' = s"
      using op_blocked [OF assms(1,2) run] by blast
    then show ?thesis
      using op_failed(2) [OF run assms(3) Inr e'] assms(1,2) e' by (auto simp: write_error_def)
  qed
qed

end
