(* ===== verification/Runs.thy ===== *)
theory Runs
  imports PendingWrites
begin

section \<open>What holds until something happens\<close>

text \<open>
  \<open>later P s w s' w'\<close>: the run goes on from \<open>(s, w)\<close> to \<open>(s', w')\<close> by operations, with any outcomes of
  their system calls, and by crashes and restarts, and \<open>P\<close> holds of every operation where it is run.
  With a \<open>P\<close> that excludes what ends a lease or removes a delivery, it gives the statements about leases,
  outcomes and idempotency over time.
\<close>

inductive later ::
  "(bytes \<Rightarrow> url option) \<Rightarrow> (bytes \<Rightarrow> bytes) \<Rightarrow> (op \<Rightarrow> Store \<Rightarrow> world \<Rightarrow> bool) \<Rightarrow> Store \<Rightarrow> world \<Rightarrow> Store \<Rightarrow> world \<Rightarrow> bool"
  for up sha P s w where
  here: "later up sha P s w s w"
| operation: "later up sha P s w s1 w1 \<Longrightarrow> inputs_ok up x s1 \<Longrightarrow> P x s1 (w1\<lparr>faults := fs\<rparr>) \<Longrightarrow>
    run_op up sha x s1 (w1\<lparr>faults := fs\<rparr>) = (s2, w2) \<Longrightarrow> later up sha P s w s2 w2"
| restart: "later up sha P s w s1 w1 \<Longrightarrow> persistenceErr s1 = None \<Longrightarrow> 0 \<le> limit \<Longrightarrow>
    Open [limit] (crash keep old w1) = (Inr s2, w2) \<Longrightarrow> later up sha P s w s2 w2"

lemma later_operation:
  "later up sha P s w s1 w1 \<Longrightarrow> inputs_ok up x s1 \<Longrightarrow> P x s1 w1 \<Longrightarrow> run_op up sha x s1 w1 = (s2, w2) \<Longrightarrow>
     later up sha P s w s2 w2"
  using later.operation [of up sha P s w s1 w1 x "faults w1"] by simp

lemma later_history: "later up sha P s w s2 w2 \<Longrightarrow> history up sha s w \<Longrightarrow> history up sha s2 w2"
proof (induction rule: later.induct)
  case (operation s1 w1 x fs s2 w2)
  then show ?case
    using history.operation [OF history.environment] by blast
next
  case (restart s1 w1 limit keep old s2 w2)
  then show ?case
    using history.restart by blast
qed

lemma history_tables: "history up sha s w \<Longrightarrow> tables_ok s \<and> storables s"
  using history_ok by (auto simp: durable_def)

lemma restart_shelf:
  assumes "history up sha s w" "persistenceErr s = None" "0 \<le> limit" "Open [limit] (crash keep old w) = (Inr s2, w2)"
  shows "shelf_of s2 = restored_shelf (shelf_of s)"
proof -
  have "durable s w"
    using history_ok [OF assms(1)] by simp
  then obtain s' w' where "Open [limit] (crash keep old w) = (Inr s', w')"
    "persistenceErr s = None \<longrightarrow> tables_eq s' (restored_tables s) \<and> durable s' w'"
    using assms(3) by (rule crash_recovers)
  then have "tables_eq s2 (restored_tables s)"
    using assms(2,4) by simp
  then show ?thesis
    using shelf_eq shelf_restored by metis
qed

lemma later_invariant [consumes 2, case_names start operation restart]:
  assumes "later up sha P s w s2 w2" "history up sha s w" "I (shelf_of s)"
    "\<And>x s1 w1 s2 w2. history up sha s1 w1 \<Longrightarrow> I (shelf_of s1) \<Longrightarrow> inputs_ok up x s1 \<Longrightarrow> P x s1 w1 \<Longrightarrow>
       run_op up sha x s1 w1 = (s2, w2) \<Longrightarrow> I (shelf_of s2)"
    "\<And>s1 w1. history up sha s1 w1 \<Longrightarrow> I (shelf_of s1) \<Longrightarrow> I (restored_shelf (shelf_of s1))"
  shows "I (shelf_of s2)"
  using assms(1)
proof (induction rule: later.induct)
  case here
  then show ?case
    by (rule assms(3))
next
  case (operation s1 w1 x fs s2 w2)
  then show ?case
    using assms(4) [of s1 "w1\<lparr>faults := fs\<rparr>" x s2 w2] history.environment later_history [OF _ assms(2)] by blast
next
  case (restart s1 w1 limit keep old s2 w2)
  have h: "history up sha s1 w1"
    using later_history [OF restart.hyps(1) assms(2)] .
  then show ?case
    using restart_shelf [OF h restart.hyps(2-4)] assms(5) [OF h restart.IH] by simp
qed

subsection \<open>Which entries an operation may write\<close>

fun entry_id :: "entry \<Rightarrow> bytes" where
  "entry_id (Put d h) = ID d"
| "entry_id (Del i) = i"

lemma fold_put_other: "i \<notin> entry_id ` set es \<Longrightarrow> fold put_entry es a i = a i"
proof (induction es arbitrary: a)
  case (Cons e es)
  then show ?case
    by (cases e) auto
qed simp

lemma fold_put_keeps:
  assumes "\<And>d h. Put d h \<in> set es \<Longrightarrow> ID d = i \<Longrightarrow> Q (d, h)" "\<And>y. a i = Some y \<Longrightarrow> Q y"
  shows "fold put_entry es a i = Some y \<Longrightarrow> Q y"
  using assms
proof (induction es arbitrary: a)
  case (Cons e es)
  have "put_entry e a i = Some z \<Longrightarrow> Q z" for z
    using Cons.prems(2,3) by (cases e) (auto split: if_splits)
  then show ?case
    using Cons.IH [of "put_entry e a"] Cons.prems by simp
qed simp

text \<open>What an operation has written, and what it leaves of the state.\<close>

definition written :: "(bytes \<Rightarrow> url option) \<Rightarrow> (bytes \<Rightarrow> bytes) \<Rightarrow> op \<Rightarrow> Store \<Rightarrow> world \<Rightarrow> entry list" where
  "written up sha x s w = (case planned up sha x s of Inl _ \<Rightarrow> [] | Inr es \<Rightarrow> take (acked up sha x s w) es)"

lemma shelf_written:
  assumes "run_op up sha x s w = (s', w')" "tables_ok s"
  shows "shelf_of s' = fold put_entry (written up sha x s w) (shelf_of s)"
proof (cases "planned up sha x s")
  case (Inl e)
  then show ?thesis
    using op_refused(1) [OF assms] by (simp add: written_def)
next
  case (Inr es)
  then show ?thesis
    using op_shelf(1) [OF assms] by (simp add: written_def)
qed

lemma written_planned: "e \<in> set (written up sha x s w) \<Longrightarrow> \<exists>es. planned up sha x s = Inr es \<and> e \<in> set es"
  by (cases "planned up sha x s") (auto simp: written_def dest: in_set_takeD)

lemma written_error:
  assumes "op_error up sha x s w \<noteq> None" "\<not> is_claim x" "tables_ok s"
  shows "written up sha x s w = []"
proof (cases "planned up sha x s")
  case (Inr es)
  then have "acked up sha x s w = 0"
    using op_failed(1) [OF _ assms(3) Inr, of w "fst (run_op up sha x s w)" "snd (run_op up sha x s w)"] assms(1,2) by auto
  then show ?thesis
    by (simp add: written_def Inr)
qed (simp add: written_def)

text \<open>Each entry, by the operation that writes it.\<close>

lemma written_cases:
  assumes "Put e g \<in> set (written up sha x s w)" "tables_ok s" "inputs_ok up x s"
  obtains (new) "map_of (items s) (ID e) = None" "Status e = StatusPending"
  | (claimed) now lease limit eligible c where "x = OpClaim now lease limit eligible" "map_of (items s) (ID e) = Some c"
      "due now c" "e = claim_item now lease c" "g = lookup_or [] (hashes s) (ID e)"
      "ID e \<in> ID ` set (fst (fst (ClaimDueMatching now lease limit eligible s w)))"
  | (updated) d where "map_of (items s) (ID e) = Some d" "same_identity d e" "Status e \<noteq> StatusInFlight"
      "g = lookup_or [] (hashes s) (ID e)"
      "(\<exists>now. x = OpRetry (ID e) now) \<and> Status d = StatusFailed \<or>
       (\<exists>att code now. x = OpSucceed (ID e) att code now) \<or>
       (\<exists>att code msg nxt terminal now. x = OpFail (ID e) att code msg nxt terminal now) \<or> (\<exists>now. x = OpCancel (ID e) now)"
proof -
  obtain es where es: "planned up sha x s = Inr es" "Put e g \<in> set es"
    using written_planned [OF assms(1)] by blast
  have id: "map_of (items s) i = Some d \<Longrightarrow> ID d = i" for i d
    using tables_okD(5) [OF assms(2)] .
  have lease: "currentLeaseLocked i att s = Inr d \<Longrightarrow> map_of (items s) i = Some d" for i att d
    by (auto simp: currentLeaseLocked_def split: option.splits if_splits)
  have fl: "Status (succeeded_item code now d) \<noteq> StatusInFlight" "Status (failed_item code msg nxt terminal now d) \<noteq> StatusInFlight"
    "Status (canceled_item now d) \<noteq> StatusInFlight" "Status (retried_item now d) \<noteq> StatusInFlight" for code now d msg nxt terminal
    using status_distinct by (simp_all add: succeeded_item_def failed_item_def canceled_item_def retried_item_def Let_def)
  show thesis
  proof (cases x)
    case (OpCreate raw req now)
    then have n: "New up sha raw req now = Inr (e, g)"
      using es by (auto split: sum.splits option.splits if_splits)
    then show thesis
    proof (rule New_cases)
      fix i r
      assume "newID raw = Some i" "ID e = i" "fresh_delivery e"
      then show thesis
        using assms(3) OpCreate by (intro new) (auto simp: inputs_ok_def fresh_id_def fresh_delivery_def)
    qed
  next
    case (OpClaim now lease limit eligible)
    let ?cs = "candidates now eligible (nat limit) s"
    obtain cl err s' w' where c: "ClaimDueMatching now lease limit eligible s w = ((cl, err), s', w')"
      by (cases "ClaimDueMatching now lease limit eligible s w") auto
    from Claim_cases [OF c assms(2)] obtain k where k: "cl = List.map (\<lambda>c. Clone (claim_item now lease c)) (take k ?cs)"
      by metis
    have "Put e g \<in> set (take (length cl) es)"
      using assms(1) OpClaim c es(1) by (simp add: written_def acked_def)
    moreover have "take (length cl) es = List.map (\<lambda>c. Put (claim_item now lease c) (lookup_or [] (hashes s) (ID c))) (take k ?cs)"
      using es(1) OpClaim k by (auto simp: take_map min_def)
    ultimately obtain c0 where c0: "c0 \<in> set (take k ?cs)" "e = claim_item now lease c0" "g = lookup_or [] (hashes s) (ID c0)"
      by auto
    then have "map_of (items s) (ID c0) = Some c0 \<and> due now c0"
      using candidates_facts(2) [OF assms(2), of now eligible "nat limit"] by (auto dest: in_set_takeD)
    moreover have "Clone e \<in> set cl"
      using c0(1,2) k by simp
    then have "ID e \<in> ID ` set cl"
      by (metis ID_Clone(1) imageI)
    ultimately show thesis
      using OpClaim c c0(2,3) by (intro claimed) auto
  next
    case (OpSucceed i att code now)
    then obtain d where d: "currentLeaseLocked i att s = Inr d" "e = succeeded_item code now d" "g = lookup_or [] (hashes s) i"
      using es by (auto split: sum.splits)
    then show thesis
      using id [OF lease [OF d(1)]] lease [OF d(1)] fl OpSucceed by (intro updated) auto
  next
    case (OpFail i att code msg nxt terminal now)
    then obtain d where d: "currentLeaseLocked i att s = Inr d" "e = failed_item code msg nxt terminal now d"
      "g = lookup_or [] (hashes s) i"
      using es by (auto split: sum.splits)
    then show thesis
      using id [OF lease [OF d(1)]] lease [OF d(1)] fl OpFail by (intro updated) auto
  next
    case (OpCancel i now)
    then obtain d where "map_of (items s) i = Some d" "e = canceled_item now d" "g = lookup_or [] (hashes s) i"
      using es by (auto split: option.splits if_splits)
    then show thesis
      using id fl OpCancel by (intro updated) auto
  next
    case (OpRetry i now)
    then obtain d where "map_of (items s) i = Some d" "Status d = StatusFailed" "e = retried_item now d" "g = lookup_or [] (hashes s) i"
      using es by (auto split: option.splits if_splits)
    then show thesis
      using id fl OpRetry by (intro updated) auto
  qed (use es in auto)
qed


lemma written_gone:
  assumes "Del i \<in> set (written up sha x s w)" "tables_ok s"
  shows "\<exists>d. map_of (items s) i = Some d \<and> terminal_status (Status d)"
proof -
  obtain es where es: "planned up sha x s = Inr es" "Del i \<in> set es"
    using written_planned [OF assms(1)] by blast
  then have "\<exists>before. i \<in> set (prune_ids before s)"
    by (cases x) (auto split: sum.splits option.splits if_splits)
  then show ?thesis
    using prune_ids_facts(2) [OF assms(2)] by (auto simp: prunable_def)
qed

subsection \<open>An outcome stands until the next claim\<close>

definition claims :: "op \<Rightarrow> bytes \<Rightarrow> Store \<Rightarrow> world \<Rightarrow> bool" where
  "claims x i s w \<longleftrightarrow>
     (\<exists>now lease limit eligible. x = OpClaim now lease limit eligible \<and>
        i \<in> ID ` set (fst (fst (ClaimDueMatching now lease limit eligible s w))))"

definition idle :: "bytes \<Rightarrow> shelf \<Rightarrow> bool" where
  "idle i a \<longleftrightarrow> (\<forall>d h. a i = Some (d, h) \<longrightarrow> Status d \<noteq> StatusInFlight)"

lemma restored_idle:
  assumes "deliveries_ok s" "idle i (shelf_of s)"
  shows "idle i (restored_shelf (shelf_of s))"
proof -
  have "valid_utf8 (Status d) \<noteq> StatusInFlight" if "map_of (items s) i = Some d" for d
  proof -
    have "delivery_ok d" "Status d \<noteq> StatusInFlight"
      using assms that by (auto simp: deliveries_ok_def idle_def shelf_Some)
    then show ?thesis
      using status_distinct by (auto simp: delivery_ok_def status_utf8)
  qed
  then show ?thesis
    by (auto simp: idle_def restored_shelf_def shelf_Some)
qed

lemma idle_step:
  assumes "run_op up sha x s w = (s', w')" "tables_ok s" "inputs_ok up x s" "\<not> claims x i s w" "idle i (shelf_of s)"
  shows "idle i (shelf_of s')"
proof -
  let ?Q = "\<lambda>y :: Delivery \<times> bytes. Status (fst y) \<noteq> StatusInFlight"
  have "?Q (e, g)" if "Put e g \<in> set (written up sha x s w)" "ID e = i" for e g
    using that(1) assms(2,3)
  proof (cases rule: written_cases)
    case new
    then show ?thesis
      using status_distinct by simp
  next
    case (claimed now lease limit eligible c)
    then show ?thesis
      using assms(4) that(2) by (auto simp: claims_def)
  qed simp
  moreover have "?Q y" if "shelf_of s i = Some y" for y
    using assms(5) that by (cases y) (simp add: idle_def)
  ultimately have "?Q y" if "shelf_of s' i = Some y" for y
    using fold_put_keeps [of "written up sha x s w" i ?Q "shelf_of s" y] that shelf_written [OF assms(1,2)] by metis
  then show ?thesis
    by (fastforce simp: idle_def)
qed

lemma outcome_idle:
  assumes "tables_ok s"
    "Succeed i att code now s w = (None, s1, w1) \<or> Fail i att code msg nxt terminal now s w = (None, s1, w1)"
  shows "idle i (shelf_of s1)"
proof -
  have st: "Status (succeeded_item code now d) \<noteq> StatusInFlight"
    "Status (failed_item code msg nxt terminal now d) \<noteq> StatusInFlight" for d
    using status_distinct by (simp_all add: succeeded_item_def failed_item_def Let_def)
  from assms(2) show ?thesis
  proof
    assume "Succeed i att code now s w = (None, s1, w1)"
    from outcome_stored(1) [OF assms(1) this] show ?thesis
      using st(1) by (auto simp: idle_def shelf_Some)
  next
    assume "Fail i att code msg nxt terminal now s w = (None, s1, w1)"
    from outcome_stored(2) [OF assms(1) this] show ?thesis
      using st(2) by (auto simp: idle_def shelf_Some)
  qed
qed

subsection \<open>A lease holds until it runs out\<close>

definition leased :: "bytes \<Rightarrow> int \<Rightarrow> shelf \<Rightarrow> bool" where
  "leased i until a \<longleftrightarrow> (\<exists>d h. a i = Some (d, h) \<and> Status d = StatusInFlight \<and> LeaseUntil d = until)"

text \<open>Operations that leave the lease alone: claims before it ends, and no report or cancel that is accepted.\<close>

definition spares :: "(bytes \<Rightarrow> url option) \<Rightarrow> (bytes \<Rightarrow> bytes) \<Rightarrow> bytes \<Rightarrow> int \<Rightarrow> op \<Rightarrow> Store \<Rightarrow> world \<Rightarrow> bool" where
  "spares up sha i until x s w \<longleftrightarrow>
     (case x of
        OpClaim now lease limit eligible \<Rightarrow> now < until
      | OpSucceed j att code now \<Rightarrow> j \<noteq> i \<or> op_error up sha x s w \<noteq> None
      | OpFail j att code msg nxt terminal now \<Rightarrow> j \<noteq> i \<or> op_error up sha x s w \<noteq> None
      | OpCancel j now \<Rightarrow> j \<noteq> i \<or> op_error up sha x s w \<noteq> None
      | _ \<Rightarrow> True)"

lemma restored_leased: "leased i until a \<Longrightarrow> leased i until (restored_shelf a)"
  by (auto simp: leased_def restored_shelf_def status_utf8)

lemma leased_step:
  assumes "run_op up sha x s w = (s', w')" "tables_ok s" "inputs_ok up x s" "spares up sha i until x s w" "leased i until (shelf_of s)"
  shows "leased i until (shelf_of s')"
proof -
  obtain d where d: "map_of (items s) i = Some d" "Status d = StatusInFlight" "LeaseUntil d = until"
    using assms(5) by (auto simp: leased_def shelf_Some)
  have "entry_id e \<noteq> i" if e: "e \<in> set (written up sha x s w)" for e
  proof
    assume i: "entry_id e = i"
    show False
    proof (cases e)
      case (Del j)
      then show False
        using written_gone [of j up sha x s w] e i assms(2) d status_distinct by (auto simp: terminal_status_def)
    next
      case (Put c g)
      then have m: "Put c g \<in> set (written up sha x s w)" "ID c = i"
        using e i by simp_all
      have err: "op_error up sha x s w = None" if "\<not> is_claim x"
        using written_error [OF _ that assms(2)] m(1) by fastforce
      from m(1) assms(2,3) show False
      proof (cases rule: written_cases)
        case new
        then show False
          using d m(2) by simp
      next
        case (claimed now lease limit eligible c')
        then have "due now d" "now < until"
          using d(1) m(2) assms(4) by (simp_all add: spares_def)
        then show False
          using d(2,3) status_distinct by (simp add: due_def)
      next
        case (updated d')
        then show False
          using d m(2) assms(4) err status_distinct by (auto simp: spares_def)
      qed
    qed
  qed
  then have "fold put_entry (written up sha x s w) (shelf_of s) i = shelf_of s i"
    by (intro fold_put_other) auto
  then show ?thesis
    using assms(5) shelf_written [OF assms(1,2)] by (simp add: leased_def)
qed

subsection \<open>A key stands while its delivery is stored\<close>

definition filed :: "bytes \<Rightarrow> bytes \<Rightarrow> bytes \<Rightarrow> shelf \<Rightarrow> bool" where
  "filed i k h a \<longleftrightarrow> (\<exists>d. a i = Some (d, h) \<and> IdempotencyKey d = k)"

lemma restored_filed:
  assumes "storables s" "filed i k h (shelf_of s)"
  shows "filed i k h (restored_shelf (shelf_of s))"
proof -
  obtain d where d: "shelf_of s i = Some (d, h)" "IdempotencyKey d = k"
    using assms(2) by (auto simp: filed_def)
  then have "storable d"
    using assms(1) by (auto simp: shelf_Some storables_def)
  then have "IdempotencyKey (restored d) = k"
    using storable_ID(2) [of d] d(2) by simp
  then show ?thesis
    using d(1) by (simp add: filed_def restored_shelf_def del: restored_simps)
qed

lemma filed_step:
  assumes "run_op up sha x s w = (s', w')" "tables_ok s" "inputs_ok up x s" "map_of (items s') i \<noteq> None" "filed i k h (shelf_of s)"
  shows "filed i k h (shelf_of s')"
proof -
  let ?Q = "\<lambda>y :: Delivery \<times> bytes. snd y = h \<and> IdempotencyKey (fst y) = k"
  obtain d where d: "map_of (items s) i = Some d" "lookup_or [] (hashes s) i = h" "IdempotencyKey d = k"
    using assms(5) by (auto simp: filed_def shelf_Some)
  have "?Q (e, g)" if "Put e g \<in> set (written up sha x s w)" "ID e = i" for e g
    using that(1) assms(2,3)
  proof (cases rule: written_cases)
    case new
    then show ?thesis
      using d(1) that(2) by simp
  next
    case (claimed now lease limit eligible c)
    then show ?thesis
      using d that(2) by (simp add: claim_item_def)
  next
    case (updated d')
    then show ?thesis
      using d that(2) by (simp add: same_identity_def)
  qed
  moreover obtain y where "shelf_of s' i = Some y"
    using assms(4) by (auto simp: shelf_of_def)
  ultimately have "?Q y"
    using fold_put_keeps [of "written up sha x s w" i ?Q "shelf_of s" y] d shelf_written [OF assms(1,2)] by (auto simp: shelf_Some)
  then show ?thesis
    using \<open>shelf_of s' i = Some y\<close> by (cases y) (simp add: filed_def)
qed

text \<open>A creation files its key and hash, and a filed key is answered from the store.\<close>

lemma Create_filed:
  assumes "Create up sha raw req now s w = (Inr (d, True), s1, w1)" "normalize up req = Inr r"
  shows "filed (ID d) (reqIdempotencyKey r) (fingerprint sha r) (shelf_of s1)"
  using assms(1)
proof (cases rule: Create_cases)
  case (created d0 h w' s2)
  have d0: "h = fingerprint sha r" "IdempotencyKey d0 = reqIdempotencyKey r" "d = Clone d0"
    using New_hash [OF created(1) assms(2)] created(5) by simp_all
  then show ?thesis
    using created(6) by (simp add: filed_def shelf_Some map_of_setLocked lookup_or_def)
qed simp_all

lemma Create_filed_again:
  assumes "filed i (reqIdempotencyKey r) (fingerprint sha r) (shelf_of s)" "tables_ok s" "reqIdempotencyKey r \<noteq> []"
    "normalize up req' = Inr r'" "reqIdempotencyKey r' = reqIdempotencyKey r"
  shows "\<exists>e. map_of (items s) i = Some e \<and> Create up sha (Some raw') req' now' s w =
    (if fingerprint sha r' = fingerprint sha r then Inr (e, False) else Inl ErrIdempotencyConflict, s, w)"
proof -
  obtain e where e: "map_of (items s) i = Some e" "lookup_or [] (hashes s) i = fingerprint sha r"
    "IdempotencyKey e = reqIdempotencyKey r"
    using assms(1) by (auto simp: filed_def shelf_Some)
  have "map_of (keyToID s) (reqIdempotencyKey r) = Some i" "Clone e = e"
    using tables_okD(8) [OF assms(2)] tables_okD(7) [OF assms(2) e(1)] e(1,3) assms(3) by (auto simp: Clone_id)
  moreover obtain d where d: "New up sha (Some raw') req' now' = Inr (d, fingerprint sha r')"
    using New_defined [OF assms(4)] by blast
  moreover have "IdempotencyKey d = reqIdempotencyKey r"
    using New_hash(2) [OF d assms(4)] assms(5) by simp
  ultimately show ?thesis
    using e assms(3) by (simp add: Create_def lookup_or_def)
qed

subsection \<open>Over a whole run\<close>

lemma later_idle:
  assumes "later up sha (\<lambda>x s w. \<not> claims x i s w) s w s2 w2" "history up sha s w" "idle i (shelf_of s)"
  shows "idle i (shelf_of s2)"
  using assms
proof (induction rule: later_invariant)
  case (operation x s1 w1 s2 w2)
  then show ?case
    using idle_step history_tables by blast
next
  case (restart s1 w1)
  then show ?case
    using restored_idle history_ok by blast
qed

lemma later_leased:
  assumes "later up sha (spares up sha i until) s w s2 w2" "history up sha s w" "leased i until (shelf_of s)"
  shows "leased i until (shelf_of s2)"
  using assms
proof (induction rule: later_invariant)
  case (operation x s1 w1 s2 w2)
  then show ?case
    using leased_step history_tables by blast
next
  case (restart s1 w1)
  then show ?case
    using restored_leased by blast
qed

lemma later_filed:
  assumes "later up sha (\<lambda>x s w. map_of (items (fst (run_op up sha x s w))) i \<noteq> None) s w s2 w2" "history up sha s w"
    "filed i k h (shelf_of s)"
  shows "filed i k h (shelf_of s2)"
  using assms
proof (induction rule: later_invariant)
  case (operation x s1 w1 s2 w2)
  then show ?case
    using filed_step [of up sha x s1 w1 s2 w2] history_tables [of up sha s1 w1] by simp
next
  case (restart s1 w1)
  then show ?case
    using restored_filed history_tables by blast
qed

end
