(* ===== verification/Examples.thy ===== *)
theory Examples
  imports TornTail
begin

section \<open>A concrete run\<close>

text \<open>
  One run of the store that the witnesses of the properties use: the first start in an empty
  directory, a request, its delivery, and its first claim.
\<close>

subsection \<open>A request\<close>

definition example_url :: "bytes \<Rightarrow> url option" where
  "example_url s =
     (if prefix ''http://'' s \<and> list_all (\<lambda>c. 32 \<le> bval c \<and> bval c \<noteq> 127) s
      then Some \<lparr>urlScheme = ''http'', urlUser = False, urlHost = takeWhile (\<lambda>c. c \<noteq> CHR ''/'') (drop 7 s),
        urlPath = [], urlRawQuery = [], urlFragment = []\<rparr>
      else None)"

lemma example_url_rejects: "rejects_control example_url"
  by (auto simp: rejects_control_def example_url_def split: if_splits)

definition example_request :: CreateRequest where
  "example_request =
     \<lparr>reqIdempotencyKey = '' order-1 '', reqTargetURL = ''http://shop/hook '', reqMethod = ''put'',
      reqHeaders = [(''x-trace'', ''7''), (''Accept'', ''text'')], reqBody = ''[1, 2]'', reqMaxAttempts = 0\<rparr>"

definition example_normalized :: CreateRequest where
  "example_normalized =
     \<lparr>reqIdempotencyKey = ''order-1'', reqTargetURL = ''http://shop/hook'', reqMethod = ''PUT'',
      reqHeaders = [(''X-Trace'', ''7''), (''Accept'', ''text'')], reqBody = ''[1, 2]'', reqMaxAttempts = 8\<rparr>"

lemma example_normalize: "normalize example_url example_request = Inr example_normalized"
  by code_simp

text \<open>A hash function for the run: the bytes themselves, which is free of collisions.\<close>

definition example_sha :: "bytes \<Rightarrow> bytes" where "example_sha s = s"

definition example_raw :: bytes where "example_raw = replicate 16 (CHR 0x07)"

definition example_id :: bytes where "example_id = hex_encode example_raw"

definition example_hash :: bytes where "example_hash = fingerprint example_sha example_normalized"

definition example_delivery :: Delivery where
  "example_delivery =
     \<lparr>ID = example_id, IdempotencyKey = ''order-1'', TargetURL = ''http://shop/hook'', Method = ''PUT'',
      Headers = [(''X-Trace'', ''7''), (''Accept'', ''text'')], Body = ''[1, 2]'', Status = StatusPending, Attempts = 0,
      MaxAttempts = 8, NextAttemptAt = 5, LeaseUntil = zero_time, LastError = [], LastResponseCode = 0,
      CreatedAt = 5, UpdatedAt = 5\<rparr>"

lemma example_New: "New example_url example_sha (Some example_raw) example_request 5 = Inr (example_delivery, example_hash)"
  unfolding New_def example_normalize
  by (simp add: newID_def example_normalized_def example_delivery_def example_hash_def example_id_def)

lemma example_id_nonempty: "example_id \<noteq> []"
proof -
  have "length example_id = 32"
    by (simp add: example_id_def example_raw_def)
  then show ?thesis
    by auto
qed

subsection \<open>The states of the run\<close>

lemma marshal_defined:
  assumes "encodable d" "format_time (CreatedAt d) \<noteq> None" "format_time (UpdatedAt d) \<noteq> None"
    "format_time (NextAttemptAt d) \<noteq> None" "format_time (LeaseUntil d) \<noteq> None"
  shows "marshalRecord d h \<noteq> None"
  using assms
  by (cases "NextAttemptAt d = zero_time"; cases "LeaseUntil d = zero_time")
    (auto simp: marshalRecord_members delivery_members_def time_member_def optional_time_def time_text_def)

lemma small_times: "0 \<le> t \<Longrightarrow> t < 1000000000 \<Longrightarrow> format_time t \<noteq> None"
  unfolding format_time_defined by (simp add: nanos_per_sec_def days_before_year_def)

lemma example_storable: "storable example_delivery" "storable (claim_item 10 30 example_delivery)"
proof -
  have "is_utf8 example_id"
    by (simp add: example_id_def is_utf8_ascii hex_ascii)
  moreover have "is_utf8 ''order-1''" "is_utf8 ''X-Trace''" "is_utf8 ''Accept''"
    by (simp_all add: is_utf8_ascii is_ascii_def)
  moreover have "json_valid_lim 9998 ''[1, 2]''"
    by code_simp
  ultimately show "storable example_delivery" "storable (claim_item 10 30 example_delivery)"
    using example_id_nonempty
    by (simp_all add: storable_def encodable_def example_delivery_def claim_item_def gomap_ok_def int64_range_def)
qed

lemma example_hash_utf8: "is_utf8 example_hash"
  by (simp add: example_hash_def fingerprint_def is_utf8_ascii hex_ascii)

definition example_s0 :: Store where "example_s0 = new_store 0 0"
definition example_w0 :: world where "example_w0 = boot_world ''spool''"

definition example_s1 :: Store where
  "example_s1 = setLocked example_delivery example_hash (example_s0\<lparr>records := 1\<rparr>)"
definition example_w1 :: world where
  "example_w1 = snd (snd (Create example_url example_sha (Some example_raw) example_request 5 example_s0 example_w0))"

definition example_claim :: Delivery where "example_claim = claim_item 10 30 example_delivery"
definition example_s2 :: Store where
  "example_s2 = setLocked example_claim example_hash (example_s1\<lparr>records := 2\<rparr>)"
definition example_w2 :: world where
  "example_w2 = snd (snd (ClaimDueMatching 10 30 1 (\<lambda>_. True) example_s1 example_w1))"

lemma example_Create:
  "Create example_url example_sha (Some example_raw) example_request 5 example_s0 example_w0 =
     (Inr (Clone example_delivery, True), example_s1, example_w1)"
  "faults example_w1 = []" "\<exists>x k. on_disk 0 x k example_w1"
proof -
  obtain l where l: "marshalRecord example_delivery example_hash = Some l"
    using example_storable(1) small_times marshal_defined [of example_delivery example_hash]
    by (fastforce simp: storable_def example_delivery_def zero_time_def)
  have d: "on_disk 0 [] 0 example_w0" "faults example_w0 = []"
    by (simp_all add: on_disk_def example_w0_def boot_world_def)
  obtain w where w: "appendLocked example_delivery example_hash example_s0 example_w0 = (None, example_s0\<lparr>records := 1\<rparr>, w)"
    "faults w = []" "on_disk 0 ([] @ l) (length ([] @ l)) w"
    by (rule appendLocked_clean [OF d(2) _ _ d(1) l, of example_s0]) (auto simp: example_s0_def new_store_def)
  have "Create example_url example_sha (Some example_raw) example_request 5 example_s0 example_w0 =
     (Inr (Clone example_delivery, True), example_s1, w)"
  proof -
    have "keyToID example_s0 = []" "checkAdmissionLocked example_delivery example_hash example_s0 example_w0 = (None, example_s0, example_w0)"
      by (simp_all add: checkAdmissionLocked_def example_s0_def new_store_def)
    then show ?thesis
      unfolding Create_def example_New using w(1) by (simp add: example_s1_def)
  qed
  then show "Create example_url example_sha (Some example_raw) example_request 5 example_s0 example_w0 =
     (Inr (Clone example_delivery, True), example_s1, example_w1)"
    "faults example_w1 = []" "\<exists>x k. on_disk 0 x k example_w1"
    using w(2,3) by (auto simp: example_w1_def)
qed

lemma example_s1_simps:
  "items example_s1 = [(example_id, Clone example_delivery)]" "hashes example_s1 = [(example_id, example_hash)]"
  "keyToID example_s1 = [(''order-1'', example_id)]" "persistenceErr example_s1 = None" "journalFile example_s1 = Some 0"
  "records example_s1 = 1" "maxJournalBytes example_s1 = 0"
  by (simp_all add: example_s1_def example_s0_def new_store_def setLocked_def Let_def example_delivery_def)

lemma example_Clone: "Clone example_delivery = example_delivery" "Clone example_claim = example_claim"
  by (simp_all add: Clone_id example_delivery_def example_claim_def claim_item_def gomap_ok_def)

lemma example_Claim:
  "ClaimDueMatching 10 30 1 (\<lambda>_. True) example_s1 example_w1 = (([example_claim], None), example_s2, example_w2)"
  "faults example_w2 = []" "\<exists>x k. on_disk 0 x k example_w2"
proof -
  obtain l where l: "marshalRecord example_claim example_hash = Some l"
    using example_storable(2) small_times marshal_defined [of example_claim example_hash]
    by (fastforce simp: storable_def example_claim_def claim_item_def example_delivery_def zero_time_def)
  obtain x k where d: "on_disk 0 x k example_w1"
    using example_Create(3) by blast
  obtain w where w: "appendLocked example_claim example_hash example_s1 example_w1 = (None, example_s1\<lparr>records := 2\<rparr>, w)"
    "faults w = []" "on_disk 0 (x @ l) (length (x @ l)) w"
    by (rule appendLocked_clean [OF example_Create(2) _ _ d l, of example_s1]) (auto simp: example_s1_simps)
  have c: "candidates 10 (\<lambda>_. True) 1 example_s1 = [example_delivery]"
    by (simp add: candidates_def example_s1_simps example_Clone) (simp add: due_def example_delivery_def)
  have i: "ID (claim_item 10 30 example_delivery) = example_id"
    by (simp add: claim_item_def example_delivery_def)
  have "claim_loop 10 30 [example_delivery] [] example_s1 example_w1 =
      (([example_claim], None), example_s2, w)"
    using w(1) example_Clone(2) i by (simp add: Let_def example_claim_def [symmetric] example_s1_simps lookup_or_def example_s2_def)
  then have "ClaimDueMatching 10 30 1 (\<lambda>_. True) example_s1 example_w1 = (([example_claim], None), example_s2, w)"
    unfolding ClaimDueMatching_def using c by simp
  then show "ClaimDueMatching 10 30 1 (\<lambda>_. True) example_s1 example_w1 = (([example_claim], None), example_s2, example_w2)"
    "faults example_w2 = []" "\<exists>x k. on_disk 0 x k example_w2"
    using w(2,3) by (auto simp: example_w2_def)
qed

lemma example_s2_simps:
  "items example_s2 = [(example_id, example_claim)]" "hashes example_s2 = [(example_id, example_hash)]"
  "keyToID example_s2 = [(''order-1'', example_id)]" "persistenceErr example_s2 = None" "journalFile example_s2 = Some 0"
  "records example_s2 = 2"
  using example_Clone(2)
  by (simp_all add: example_s2_def setLocked_def Let_def example_s1_simps)
    (simp_all add: example_claim_def claim_item_def example_delivery_def)

subsection \<open>It is a history\<close>

lemma example_fresh: "newID (Some example_raw) = Some example_id"
  by (simp add: newID_def example_id_def)

lemma example_inputs:
  "inputs_ok example_url (OpCreate (Some example_raw) example_request 5) example_s0"
  "inputs_ok example_url (OpClaim 10 30 1 (\<lambda>_. True)) example_s1"
proof -
  have "json_valid_lim 9998 (reqBody example_request)" "trim_space (reqIdempotencyKey example_request) = ''order-1''"
    by code_simp+
  moreover have "is_utf8 ''order-1''"
    by (simp add: is_utf8_ascii is_ascii_def)
  ultimately show "inputs_ok example_url (OpCreate (Some example_raw) example_request 5) example_s0"
    using example_id_nonempty
    by (simp add: inputs_ok_def fresh_id_def example_fresh) (simp add: example_s0_def new_store_def)
  show "inputs_ok example_url (OpClaim 10 30 1 (\<lambda>_. True)) example_s1"
    by (simp add: inputs_ok_def fresh_id_def example_s1_simps example_delivery_def int64_range_def)
qed

lemma example_history:
  "history example_url example_sha example_s0 example_w0"
  "history example_url example_sha example_s1 example_w1"
  "history example_url example_sha example_s2 example_w2"
proof -
  show h0: "history example_url example_sha example_s0 example_w0"
    using history.boot [of 0 "''spool''" example_s0 example_w0] Open_empty [of 0 "''spool''"]
    by (simp add: example_s0_def example_w0_def)
  show h1: "history example_url example_sha example_s1 example_w1"
    by (rule history.operation [OF h0 example_inputs(1)]) (simp add: example_Create(1))
  show "history example_url example_sha example_s2 example_w2"
    by (rule history.operation [OF h1 example_inputs(2)]) (simp add: example_Claim(1))
qed

subsection \<open>A failed attempt, a retry, and the next claim\<close>

lemma persist_clean:
  assumes "faults w = []" "persistenceErr s = None" "journalFile s = Some f" "on_disk f x k w"
    "lookup_or [] (hashes s) (ID e) = h" "marshalRecord e h \<noteq> None" "s' = setLocked e h (s\<lparr>records := records s + 1\<rparr>)"
  obtains w' x' k' where "persistLocked e s w = (None, s', w')" "faults w' = []" "on_disk f x' k' w'"
proof -
  obtain l where l: "marshalRecord e h = Some l"
    using assms(6) by auto
  obtain w' where "appendLocked e h s w = (None, s\<lparr>records := records s + 1\<rparr>, w')" "faults w' = []"
    "on_disk f (x @ l) (length (x @ l)) w'"
    by (rule appendLocked_clean [OF assms(1-4) l])
  then show thesis
    using assms(5,7) by (intro that) (simp_all add: persistLocked_def Let_def)
qed

definition example_failed :: Delivery where
  "example_failed = failed_item 500 ''HTTP 500'' zero_time True 12 example_claim"
definition example_s3 :: Store where
  "example_s3 = setLocked example_failed example_hash (example_s2\<lparr>records := 3\<rparr>)"
definition example_w3 :: world where
  "example_w3 = snd (snd (Fail example_id 1 500 ''HTTP 500'' zero_time True 12 example_s2 example_w2))"

definition example_retried :: Delivery where
  "example_retried = retried_item 13 example_failed"
definition example_s4 :: Store where
  "example_s4 = setLocked example_retried example_hash (example_s3\<lparr>records := 4\<rparr>)"
definition example_w4 :: world where
  "example_w4 = snd (snd (Retry example_id 13 example_s3 example_w3))"

lemma example_later_simps:
  "ID example_claim = example_id" "Status example_claim = StatusInFlight" "Attempts example_claim = 1"
  "ID example_failed = example_id" "Status example_failed = StatusFailed" "Clone example_failed = example_failed"
  "ID example_retried = example_id" "Status example_retried = StatusPending" "Clone example_retried = example_retried"
  "NextAttemptAt example_retried = 13" "Attempts example_retried = 0" "IdempotencyKey example_failed = ''order-1''"
  "IdempotencyKey example_retried = ''order-1''"
  by (simp_all add: Clone_id example_retried_def retried_item_def example_failed_def failed_item_def Let_def example_claim_def
      claim_item_def example_delivery_def gomap_ok_def)

lemma example_later_marshal:
  "marshalRecord example_failed h \<noteq> None" "marshalRecord example_retried h \<noteq> None"
  "marshalRecord (claim_item 14 30 example_retried) h \<noteq> None"
proof -
  have e: "encodable example_failed" "encodable example_retried" "encodable (claim_item 14 30 example_retried)"
    using example_storable
    by (simp_all add: storable_def encodable_def example_retried_def retried_item_def example_failed_def failed_item_def Let_def
        example_claim_def claim_item_def int64_range_def)
  show "marshalRecord example_failed h \<noteq> None" "marshalRecord example_retried h \<noteq> None"
    "marshalRecord (claim_item 14 30 example_retried) h \<noteq> None"
    using e small_times
    by (intro marshal_defined;
      simp add: example_retried_def retried_item_def example_failed_def failed_item_def Let_def
        example_claim_def claim_item_def zero_time_def example_delivery_def)+
qed

lemma example_Fail:
  "Fail example_id 1 500 ''HTTP 500'' zero_time True 12 example_s2 example_w2 = (None, example_s3, example_w3)"
  "faults example_w3 = []" "\<exists>x k. on_disk 0 x k example_w3"
proof -
  obtain x k where d: "on_disk 0 x k example_w2"
    using example_Claim(3) by blast
  have h: "lookup_or [] (hashes example_s2) (ID example_failed) = example_hash"
    by (simp add: example_s2_simps example_later_simps lookup_or_def)
  obtain w x' k' where w: "persistLocked example_failed example_s2 example_w2 = (None, example_s3, w)" "faults w = []" "on_disk 0 x' k' w"
    by (rule persist_clean [OF example_Claim(2) example_s2_simps(4,5) d h example_later_marshal(1), of example_s3])
      (simp_all only: example_s3_def example_s2_simps, simp)
  have "Fail example_id 1 500 ''HTTP 500'' zero_time True 12 example_s2 example_w2 = (None, example_s3, w)"
    using w(1) by (simp add: Fail_def currentLeaseLocked_def example_s2_simps example_later_simps example_failed_def)
  then show "Fail example_id 1 500 ''HTTP 500'' zero_time True 12 example_s2 example_w2 = (None, example_s3, example_w3)"
    "faults example_w3 = []" "\<exists>x k. on_disk 0 x k example_w3"
    using w(2,3) by (auto simp: example_w3_def)
qed

lemma example_s3_simps:
  "items example_s3 = [(example_id, example_failed)]" "hashes example_s3 = [(example_id, example_hash)]"
  "persistenceErr example_s3 = None" "journalFile example_s3 = Some 0" "records example_s3 = 3"
  by (simp_all add: example_s3_def setLocked_def Let_def example_s2_simps example_later_simps)

lemma example_Retry:
  "Retry example_id 13 example_s3 example_w3 = (Inr example_retried, example_s4, example_w4)"
  "faults example_w4 = []" "\<exists>x k. on_disk 0 x k example_w4"
proof -
  obtain x k where d: "on_disk 0 x k example_w3"
    using example_Fail(3) by blast
  have h: "lookup_or [] (hashes example_s3) (ID example_retried) = example_hash"
    by (simp add: example_s3_simps example_later_simps lookup_or_def)
  obtain w x' k' where w: "persistLocked example_retried example_s3 example_w3 = (None, example_s4, w)" "faults w = []" "on_disk 0 x' k' w"
    by (rule persist_clean [OF example_Fail(2) example_s3_simps(3,4) d h example_later_marshal(2), of example_s4])
      (simp_all only: example_s4_def example_s3_simps, simp)
  have "Retry example_id 13 example_s3 example_w3 = (Inr example_retried, example_s4, w)"
    using w(1) by (simp add: Retry_def persist_return_def example_s3_simps example_later_simps flip: example_retried_def)
  then show "Retry example_id 13 example_s3 example_w3 = (Inr example_retried, example_s4, example_w4)"
    "faults example_w4 = []" "\<exists>x k. on_disk 0 x k example_w4"
    using w(2,3) by (auto simp: example_w4_def)
qed

lemma example_s4_simps:
  "items example_s4 = [(example_id, example_retried)]" "hashes example_s4 = [(example_id, example_hash)]"
  "persistenceErr example_s4 = None" "journalFile example_s4 = Some 0" "records example_s4 = 4"
  by (simp_all add: example_s4_def setLocked_def Let_def example_s3_simps example_later_simps)

lemma example_reclaim:
  "\<exists>s' w'. ClaimDueMatching 14 30 1 (\<lambda>_. True) example_s4 example_w4 =
     (([Clone (claim_item 14 30 example_retried)], None), s', w')"
proof -
  obtain x k where d: "on_disk 0 x k example_w4"
    using example_Retry(3) by blast
  obtain l where l: "marshalRecord (claim_item 14 30 example_retried) example_hash = Some l"
    using example_later_marshal by blast
  obtain w where w: "appendLocked (claim_item 14 30 example_retried) example_hash example_s4 example_w4 =
      (None, example_s4\<lparr>records := records example_s4 + 1\<rparr>, w)"
    using appendLocked_clean [OF example_Retry(2) example_s4_simps(3,4) d l] by metis
  have c: "candidates 14 (\<lambda>_. True) (Suc 0) example_s4 = [example_retried]"
    by (simp add: candidates_def due_def example_s4_simps example_later_simps)
  have h: "lookup_or [] (hashes example_s4) example_id = example_hash"
    by (simp add: example_s4_simps lookup_or_def)
  have "ClaimDueMatching 14 30 1 (\<lambda>_. True) example_s4 example_w4 = claim_loop 14 30 [example_retried] [] example_s4 example_w4"
    by (simp only: ClaimDueMatching_def) (simp add: c)
  also have "\<exists>s' w'. \<dots> = (([Clone (claim_item 14 30 example_retried)], None), s', w')"
    using w h by (simp add: Let_def example_later_simps)
  finally show ?thesis .
qed

end
