(* ===== verification/Compactor.thy ===== *)
theory Compactor
  imports Examples StoreOps
begin

section \<open>Background maintenance: \<open>internal/compactor\<close>\<close>

text \<open>
  The compactor sees the journal through an interface, \<open>journalStore\<close>: here a record of
  functions over a state \<open>'s\<close>. Its own state is a \<open>host\<close>: the store's state, the clock, whose
  successive readings are \<open>clock 0\<close>, \<open>clock 1\<close>, and the log. What the interface promises is the
  locale \<open>journal_contract\<close>; it is interpreted on the store of theory \<open>Store\<close>. The fields of a log
  line are the arguments of its constructor.
\<close>

record 's journalStore =
  stats_of :: "'s \<Rightarrow> Stats \<times> 's"
  ready_of :: "'s \<Rightarrow> store_error option \<times> 's"
  compact_of :: "'s \<Rightarrow> store_error option \<times> 's"
  prune_of :: "int \<Rightarrow> 's \<Rightarrow> (nat \<times> store_error option) \<times> 's"

record CompactorConfig =
  ThresholdBytes :: int
  CheckInterval :: int
  Retention :: int

record 's Compactor =
  store :: "'s journalStore"
  threshold :: int
  interval :: int
  retention :: int

definition DefaultThresholdBytes :: int where "DefaultThresholdBytes = push_bit 20 64"
definition DefaultCheckInterval :: int where "DefaultCheckInterval = 60 * 1000000000"
definition DefaultRetention :: int where "DefaultRetention = 7 * 24 * 3600 * 1000000000"

datatype event =
    Unhealthy store_error
  | CompactionFailed (failure: store_error) (reason: bytes) (duration_ms: int) (size_bytes: int) (records_then: "64 word")
  | Compacted (reason: bytes) (duration_ms: int) (size_before: int) (size_after: int) (size_reduced: int)
      (records_before: "64 word") (records_after: "64 word") (records_reduced: "64 word")
  | RetentionFailed store_error
  | Pruned nat int

record 's host =
  state :: 's
  clock :: "nat \<Rightarrow> int"
  ticks :: nat
  logged :: "event list"

definition emit :: "event \<Rightarrow> 's host \<Rightarrow> 's host" where
  "emit e h = h\<lparr>logged := logged h @ [e]\<rparr>"

definition time_now :: "'s host \<Rightarrow> int \<times> 's host" where
  "time_now h = (clock h (ticks h), h\<lparr>ticks := Suc (ticks h)\<rparr>)"

definition on_state :: "('s \<Rightarrow> 'r \<times> 's) \<Rightarrow> 's host \<Rightarrow> 'r \<times> 's host" where
  "on_state f h = (case f (state h) of (r, s) \<Rightarrow> (r, h\<lparr>state := s\<rparr>))"

text \<open>\<open>Duration.Milliseconds\<close> divides towards zero.\<close>

definition milliseconds :: "int \<Rightarrow> int" where
  "milliseconds d = sgn d * (\<bar>d\<bar> div 1000000)"

subsection \<open>Operations\<close>

definition newCompactor :: "'s journalStore \<Rightarrow> CompactorConfig \<Rightarrow> 's Compactor" where
  "newCompactor j config =
     \<lparr>store = j, threshold = ThresholdBytes config,
      interval = (if CheckInterval config \<le> 0 then DefaultCheckInterval else CheckInterval config),
      retention = Retention config\<rparr>"

definition reducedInt64 :: "int \<Rightarrow> int \<Rightarrow> int" where
  "reducedInt64 before after = (if before \<le> after then 0 else before - after)"

definition reducedUint64 :: "64 word \<Rightarrow> 64 word \<Rightarrow> 64 word" where
  "reducedUint64 before after = (if before \<le> after then 0 else before - after)"

definition compact :: "'s Compactor \<Rightarrow> bytes \<Rightarrow> int \<Rightarrow> 's host \<Rightarrow> store_error option \<times> 's host" where
  "compact c why started h =
     (case on_state (stats_of (store c)) h of (old, h1) \<Rightarrow>
        case on_state (compact_of (store c)) h1 of
          (Some e, h2) \<Rightarrow>
            (case time_now h2 of (t, h3) \<Rightarrow>
               (Some e, emit (CompactionFailed e why (milliseconds (t - started)) (JournalSizeBytes old) (JournalRecords old)) h3))
        | (None, h2) \<Rightarrow>
            (case on_state (stats_of (store c)) h2 of (new, h3) \<Rightarrow>
               case time_now h3 of (t, h4) \<Rightarrow>
                 (None, emit (Compacted why (milliseconds (t - started))
                    (JournalSizeBytes old) (JournalSizeBytes new) (reducedInt64 (JournalSizeBytes old) (JournalSizeBytes new))
                    (JournalRecords old) (JournalRecords new) (reducedUint64 (JournalRecords old) (JournalRecords new))) h4)))"

definition compactIfNeeded :: "'s Compactor \<Rightarrow> 's host \<Rightarrow> 's host" where
  "compactIfNeeded c h =
     (if threshold c \<le> 0 then h
      else case on_state (stats_of (store c)) h of (old, h1) \<Rightarrow>
        if JournalSizeBytes old < threshold c then h1
        else if JournalRecords old div 2 < LiveDeliveries old then h1
        else case time_now h1 of (started, h2) \<Rightarrow> snd (compact c ''redundancy'' started h2))"

definition maintain :: "'s Compactor \<Rightarrow> 's host \<Rightarrow> 's host" where
  "maintain c h =
     (case time_now h of (started, h1) \<Rightarrow>
        case on_state (ready_of (store c)) h1 of
          (Some e, h2) \<Rightarrow> snd (compact c ''persistence_repair'' started (emit (Unhealthy e) h2))
        | (None, h2) \<Rightarrow>
            (if 0 < retention c then
               (case on_state (prune_of (store c) (started - retention c)) h2 of
                  ((n, Some e), h3) \<Rightarrow> emit (RetentionFailed e) h3
                | ((n, None), h3) \<Rightarrow>
                    (if 0 < n then
                       (case compact c ''retention'' started h3 of
                          (Some e, h4) \<Rightarrow> h4
                        | (None, h4) \<Rightarrow> emit (Pruned n (retention c)) h4)
                     else compactIfNeeded c h3))
             else compactIfNeeded c h2))"

text \<open>
  \<open>run\<close> waits for the cancellation of the context or for a tick. The list holds what each
  \<open>select\<close> took; \<open>Start\<close> does not even start the loop when there is nothing to do.
\<close>

datatype signal = Tick | Cancelled

fun run :: "'s Compactor \<Rightarrow> signal list \<Rightarrow> 's host \<Rightarrow> 's host" where
  "run c [] h = h"
| "run c (Cancelled # _) h = h"
| "run c (Tick # ss) h = run c ss (maintain c h)"

definition Start :: "'s Compactor \<Rightarrow> signal list \<Rightarrow> 's host \<Rightarrow> 's host" where
  "Start c ss h = (if threshold c \<le> 0 \<and> retention c \<le> 0 then h else run c ss h)"

subsection \<open>The journal's contract\<close>

named_theorems host_simps \<open>the parts of a host after the small steps\<close>

lemma emit_simps [host_simps]:
  "state (emit e h) = state h" "clock (emit e h) = clock h" "ticks (emit e h) = ticks h"
  by (simp_all add: emit_def)

lemma time_now_cases:
  assumes "time_now h = (t, h')"
  shows "t = clock h (ticks h)" "state h' = state h" "clock h' = clock h" "ticks h' = Suc (ticks h)"
  using assms by (auto simp: time_now_def)

lemma on_state_cases:
  assumes "on_state f h = (r, h')"
  shows "f (state h) = (r, state h')" "clock h' = clock h" "ticks h' = ticks h" "logged h' = logged h"
  using assms by (auto simp: on_state_def split: prod.splits)

text \<open>
  What the client relies on: an invariant of the store's state, and the deliveries it
  holds, which only pruning changes, and only by removing what may be pruned.
\<close>

locale journal_contract =
  fixes j :: "'s journalStore"
    and inv :: "'s \<Rightarrow> bool"
    and live :: "'s \<Rightarrow> bytes \<Rightarrow> Delivery option"
  assumes stats: "inv s \<Longrightarrow> stats_of j s = (x, s') \<Longrightarrow> inv s' \<and> live s' = live s"
    and ready: "inv s \<Longrightarrow> ready_of j s = (r, s') \<Longrightarrow> inv s' \<and> live s' = live s"
    and compacts: "inv s \<Longrightarrow> compact_of j s = (r, s') \<Longrightarrow> inv s' \<and> live s' = live s"
    and prunes: "inv s \<Longrightarrow> prune_of j t s = (nr, s') \<Longrightarrow> inv s' \<and>
      (\<forall>i. live s' i = live s i \<or> live s' i = None \<and> (\<exists>d. live s i = Some d \<and> prunable t d))"
begin

text \<open>The hosts that maintenance may reach: only prunable deliveries have gone, at some reading of the clock.\<close>

definition thinned :: "int \<Rightarrow> 's host \<Rightarrow> 's host \<Rightarrow> bool" where
  "thinned keep h h' \<longleftrightarrow>
     inv (state h') \<and> clock h' = clock h \<and> ticks h \<le> ticks h' \<and>
     (\<forall>i. live (state h') i = live (state h) i \<or>
        live (state h') i = None \<and>
        (\<exists>d k. live (state h) i = Some d \<and> 0 < keep \<and> ticks h \<le> k \<and> k < ticks h' \<and> prunable (clock h k - keep) d))"

lemma thinned_same:
  assumes "inv (state h')" "live (state h') = live (state h)" "clock h' = clock h" "ticks h \<le> ticks h'"
  shows "thinned keep h h'"
  using assms by (simp add: thinned_def)

lemma thinned_trans:
  assumes "thinned keep h h1" "thinned keep h1 h2"
  shows "thinned keep h h2"
proof -
  have "live (state h2) i = live (state h) i \<or> live (state h2) i = None \<and>
      (\<exists>d k. live (state h) i = Some d \<and> 0 < keep \<and> ticks h \<le> k \<and> k < ticks h2 \<and> prunable (clock h k - keep) d)" for i
  proof -
    have "live (state h1) i = live (state h) i \<or> live (state h1) i = None \<and>
        (\<exists>d k. live (state h) i = Some d \<and> 0 < keep \<and> ticks h \<le> k \<and> k < ticks h1 \<and> prunable (clock h k - keep) d)"
      using assms(1) by (simp add: thinned_def)
    then consider "live (state h1) i = live (state h) i"
      | d k where "live (state h1) i = None" "live (state h) i = Some d" "0 < keep" "ticks h \<le> k" "k < ticks h1"
        "prunable (clock h k - keep) d"
      by blast
    then show ?thesis
    proof cases
      case 1
      then show ?thesis
        using assms unfolding thinned_def by (metis le_trans)
    next
      case (2 d k)
      then show ?thesis
        using assms unfolding thinned_def by (metis less_le_trans option.distinct(1))
    qed
  qed
  then show ?thesis
    using assms by (simp add: thinned_def)
qed

lemma compact_thinned:
  assumes "inv (state h)" "store c = j" "compact c why started h = (r, h')"
  shows "inv (state h') \<and> live (state h') = live (state h) \<and> clock h' = clock h \<and> ticks h \<le> ticks h'"
proof -
  obtain x h1 where 1: "on_state (stats_of j) h = (x, h1)"
    by (cases "on_state (stats_of j) h")
  obtain y h2 where 2: "on_state (compact_of j) h1 = (y, h2)"
    by (cases "on_state (compact_of j) h1")
  obtain z h3 where 3: "on_state (stats_of j) h2 = (z, h3)"
    by (cases "on_state (stats_of j) h2")
  note s = stats [OF assms(1) on_state_cases(1) [OF 1]]
  note k = compacts [OF conjunct1 [OF s] on_state_cases(1) [OF 2]]
  note t = stats [OF conjunct1 [OF k] on_state_cases(1) [OF 3]]
  have "state h' = state (if y = None then h3 else h2)" "clock h' = clock (if y = None then h3 else h2)"
    "ticks h' = Suc (ticks (if y = None then h3 else h2))"
    using assms(2,3) 1 2 3 by (cases y; auto simp: compact_def time_now_def emit_def)+
  then show ?thesis
    using s k t on_state_cases [OF 1] on_state_cases [OF 2] on_state_cases [OF 3] by (cases "y = None") simp_all
qed

lemma compactIfNeeded_thinned:
  assumes "inv (state h)" "store c = j"
  shows "inv (state (compactIfNeeded c h)) \<and> live (state (compactIfNeeded c h)) = live (state h) \<and>
    clock (compactIfNeeded c h) = clock h \<and> ticks h \<le> ticks (compactIfNeeded c h)"
proof -
  obtain x h1 where 1: "on_state (stats_of j) h = (x, h1)"
    by (cases "on_state (stats_of j) h")
  note s = stats [OF assms(1) on_state_cases(1) [OF 1]] on_state_cases [OF 1]
  obtain t h2 where t: "time_now h1 = (t, h2)"
    by (cases "time_now h1")
  note tt = time_now_cases [OF t]
  obtain r h3 where r: "compact c ''redundancy'' t h2 = (r, h3)"
    by (cases "compact c ''redundancy'' t h2")
  have "inv (state h2)"
    using s tt by simp
  note k = compact_thinned [OF this assms(2) r]
  show ?thesis
    using assms(1) s k tt 1 t r by (simp add: compactIfNeeded_def assms(2))
qed

lemma maintain_thinned:
  assumes "inv (state h)" "store c = j"
  shows "thinned (retention c) h (maintain c h)"
proof -
  obtain started h1 where t: "time_now h = (started, h1)"
    by (cases "time_now h")
  note tt = time_now_cases [OF t]
  obtain r h2 where r: "on_state (ready_of j) h1 = (r, h2)"
    by (cases "on_state (ready_of j) h1")
  have "inv (state h1)"
    using assms(1) tt by simp
  note rr = ready [OF this on_state_cases(1) [OF r]] on_state_cases(2,3) [OF r]
  have i2: "inv (state h2)" "live (state h2) = live (state h)" "clock h2 = clock h" "ticks h2 = Suc (ticks h)"
    using rr tt by simp_all
  show ?thesis
  proof (cases r)
    case (Some e)
    obtain q h3 where q: "compact c ''persistence_repair'' started (emit (Unhealthy e) h2) = (q, h3)"
      by (cases "compact c ''persistence_repair'' started (emit (Unhealthy e) h2)")
    have "inv (state (emit (Unhealthy e) h2))"
      using i2 by (simp add: host_simps)
    from compact_thinned [OF this assms(2) q] have "thinned (retention c) h h3"
      using i2 by (intro thinned_same) (simp_all add: host_simps)
    then show ?thesis
      using t r q Some assms(2) by (simp add: maintain_def)
  next
    case None
    show ?thesis
    proof (cases "0 < retention c")
      case False
      then have "maintain c h = compactIfNeeded c h2"
        using t r None assms(2) by (simp add: maintain_def)
      then show ?thesis
        using compactIfNeeded_thinned [OF i2(1) assms(2)] i2 by (intro thinned_same) simp_all
    next
      case True
      obtain n b h3 where p: "on_state (prune_of j (started - retention c)) h2 = ((n, b), h3)"
        by (metis prod.exhaust)
      note pp = prunes [OF i2(1) on_state_cases(1) [OF p]] on_state_cases(2,3) [OF p]
      have 3: "thinned (retention c) h h3"
        using pp i2 tt True unfolding thinned_def by fastforce
      obtain q h4 where q: "compact c ''retention'' started h3 = (q, h4)"
        by (cases "compact c ''retention'' started h3")
      note qq = compact_thinned [OF conjunct1 [OF pp(1)] assms(2) q]
      note ii = compactIfNeeded_thinned [OF conjunct1 [OF pp(1)] assms(2)]
      have e: "thinned (retention c) h (emit ev g) = thinned (retention c) h g" for ev g
        by (simp add: thinned_def host_simps)
      have "thinned (retention c) h h4" "thinned (retention c) h (compactIfNeeded c h3)"
        using 3 thinned_same qq ii by (meson thinned_trans)+
      then show ?thesis
        using 3 t r p q None True assms(2) by (cases b; cases q) (auto simp: maintain_def e)
    qed
  qed
qed

lemma Start_thinned:
  assumes "inv (state h)" "store c = j"
  shows "thinned (retention c) h (Start c ss h)"
proof -
  have "thinned (retention c) h (run c ss h)"
    using assms(1)
  proof (induction ss arbitrary: h)
    case (Cons a ss)
    show ?case
    proof (cases a)
      case Tick
      have m: "thinned (retention c) h (maintain c h)"
        by (rule maintain_thinned [OF Cons.prems assms(2)])
      then have "inv (state (maintain c h))"
        by (simp add: thinned_def)
      from thinned_trans [OF m Cons.IH [OF this]] show ?thesis
        by (simp add: Tick)
    qed (simp add: thinned_def Cons.prems)
  qed (simp add: thinned_def)
  then show ?thesis
    using assms(1) by (simp add: Start_def thinned_def)
qed

end

text \<open>
  A second promise, which keeps maintenance from compacting over and over: after a
  compaction there is one record for each delivery, and no byte if there is none.
  \<open>count\<close> is the number of records and of deliveries.
\<close>

locale settling_journal = journal_contract j inv live
  for j :: "'s journalStore" and inv live +
  fixes count :: "'s \<Rightarrow> 64 word \<times> 64 word"
    and bare :: "'s \<Rightarrow> bool"
  assumes counted: "inv s \<Longrightarrow> stats_of j s = (x, s') \<Longrightarrow>
      count s = (JournalRecords x, LiveDeliveries x) \<and> count s' = count s"
    and settles: "inv s \<Longrightarrow> compact_of j s = (None, s') \<Longrightarrow>
      count s' = (snd (count s), snd (count s)) \<and> (snd (count s) = 0 \<longrightarrow> bare s')"
    and empty_file: "bare s \<Longrightarrow> stats_of j s = (x, s') \<Longrightarrow> JournalSizeBytes x = 0 \<and> bare s'"
begin

lemma half_smaller: "n \<noteq> 0 \<Longrightarrow> n div 2 < (n :: 64 word)"
  using unat_gt_0 [of n] by (simp add: word_less_nat_alt unat_div)

lemma half_bound: "b \<le> a div 2 \<Longrightarrow> 2 * unat b \<le> unat (a :: 64 word)"
  by (auto simp: word_le_nat_alt unat_div)

text \<open>What a successful compaction logs, and that \<open>compactIfNeeded\<close> has nothing to do after it.\<close>

lemma compact_counts:
  assumes "inv (state h)" "store c = j" "compact c why started h = (None, h')"
  shows "\<exists>d sb sa sr rr. logged h' = logged h @ [Compacted why d sb sa sr (fst (count (state h))) (snd (count (state h))) rr]"
    "fst (count (state h')) = snd (count (state h'))" "snd (count (state h')) = 0 \<Longrightarrow> bare (state h')"
    "inv (state h')"
proof -
  obtain x h1 where 1: "on_state (stats_of j) h = (x, h1)"
    by (cases "on_state (stats_of j) h")
  obtain h2 where 2: "on_state (compact_of j) h1 = (None, h2)"
    using assms(2,3) 1 by (cases "on_state (compact_of j) h1") (auto simp: compact_def split: option.splits prod.splits)
  obtain z h3 where 3: "on_state (stats_of j) h2 = (z, h3)"
    by (cases "on_state (stats_of j) h2")
  note o = on_state_cases [OF 1] on_state_cases [OF 2] on_state_cases [OF 3]
  note s = stats [OF assms(1) o(1)] counted [OF assms(1) o(1)]
  note k = compacts [OF conjunct1 [OF s(1)] o(5)] settles [OF conjunct1 [OF s(1)] o(5)]
  note t = stats [OF conjunct1 [OF k(1)] o(9)] counted [OF conjunct1 [OF k(1)] o(9)] empty_file [OF _ o(9)]
  have h': "logged h' = logged h @ [Compacted why (milliseconds (clock h3 (ticks h3) - started))
      (JournalSizeBytes x) (JournalSizeBytes z) (reducedInt64 (JournalSizeBytes x) (JournalSizeBytes z))
      (JournalRecords x) (JournalRecords z) (reducedUint64 (JournalRecords x) (JournalRecords z))]"
    "state h' = state h3"
    using assms(2,3) 1 2 3 o by (auto simp: compact_def time_now_def emit_def)
  have c: "JournalRecords x = fst (count (state h))" "JournalRecords z = snd (count (state h))"
    using s k t by (metis fst_conv snd_conv)+
  show "\<exists>d sb sa sr rr. logged h' = logged h @ [Compacted why d sb sa sr (fst (count (state h))) (snd (count (state h))) rr]"
    using h'(1) unfolding c by blast
  show "fst (count (state h')) = snd (count (state h'))" "snd (count (state h')) = 0 \<Longrightarrow> bare (state h')" "inv (state h')"
    using s k t h'(2) by auto
qed

lemma no_second_compaction:
  assumes "inv (state h)" "store c = j" "compact c why started h = (None, h')"
  shows "compactIfNeeded c h' = (if threshold c \<le> 0 then h' else h'\<lparr>state := snd (stats_of j (state h'))\<rparr>)"
proof -
  obtain x s where x: "stats_of j (state h') = (x, s)"
    by (cases "stats_of j (state h')")
  note k = compact_counts [OF assms]
  have "JournalRecords x = LiveDeliveries x" "LiveDeliveries x = 0 \<Longrightarrow> JournalSizeBytes x = 0"
    using k counted [OF k(4) x] empty_file [OF _ x] by auto
  then show ?thesis
    using x half_smaller [of "LiveDeliveries x"]
    by (cases "LiveDeliveries x = 0") (auto simp: compactIfNeeded_def on_state_def assms(2))
qed

text \<open>A compaction for redundancy pays: it at least halves the number of records.\<close>

lemma compaction_halves:
  assumes "inv (state h)" "store c = j"
    "logged (compactIfNeeded c h) = logged h @ [Compacted why d sb sa sr before after rr]"
  shows "2 * unat after \<le> unat before \<and> threshold c > 0"
proof -
  obtain x h1 where 1: "on_state (stats_of j) h = (x, h1)"
    by (cases "on_state (stats_of j) h")
  note o = on_state_cases [OF 1]
  note s = stats [OF assms(1) o(1)] counted [OF assms(1) o(1)]
  obtain t h2 where t: "time_now h1 = (t, h2)"
    by (cases "time_now h1")
  note tt = time_now_cases [OF t]
  have l2: "logged h2 = logged h"
    using t o(4) by (auto simp: time_now_def)
  obtain r h3 where r: "compact c ''redundancy'' t h2 = (r, h3)"
    by (cases "compact c ''redundancy'' t h2")
  have go: "0 < threshold c" "LiveDeliveries x \<le> JournalRecords x div 2" "compactIfNeeded c h = h3"
    using assms(2,3) 1 t r o(4) by (auto simp: compactIfNeeded_def split: if_splits)
  have i2: "inv (state h2)" "count (state h2) = count (state h)"
    using s tt by simp_all
  show ?thesis
  proof (cases r)
    case None
    from compact_counts(1) [OF i2(1) assms(2) r [unfolded None]]
    have "before = fst (count (state h))" "after = snd (count (state h))"
      using assms(3) go(3) l2 i2(2) by auto
    then show ?thesis
      using go half_bound [OF go(2)] s(2) by simp
  next
    case (Some e)
    have "\<exists>a b d m. logged h3 = logged h @ [CompactionFailed e a b d m]"
      using r Some l2
      by (fastforce simp: compact_def time_now_def emit_def on_state_def split: prod.splits option.splits)
    then show ?thesis
      using assms(3) go(3) by auto
  qed
qed

end

subsection \<open>The store keeps the contract\<close>

definition storeJournal :: "(Store \<times> world) journalStore" where
  "storeJournal =
     \<lparr>stats_of = (\<lambda>(s, w). case StatsOf s w of (x, w') \<Rightarrow> (x, (s, w'))),
      ready_of = (\<lambda>(s, w). case Ready s w of (e, w') \<Rightarrow> (e, (s, w'))),
      compact_of = (\<lambda>(s, w). Compact s w),
      prune_of = (\<lambda>t (s, w). PruneTerminal t s w)\<rparr>"

definition journal_inv :: "Store \<times> world \<Rightarrow> bool" where
  "journal_inv x \<longleftrightarrow> durable (fst x) (snd x) \<and> deliveries_ok (fst x) \<and> length (items (fst x)) < 2 ^ 64"

definition stored_of :: "Store \<times> world \<Rightarrow> bytes \<Rightarrow> Delivery option" where
  "stored_of x = map_of (items (fst x))"

definition journal_count :: "Store \<times> world \<Rightarrow> 64 word \<times> 64 word" where
  "journal_count x = (records (fst x), word_of_nat (length (items (fst x))))"

definition journal_bare :: "Store \<times> world \<Rightarrow> bool" where
  "journal_bare x \<longleftrightarrow> (\<forall>f. journalFile (fst x) = Some f \<longrightarrow> file_data f (snd x) = [])"

lemma Stats_frame:
  assumes "StatsOf s w = (x, w')"
  shows "same_place w w'" "inodes w' = inodes w"
    "JournalRecords x = records s" "LiveDeliveries x = word_of_nat (length (items s))"
    "journal_bare (s, w) \<Longrightarrow> JournalSizeBytes x = 0"
proof -
  obtain ok w1 where a: "attempt w = (ok, w1)"
    by (cases "attempt w")
  note f = attempt_frame [OF a]
  show "same_place w w'" "inodes w' = inodes w" "JournalRecords x = records s"
    "LiveDeliveries x = word_of_nat (length (items s))" "journal_bare (s, w) \<Longrightarrow> JournalSizeBytes x = 0"
    using assms a f by (auto simp: StatsOf_def os_stat_def journal_bare_def file_data_def split: option.splits if_splits)
qed

lemma Ready_frame:
  assumes "Ready s w = (r, w')"
  shows "same_place w w'" "inodes w' = inodes w"
proof -
  obtain ok w1 where a: "attempt w = (ok, w1)"
    by (cases "attempt w")
  show "same_place w w'" "inodes w' = inodes w"
    using assms a attempt_frame [OF a] by (auto simp: Ready_def os_stat_def split: option.splits if_splits)
qed

lemma journal_inv_same: "journal_inv (s, w) \<Longrightarrow> same_place w w' \<Longrightarrow> inodes w' = inodes w \<Longrightarrow> journal_inv (s, w')"
  by (auto simp: journal_inv_def intro: durable_same)

lemma file_data_cong: "inodes w' = inodes w \<Longrightarrow> file_data f w' = file_data f w"
  by (simp add: file_data_def)

text \<open>What a successful compaction leaves: one record for each delivery, and a file of just these.\<close>

lemma Compact_success:
  assumes "Compact s w = (None, s', w')"
  shows "records s' = word_of_nat (length (items s))" "items s = [] \<Longrightarrow> journal_bare (s', w')"
proof -
  obtain name f w1 where t: "os_create_temp (compactionPrefix (base w)) w = (Some (name, f), w1)"
    using assms by (auto simp: Compact_def compact_body_def split: option.splits prod.splits if_splits)
  obtain r w2 where c: "compact_write f s w1 = (r, w2)"
    by (cases "compact_write f s w1")
  have r: "r = None"
    using assms t c
    by (cases r) (auto simp: Compact_def compact_body_def compact_cleanup_def Let_def split: option.splits prod.splits if_splits)
  obtain ok w3 where n: "os_rename name f w2 = (ok, w3)"
    by (cases "os_rename name f w2")
  have ok: "ok" "compact_adopt f (word_of_nat (length (items s))) s w3 = (None, s', w')"
    using assms t c r n
    by (auto simp: Compact_def compact_body_def compact_cleanup_def Let_def split: option.splits prod.splits if_splits)
  have s': "records s' = word_of_nat (length (items s))" "journalFile s' = Some f"
    using ok(2) by (auto simp: compact_adopt_def adoptCompactedLocked_def Let_def split: option.splits prod.splits if_splits)
  then show "records s' = word_of_nat (length (items s))"
    by simp
  obtain b w4 where a: "attempt w2 = (b, w4)"
    by (cases "attempt w2")
  have "inodes w3 = inodes w2"
    using n a attempt_frame [OF a] by (auto simp: os_rename_def split: if_splits)
  moreover have "inodes w' = inodes w3"
    using compact_adopt_world [OF ok(2)] by simp
  moreover have "on_disk f (journal.log (snapshot_entries s)) (length (journal.log (snapshot_entries s))) w2"
    using compact_write_effect(4) [OF c create_temp_effect(4) [OF t]] r by simp
  ultimately have "file_data f w' = journal.log (snapshot_entries s)"
    by (simp add: file_data_def on_disk_def)
  moreover have "journal.log (snapshot_entries s) = []" if "items s = []"
    using that by (simp add: snapshot_entries_def snapshot_def gokeys_def sort_strings_def)
  ultimately show "items s = [] \<Longrightarrow> journal_bare (s', w')"
    using s' by (simp add: journal_bare_def)
qed

lemma length_delete: "length (AList.delete k m) \<le> length m"
  by (simp add: AList.delete_eq)

lemma length_fold_delete: "length (items (fold deleteLocked ids s)) \<le> length (items s)"
proof (induction ids arbitrary: s)
  case (Cons i ids)
  have "length (items (deleteLocked i s)) \<le> length (items s)"
    by (auto simp: deleteLocked_def Let_def length_delete split: option.split)
  then show ?case
    using Cons.IH [of "deleteLocked i s"] by simp
qed simp

lemma Prune_items:
  assumes "tables_ok s" "PruneTerminal before s w = ((n, r), s', w')"
  shows "map_of (items s') i =
    (case map_of (items s) i of
       None \<Rightarrow> None
     | Some d \<Rightarrow> if r = None \<and> prunable before d then None else Some d)"
    "length (items s') \<le> length (items s)"
proof -
  note ids = prune_ids_facts(2) [OF assms(1), where before = before and i = i]
  have "items s' = items s \<and> (prune_ids before s = [] \<or> r \<noteq> None) \<or>
      r = None \<and> items s' = items (fold deleteLocked (prune_ids before s) (view s))"
    using assms(2)
  proof (cases rule: Prune_cases)
    case (failed e)
    then have "items s' = items s"
      using appendData_frame(1) items_cong(1) by blast
    then show ?thesis
      using failed by simp
  next
    case (pruned s1)
    then show ?thesis
      by (metis view_simps(1))
  qed simp
  moreover have "length (items (fold deleteLocked (prune_ids before s) (view s))) \<le> length (items s)"
    using length_fold_delete [of _ "view s"] by simp
  ultimately show "map_of (items s') i =
      (case map_of (items s) i of None \<Rightarrow> None | Some d \<Rightarrow> if r = None \<and> prunable before d then None else Some d)"
    "length (items s') \<le> length (items s)"
    using ids by (auto simp: items_fold_delete split: option.split)
qed

interpretation store_journal: journal_contract storeJournal journal_inv stored_of
proof
  fix x :: "Store \<times> world" and y x'
  assume i: "journal_inv x" and e: "stats_of storeJournal x = (y, x')"
  then show "journal_inv x' \<and> stored_of x' = stored_of x"
    by (cases x) (auto simp: storeJournal_def stored_of_def split: prod.splits intro: journal_inv_same dest: Stats_frame)
next
  fix x :: "Store \<times> world" and y x'
  assume i: "journal_inv x" and e: "ready_of storeJournal x = (y, x')"
  then show "journal_inv x' \<and> stored_of x' = stored_of x"
    by (cases x) (auto simp: storeJournal_def stored_of_def split: prod.splits intro: journal_inv_same dest: Ready_frame)
next
  fix x :: "Store \<times> world" and y x'
  assume i: "journal_inv x" and e: "compact_of storeJournal x = (y, x')"
  then have c: "Compact (fst x) (snd x) = (y, fst x', snd x')"
    by (cases x) (auto simp: storeJournal_def)
  note v = Compact_view(1) [OF c]
  show "journal_inv x' \<and> stored_of x' = stored_of x"
    using i durable_Compact [OF _ c] v items_cong(1) [OF v] deliveries_ok_view [of "fst x"] deliveries_ok_view [of "fst x'"]
    by (simp add: journal_inv_def stored_of_def)
next
  fix t and x :: "Store \<times> world" and nr x'
  assume i: "journal_inv x" and e: "prune_of storeJournal t x = (nr, x')"
  then have p: "PruneTerminal t (fst x) (snd x) = ((fst nr, snd nr), fst x', snd x')"
    by (cases x) (auto simp: storeJournal_def)
  have d: "durable (fst x) (snd x)" "deliveries_ok (fst x)" "tables_ok (fst x)"
    using i durable_def by (auto simp: journal_inv_def)
  note items = Prune_items [OF d(3) p]
  have "deliveries_ok (fst x')"
    using steps_deliveries_ok [OF Prune_steps [OF p d(3)]] d(2) by (simp add: deliveries_ok_view)
  then show "journal_inv x' \<and> (\<forall>i. stored_of x' i = stored_of x i \<or>
      stored_of x' i = None \<and> (\<exists>d. stored_of x i = Some d \<and> prunable t d))"
    using i items durable_Prune [OF d(1) p] by (auto simp: journal_inv_def stored_of_def split: option.split)
qed

interpretation store_journal: settling_journal storeJournal journal_inv stored_of journal_count journal_bare
proof
  fix x :: "Store \<times> world" and y x'
  assume "stats_of storeJournal x = (y, x')"
  then show "journal_count x = (JournalRecords y, LiveDeliveries y) \<and> journal_count x' = journal_count x"
    by (cases x) (auto simp: storeJournal_def journal_count_def split: prod.splits dest: Stats_frame)
next
  fix x :: "Store \<times> world" and y x'
  assume b: "journal_bare x" and e: "stats_of storeJournal x = (y, x')"
  then have s: "StatsOf (fst x) (snd x) = (y, snd x')" "fst x' = fst x"
    by (auto simp: storeJournal_def split: prod.splits)
  then show "JournalSizeBytes y = 0 \<and> journal_bare x'"
    using Stats_frame(5) [OF s(1)] file_data_cong [OF Stats_frame(2) [OF s(1)]] b by (simp add: journal_bare_def)
next
  fix x :: "Store \<times> world" and x'
  assume i: "journal_inv x" and e: "compact_of storeJournal x = (None, x')"
  then have c: "Compact (fst x) (snd x) = (None, fst x', snd x')"
    by (cases x) (auto simp: storeJournal_def)
  have "items (fst x) = []" if z: "(word_of_nat (length (items (fst x))) :: 64 word) = 0"
  proof -
    have "unat (word_of_nat (length (items (fst x))) :: 64 word) = length (items (fst x))"
      using i by (simp add: journal_inv_def unat_of_nat)
    then show ?thesis
      using z by simp
  qed
  then show "journal_count x' = (snd (journal_count x), snd (journal_count x)) \<and>
      (snd (journal_count x) = 0 \<longrightarrow> journal_bare x')"
    using Compact_success [OF c] items_cong(1) [OF Compact_view(1) [OF c]] by (simp add: journal_count_def)
qed

subsection \<open>Repair\<close>

lemma maintain_unready:
  assumes "ready_of (store c) (state h) = (Some e, x)"
  shows "maintain c h = snd (compact c ''persistence_repair'' (clock h (ticks h))
    (emit (Unhealthy e) (h\<lparr>ticks := Suc (ticks h), state := x\<rparr>)))"
  using assms by (simp add: maintain_def time_now_def on_state_def)

lemma Stats_clean: "faults w = [] \<Longrightarrow> snd (StatsOf s w) = w"
  by (simp add: StatsOf_def os_stat_def split: option.split)

lemma compact_state:
  assumes "store c = storeJournal" "state h = (s, w)" "faults w = []" "Compact s w = (None, s', w')" "faults w' = []"
  shows "state (snd (compact c why started h)) = (s', w')" "fst (compact c why started h) = None"
  using assms Stats_clean [of w s] Stats_clean [of w' s']
  by (cases "StatsOf s w"; cases "StatsOf s' w'";
      simp add: compact_def on_state_def storeJournal_def time_now_def emit_def)+

subsection \<open>Properties\<close>

definition example_host :: "(Store \<times> world) host" where
  "example_host = \<lparr>state = (example_s1, example_w1), clock = (\<lambda>_. 100), ticks = 0, logged = []\<rparr>"

definition example_compactor :: "(Store \<times> world) Compactor" where
  "example_compactor = newCompactor storeJournal \<lparr>ThresholdBytes = 1, CheckInterval = 0, Retention = 10\<rparr>"

lemma example_journal_inv: "journal_inv (example_s1, example_w1)"
  using history_ok [OF example_history(2)] by (simp add: journal_inv_def example_s1_simps)

lemma example_settings:
  "journal_inv (state example_host)" "store example_compactor = storeJournal"
  using example_journal_inv by (simp_all add: example_host_def example_compactor_def newCompactor_def)

text \<open>
  C27. Maintenance only ever removes what retention allows. Whatever ticks the compactor sees, whatever
  the outcomes of its system calls and whichever branch each pass takes, the store stays sound and
  durable, and a delivery is either unchanged or it is gone, was terminal, and had been updated last
  at least the retention before the time some pass read.
\<close>

theorem maintenance_only_expires:
  assumes "journal_inv (state h)" "store c = storeJournal"
  shows "journal_inv (state (Start c ss h)) \<and>
    (\<forall>i. stored_of (state (Start c ss h)) i = stored_of (state h) i \<or>
       stored_of (state (Start c ss h)) i = None \<and>
       (\<exists>d k. stored_of (state h) i = Some d \<and> 0 < retention c \<and> terminal_status (Status d) \<and>
          UpdatedAt d \<le> clock h k - retention c))"
  using store_journal.Start_thinned [OF assms, of ss]
  unfolding store_journal.thinned_def prunable_def by (meson not_less)

theorem maintenance_only_expires_witness:
  "stored_of (state (Start example_compactor [Tick, Tick, Cancelled] example_host)) example_id = Some example_delivery"
proof -
  have d: "stored_of (state example_host) example_id = Some example_delivery"
    by (simp add: example_host_def stored_of_def example_s1_simps example_Clone)
  have "\<not> terminal_status (Status example_delivery)"
    by (simp add: terminal_status_def example_delivery_def status_simps)
  then show ?thesis
    using d maintenance_only_expires [OF example_settings] by (metis option.inject)
qed

text \<open>
  A pass over an unhealthy journal repairs it: if the system calls succeed again, one \<open>maintain\<close>
  compacts instead of pruning, clears the error, keeps every delivery and leaves a durable store.
\<close>

theorem maintenance_repairs:
  assumes "state h = (s, w)" "store c = storeJournal" "persistenceErr s = Some e" "durable s w" "faults w = []"
    "journalFile s = Some f" "compactionHook s = (\<lambda>_. False)"
    "\<forall>x \<in> set (snapshot s). marshalRecord (fst (snd x)) (snd (snd x)) \<noteq> None"
  shows "\<exists>s' w'. state (maintain c h) = (s', w') \<and> persistenceErr s' = None \<and> view s' = view s \<and> durable s' w' \<and>
    fst (Ready s' w') = None"
proof -
  obtain s' w' where c: "Compact s w = (None, s', w')" "persistenceErr s' = None" "journalFile s' \<noteq> None"
    "view s' = view s" "faults w' = []"
    using assms(5-8) by (rule Compact_clean)
  have "ready_of (store c) (state h) = (Some e, state h)"
    using assms(1-3) by (simp add: storeJournal_def Ready_blocked)
  then have "state (maintain c h) = (s', w')"
    using assms(1,2,5) c(1,5) by (subst maintain_unready) (auto intro!: compact_state(1) simp: host_simps)
  moreover have "fst (Ready s' w') = None"
    using c by (auto simp: Ready_def os_stat_def)
  ultimately show ?thesis
    using c durable_Compact [OF assms(4) c(1)] by blast
qed

lemma example_marshal_snapshot:
  "\<forall>x \<in> set (snapshot example_s1). marshalRecord (fst (snd x)) (snd (snd x)) \<noteq> None"
proof -
  have "marshalRecord example_delivery example_hash \<noteq> None"
    using small_times example_storable(1) by (intro marshal_defined) (simp_all add: storable_def example_delivery_def zero_time_def)
  then show ?thesis
    by (simp add: snapshot_def example_s1_simps gokeys_def sort_strings_def lookup_or_def example_Clone)
qed

lemma example_hook: "compactionHook example_s1 = (\<lambda>_. False)"
  by (simp add: example_s1_def example_s0_def new_store_def setLocked_def Let_def)

definition example_unhealthy :: Store where
  "example_unhealthy = example_s1\<lparr>persistenceErr := Some (ErrPersistence [SyncJournal])\<rparr>"

lemma example_unhealthy_durable: "durable example_unhealthy example_w1"
proof -
  have "durable example_s1 example_w1"
    using history_ok [OF example_history(2)] by simp
  then show ?thesis
    by (rule durable_same) (simp_all add: example_unhealthy_def)
qed

theorem maintenance_repairs_witness:
  "persistenceErr (fst (state (maintain example_compactor (example_host\<lparr>state := (example_unhealthy, example_w1)\<rparr>)))) = None"
proof -
  have "snapshot example_unhealthy = snapshot example_s1"
    by (simp add: snapshot_def example_unhealthy_def)
  then show ?thesis
    using maintenance_repairs [of "example_host\<lparr>state := (example_unhealthy, example_w1)\<rparr>" example_unhealthy example_w1
        example_compactor "ErrPersistence [SyncJournal]" 0]
      example_unhealthy_durable example_Create(2) example_s1_simps example_hook example_marshal_snapshot
    by (auto simp: example_unhealthy_def example_compactor_def newCompactor_def)
qed

text \<open>
  C28. Compaction for size settles and pays. A pass over a sound journal that logs a compaction has at
  least halved the number of records; and once a compaction has succeeded, the next check of the size
  compacts nothing and logs nothing, whatever the threshold (it only reads the statistics).
\<close>

theorem compaction_settles:
  assumes "journal_inv (state h)" "store c = storeJournal"
  shows "(logged (compactIfNeeded c h) = logged h @ [Compacted why d sb sa sr before after rr] \<longrightarrow>
      2 * unat after \<le> unat before \<and> 0 < threshold c) \<and>
    (compact c why' started h = (None, h') \<longrightarrow>
      compactIfNeeded c h' = h' \<or> compactIfNeeded c h' = h'\<lparr>state := snd (stats_of storeJournal (state h'))\<rparr>)"
  using store_journal.compaction_halves [OF assms] store_journal.no_second_compaction [OF assms] by simp

theorem compaction_settles_witness:
  "compactIfNeeded example_compactor (snd (compact example_compactor ''manual'' 90 example_host)) =
     (snd (compact example_compactor ''manual'' 90 example_host))
       \<lparr>state := snd (stats_of storeJournal (state (snd (compact example_compactor ''manual'' 90 example_host))))\<rparr> \<or>
   compactIfNeeded example_compactor (snd (compact example_compactor ''manual'' 90 example_host)) =
     snd (compact example_compactor ''manual'' 90 example_host)"
proof -
  obtain s' w' where c: "Compact example_s1 example_w1 = (None, s', w')" "faults w' = []"
    using example_Create(2) example_s1_simps example_hook example_marshal_snapshot by (metis Compact_clean)
  have "fst (compact example_compactor ''manual'' 90 example_host) = None"
    by (rule compact_state(2) [OF _ _ example_Create(2) c])
      (simp_all add: example_compactor_def newCompactor_def example_host_def)
  then have "compact example_compactor ''manual'' 90 example_host =
      (None, snd (compact example_compactor ''manual'' 90 example_host))"
    by (simp add: prod_eq_iff)
  then show ?thesis
    using compaction_settles [OF example_settings] by blast
qed

end
