(* ===== verification/Backoff.thy ===== *)
theory Backoff
  imports GoText Complex_Main "HOL-Library.Word" "HOL-Library.Signed_Division"
begin

section \<open>Retry delays: \<open>Backoff\<close> of \<open>internal/worker\<close>\<close>

text \<open>
  The delay before the next attempt: the base doubled once for each attempt, up to the
  maximum, times a factor between 0.8 and 1.2 that a hash of the delivery and the
  attempt chooses. The factor is a \<open>float64\<close>; its arithmetic is modelled exactly: a float is a
  fraction of integers, and each operation is the exact one followed by rounding to 53
  bits, half to even. (The values here are far from the limits of the exponent.)
\<close>

unbundle bit_operations_syntax

subsection \<open>\<open>float64\<close>\<close>

type_synonym float64 = "int \<times> int"

definition half_even :: "int \<Rightarrow> int \<Rightarrow> int" where
  "half_even p q =
     (let m = p div q; r = p mod q in if q < 2 * r \<or> q = 2 * r \<and> odd m then m + 1 else m)"

text \<open>Scale a positive fraction until its integer part has 53 bits.\<close>

function scale_up :: "int \<Rightarrow> int \<Rightarrow> nat \<Rightarrow> int \<times> nat" where
  "scale_up p q k = (if 0 < p \<and> p < 2 ^ 52 * q then scale_up (2 * p) q (Suc k) else (p, k))"
  by auto

termination
  by (relation "measure (\<lambda>(p, q, k). nat (2 ^ 52 * q - p))") auto

function scale_down :: "int \<Rightarrow> int \<Rightarrow> nat \<Rightarrow> int \<times> nat" where
  "scale_down p q k = (if 0 < q \<and> 2 ^ 53 * q \<le> p then scale_down p (2 * q) (Suc k) else (q, k))"
  by auto

termination
  by (relation "measure (\<lambda>(p, q, k). nat (p - q))") auto

declare scale_up.simps [simp del] scale_down.simps [simp del]

definition round64 :: "float64 \<Rightarrow> float64" where
  "round64 x =
     (case x of (p, q) \<Rightarrow>
        if p = 0 then (0, 1)
        else case scale_up \<bar>p\<bar> q 0 of (p', k) \<Rightarrow>
          case scale_down p' q 0 of (q', l) \<Rightarrow>
            (sgn p * half_even p' q' * 2 ^ l, 2 ^ k))"

definition float_of_int :: "int \<Rightarrow> float64" where
  "float_of_int n = round64 (n, 1)"

definition float_add :: "float64 \<Rightarrow> float64 \<Rightarrow> float64" where
  "float_add x y = round64 (fst x * snd y + fst y * snd x, snd x * snd y)"

definition float_mul :: "float64 \<Rightarrow> float64 \<Rightarrow> float64" where
  "float_mul x y = round64 (fst x * fst y, snd x * snd y)"

definition float_div :: "float64 \<Rightarrow> float64 \<Rightarrow> float64" where
  "float_div x y = round64 (fst x * snd y, snd x * fst y)"

text \<open>
  The conversion to \<open>int64\<close> drops the fraction. What it gives beyond the range of \<open>int64\<close> is left
  to the implementation: the argument \<open>beyond\<close>.
\<close>

definition int64_of_float :: "int \<Rightarrow> float64 \<Rightarrow> int" where
  "int64_of_float beyond x =
     (let n = fst x sdiv snd x in if - (2 ^ 63) \<le> n \<and> n < 2 ^ 63 then n else beyond)"

subsection \<open>FNV-1a\<close>

definition fnv32a :: "bytes \<Rightarrow> 32 word" where
  "fnv32a s = foldl (\<lambda>h c. (h XOR word_of_nat (bval c)) * 16777619) 2166136261 s"

subsection \<open>\<open>Backoff\<close>\<close>

definition wrap64 :: "int \<Rightarrow> int" where
  "wrap64 n = (n + 2 ^ 63) mod 2 ^ 64 - 2 ^ 63"

text \<open>The loop, with the number of rounds that are left.\<close>

fun doubled :: "nat \<Rightarrow> int \<Rightarrow> int \<Rightarrow> int" where
  "doubled 0 delay maximum = delay"
| "doubled (Suc n) delay maximum =
     (if \<not> delay < maximum then delay
      else if maximum sdiv 2 < delay then maximum
      else doubled n (wrap64 (delay * 2)) maximum)"

definition jitter :: "bytes \<Rightarrow> int \<Rightarrow> float64" where
  "jitter i att =
     float_add (round64 (4, 5))
       (float_div (float_of_int (uint (fnv32a (i @ '':'' @ show_int att) mod 401))) (float_of_int 1000))"

definition Backoff :: "int \<Rightarrow> int \<Rightarrow> int \<Rightarrow> bytes \<Rightarrow> int \<Rightarrow> int" where
  "Backoff beyond start maximum i att =
     (let att = (if att < 1 then 1 else att);
          delay = doubled (nat (att - 1)) start maximum;
          delay = (if maximum < delay then maximum else delay);
          jittered = int64_of_float beyond (float_mul (float_of_int delay) (jitter i att))
      in if maximum < jittered then maximum else jittered)"

subsection \<open>The rounding error\<close>

definition real_of :: "float64 \<Rightarrow> real" where
  "real_of x = real_of_int (fst x) / real_of_int (snd x)"

lemma scale_up_result:
  assumes "scale_up p q k = (p', k')" "0 < p" "0 < q"
  shows "2 ^ 52 * q \<le> p'" "p' * 2 ^ k = p * 2 ^ k'"
proof -
  have "2 ^ 52 * q \<le> p' \<and> p' * 2 ^ k = p * 2 ^ k'"
    using assms
  proof (induction p q k rule: scale_up.induct)
    case (1 p q k)
    show ?case
    proof (cases "p < 2 ^ 52 * q")
      case True
      then have e: "scale_up (2 * p) q (Suc k) = (p', k')"
        using "1.prems" by (subst (asm) scale_up.simps) simp
      show ?thesis
        using "1.IH" [OF _ e] True "1.prems"(2,3) by (simp add: mult.assoc)
    next
      case False
      then show ?thesis
        using "1.prems" by (subst (asm) scale_up.simps) simp
    qed
  qed
  then show "2 ^ 52 * q \<le> p'" "p' * 2 ^ k = p * 2 ^ k'"
    by simp_all
qed

lemma scale_down_result:
  assumes "scale_down p q l = (q', l')" "0 < q" "2 ^ 52 * q \<le> p"
  shows "2 ^ 52 * q' \<le> p" "0 < q'" "q' * 2 ^ l = q * 2 ^ l'" "p < 2 ^ 53 * q'"
proof -
  have "2 ^ 52 * q' \<le> p \<and> 0 < q' \<and> q' * 2 ^ l = q * 2 ^ l' \<and> p < 2 ^ 53 * q'"
    using assms
  proof (induction p q l rule: scale_down.induct)
    case (1 p q l)
    show ?case
    proof (cases "2 ^ 53 * q \<le> p")
      case True
      then have e: "scale_down p (2 * q) (Suc l) = (q', l')"
        using "1.prems" by (subst (asm) scale_down.simps) simp
      show ?thesis
        using "1.IH" [OF _ e] True "1.prems"(2) by (simp add: mult.assoc)
    next
      case False
      then show ?thesis
        using "1.prems" by (subst (asm) scale_down.simps) simp
    qed
  qed
  then show "2 ^ 52 * q' \<le> p" "0 < q'" "q' * 2 ^ l = q * 2 ^ l'" "p < 2 ^ 53 * q'"
    by simp_all
qed

lemma half_even_error:
  assumes "0 < q"
  shows "\<bar>real_of_int (half_even p q) - real_of_int p / real_of_int q\<bar> \<le> 1 / 2"
proof -
  define m r where "m = p div q" and "r = p mod q"
  have pq: "p = m * q + r" "0 \<le> r" "r < q"
    using assms by (simp_all add: m_def r_def)
  have x: "real_of_int p / real_of_int q = m + r / q"
    using assms by (simp add: pq(1) field_simps)
  have f: "0 \<le> r / q" "r / q < 1"
    using pq assms by simp_all
  show ?thesis
  proof (cases "q < 2 * r \<or> q = 2 * r \<and> odd m")
    case True
    then have "real_of_int q \<le> 2 * real_of_int r"
      by linarith
    then have "1 / 2 \<le> r / q"
      using assms by (simp add: field_simps)
    moreover have "half_even p q = m + 1"
      using True by (simp add: half_even_def m_def r_def Let_def)
    ultimately show ?thesis
      unfolding x using f by simp
  next
    case False
    then have "2 * real_of_int r \<le> real_of_int q"
      by linarith
    then have "r / q \<le> 1 / 2"
      using assms by (simp add: field_simps)
    moreover have "half_even p q = m"
      using False by (simp add: half_even_def m_def r_def Let_def)
    ultimately show ?thesis
      unfolding x using f by simp
  qed
qed

text \<open>One rounding changes a value by at most one part in \<open>2 ^ 53\<close>.\<close>

lemma round64_error:
  assumes "0 < p" "0 < q"
  shows "\<bar>real_of (round64 (p, q)) - p / q\<bar> \<le> p / q / 2 ^ 53" "0 < snd (round64 (p, q))"
proof -
  obtain p' k where u: "scale_up p q 0 = (p', k)"
    by (cases "scale_up p q 0")
  obtain q' l where d: "scale_down p' q 0 = (q', l)"
    by (cases "scale_down p' q 0")
  note u' = scale_up_result [OF u assms]
  note d' = scale_down_result [OF d assms(2) u'(1)]
  have r: "round64 (p, q) = (half_even p' q' * 2 ^ l, 2 ^ k)"
    using assms u d by (simp add: round64_def)
  then show "0 < snd (round64 (p, q))"
    by simp
  let ?x = "real_of_int p' / real_of_int q'"
  have p': "real_of_int p' = p * 2 ^ k" and q': "real_of_int q' = q * 2 ^ l"
    using u'(2) d'(3) by simp_all
  have x: "p / q = ?x * 2 ^ l / 2 ^ k"
    using assms by (simp add: p' q')
  have "real_of_int (2 ^ 52 * q') \<le> real_of_int p'"
    using d'(1) by (simp only: of_int_le_iff)
  then have "2 ^ 52 \<le> ?x"
    using d'(2) by (simp add: field_simps)
  then have "1 / 2 \<le> ?x / 2 ^ 53"
    by simp
  with half_even_error [OF d'(2), of p'] have e: "\<bar>half_even p' q' - ?x\<bar> \<le> ?x / 2 ^ 53"
    by linarith
  have "real_of (round64 (p, q)) - p / q = (half_even p' q' - ?x) * (2 ^ l / 2 ^ k)"
    unfolding r x by (simp add: real_of_def field_simps)
  then have "\<bar>real_of (round64 (p, q)) - p / q\<bar> = \<bar>half_even p' q' - ?x\<bar> * (2 ^ l / 2 ^ k)"
    by (simp add: abs_mult)
  also have "\<dots> \<le> ?x / 2 ^ 53 * (2 ^ l / 2 ^ k)"
    using e by (intro mult_right_mono) simp_all
  also have "\<dots> = p / q / 2 ^ 53"
    unfolding x by simp
  finally show "\<bar>real_of (round64 (p, q)) - p / q\<bar> \<le> p / q / 2 ^ 53" .
qed

lemma round64_near:
  assumes "0 \<le> p" "0 < q"
  shows "\<bar>real_of (round64 (p, q)) - p / q\<bar> \<le> p / q / 2 ^ 53" "0 < snd (round64 (p, q))"
    "0 \<le> fst (round64 (p, q))"
proof -
  show n: "\<bar>real_of (round64 (p, q)) - p / q\<bar> \<le> p / q / 2 ^ 53" and s: "0 < snd (round64 (p, q))"
    using round64_error [of p q] assms by (cases "p = 0"; simp add: round64_def real_of_def)+
  have "p / q / 2 ^ 53 \<le> p / q"
    using assms by (simp add: field_simps)
  then have "0 \<le> real_of (round64 (p, q))"
    using n by linarith
  then show "0 \<le> fst (round64 (p, q))"
    using s by (simp add: real_of_def zero_le_divide_iff)
qed

lemma near_bounds:
  fixes a b :: real
  assumes "\<bar>a - b\<bar> \<le> b / 2 ^ 53"
  shows "b * (1 - 1 / 2 ^ 53) \<le> a" "a \<le> b * (1 + 1 / 2 ^ 53)"
proof -
  have "a - b \<le> b / 2 ^ 53" "b - a \<le> b / 2 ^ 53"
    using assms unfolding abs_le_iff minus_diff_eq by (rule conjunct1, rule conjunct2)
  then show "b * (1 - 1 / 2 ^ 53) \<le> a" "a \<le> b * (1 + 1 / 2 ^ 53)"
    unfolding right_diff_distrib distrib_left by simp_all
qed

lemma real_of_ops:
  assumes "0 < snd x" "0 < snd y" "0 \<le> fst x" "0 \<le> fst y"
  shows "\<bar>real_of (float_add x y) - (real_of x + real_of y)\<bar> \<le> (real_of x + real_of y) / 2 ^ 53"
    "\<bar>real_of (float_mul x y) - real_of x * real_of y\<bar> \<le> real_of x * real_of y / 2 ^ 53"
    "0 < fst y \<Longrightarrow> \<bar>real_of (float_div x y) - real_of x / real_of y\<bar> \<le> real_of x / real_of y / 2 ^ 53"
    "0 < snd (float_add x y)" "0 < snd (float_mul x y)" "0 < fst y \<Longrightarrow> 0 < snd (float_div x y)"
    "0 \<le> fst (float_add x y)" "0 \<le> fst (float_mul x y)" "0 < fst y \<Longrightarrow> 0 \<le> fst (float_div x y)"
proof -
  have e: "real_of x + real_of y = real_of_int (fst x * snd y + fst y * snd x) / real_of_int (snd x * snd y)"
    "real_of x * real_of y = real_of_int (fst x * fst y) / real_of_int (snd x * snd y)"
    "0 < fst y \<Longrightarrow> real_of x / real_of y = real_of_int (fst x * snd y) / real_of_int (snd x * fst y)"
    using assms by (simp_all add: real_of_def field_simps)
  show "\<bar>real_of (float_add x y) - (real_of x + real_of y)\<bar> \<le> (real_of x + real_of y) / 2 ^ 53"
    "0 < snd (float_add x y)" "0 \<le> fst (float_add x y)"
    unfolding e float_add_def using assms by (intro round64_near; simp)+
  show "\<bar>real_of (float_mul x y) - real_of x * real_of y\<bar> \<le> real_of x * real_of y / 2 ^ 53"
    "0 < snd (float_mul x y)" "0 \<le> fst (float_mul x y)"
    unfolding e float_mul_def using assms by (intro round64_near; simp)+
  assume p: "0 < fst y"
  show "\<bar>real_of (float_div x y) - real_of x / real_of y\<bar> \<le> real_of x / real_of y / 2 ^ 53"
    "0 < snd (float_div x y)" "0 \<le> fst (float_div x y)"
    unfolding e(3) [OF p] float_div_def using assms p by (intro round64_near; simp)+
qed

subsection \<open>The factor and the delay\<close>

lemma jitter_range:
  "4 / 5 * (1 - 1 / 2 ^ 51) \<le> real_of (jitter i att)" "real_of (jitter i att) \<le> 6 / 5 * (1 + 1 / 2 ^ 51)"
  "0 < snd (jitter i att)" "0 \<le> fst (jitter i att)"
proof -
  define n where "n = uint (fnv32a (i @ '':'' @ show_int att) mod 401)"
  have "n \<le> 400" "0 \<le> n"
    by (simp_all add: n_def uint_mod_distrib)
  then have n: "0 \<le> real_of_int n" "real_of_int n \<le> 400"
    by simp_all
  define a b c where "a = round64 (4, 5)" and "b = float_of_int n" and "c = float_of_int 1000"
  have a: "\<bar>real_of a - 4 / 5\<bar> \<le> 4 / 5 / 2 ^ 53" "0 < snd a" "0 \<le> fst a"
    unfolding a_def using round64_near [of 4 5] by simp_all
  have b: "\<bar>real_of b - n\<bar> \<le> n / 2 ^ 53" "0 < snd b" "0 \<le> fst b"
    unfolding b_def float_of_int_def using round64_near [of n 1] \<open>0 \<le> n\<close> by simp_all
  have c: "\<bar>real_of c - 1000\<bar> \<le> 1000 / 2 ^ 53" "0 < snd c" "0 \<le> fst c"
    unfolding c_def float_of_int_def using round64_near [of 1000 1] by simp_all
  have "0 < real_of c"
    using near_bounds(1) [OF c(1)] by (rule less_le_trans [rotated]) simp
  then have c': "0 < fst c"
    using c(2,3) by (cases "fst c = 0") (simp_all add: real_of_def)
  note q = real_of_ops(3,6,9) [OF b(2) c(2) b(3) c(3) c']
  note j = real_of_ops(1,4,7) [OF a(2) q(2) a(3) q(3)]
  have j': "jitter i att = float_add a (float_div b c)"
    by (simp add: jitter_def a_def b_def c_def n_def)
  have "0 \<le> real_of b" "real_of b \<le> 400 * (1 + 1 / 2 ^ 53)" "1000 * (1 - 1 / 2 ^ 53) \<le> real_of c"
  proof -
    show "0 \<le> real_of b"
      using b(2,3) by (simp add: real_of_def)
    have "n * (1 + 1 / 2 ^ 53) \<le> 400 * (1 + 1 / 2 ^ 53)"
      using n(2) by (rule mult_right_mono) simp
    then show "real_of b \<le> 400 * (1 + 1 / 2 ^ 53)"
      using near_bounds(2) [OF b(1)] by (rule order_trans [rotated])
    show "1000 * (1 - 1 / 2 ^ 53) \<le> real_of c"
      by (rule near_bounds(1) [OF c(1)])
  qed
  then have zz: "real_of b / real_of c \<le> 400 * (1 + 1 / 2 ^ 53) / (1000 * (1 - 1 / 2 ^ 53))"
    by (intro frac_le) simp_all
  have "0 \<le> real_of b / real_of c"
    using b(2,3) c(2) c' by (simp add: real_of_def)
  note zz = this zz
  define z where "z = real_of b / real_of c"
  have "0 \<le> z" "z \<le> 2 / 5 * (1 + 5 / 2 ^ 54)"
    using zz [folded z_def] by simp_all
  moreover note near_bounds [OF q(1), folded z_def]
  ultimately have "0 \<le> real_of (float_div b c)" "real_of (float_div b c) \<le> 2 / 5 * (1 + 1 / 2 ^ 51)"
    by simp_all
  then show "4 / 5 * (1 - 1 / 2 ^ 51) \<le> real_of (jitter i att)" "real_of (jitter i att) \<le> 6 / 5 * (1 + 1 / 2 ^ 51)"
    using near_bounds [OF j(1)] near_bounds [OF a(1)] unfolding j' by simp_all
  show "0 < snd (jitter i att)" "0 \<le> fst (jitter i att)"
    using j unfolding j' by simp_all
qed

lemma wrap64_id: "- (2 ^ 63) \<le> n \<Longrightarrow> n < 2 ^ 63 \<Longrightarrow> wrap64 n = n"
  by (simp add: wrap64_def)

lemma doubled_step:
  assumes "0 < maximum" "maximum < 2 ^ 63" "0 < delay"
  shows "doubled (Suc n) delay maximum =
    (if maximum \<le> delay then delay else if maximum div 2 < delay then maximum else doubled n (delay * 2) maximum)"
proof -
  have "maximum sdiv 2 = maximum div 2"
    using assms(1) by (simp add: signed_divide_int_def)
  moreover have "wrap64 (delay * 2) = delay * 2" if "delay \<le> maximum div 2"
    using that assms by (intro wrap64_id) auto
  ultimately show ?thesis
    by (auto simp: not_less)
qed

lemma power_growth: "0 < (delay :: int) \<Longrightarrow> delay \<le> delay * 2 ^ n"
  by simp

lemma doubled_power:
  assumes "0 < maximum" "maximum < 2 ^ 63" "0 < delay"
  shows "min maximum (doubled n delay maximum) = min maximum (delay * 2 ^ n)"
  using assms(3)
proof (induction n arbitrary: delay)
  case (Suc n)
  consider (large) "maximum \<le> delay" | (half) "delay < maximum" "maximum div 2 < delay" | (small) "delay < maximum" "delay \<le> maximum div 2"
    by linarith
  then show ?case
  proof cases
    case large
    then have "doubled (Suc n) delay maximum = delay"
      unfolding doubled_step [OF assms(1,2) Suc.prems] by simp
    moreover have "maximum \<le> delay * 2 ^ Suc n"
      using large power_growth [OF Suc.prems] order_trans by blast
    ultimately show ?thesis
      using large by (simp del: power_Suc)
  next
    case half
    then have "doubled (Suc n) delay maximum = maximum"
      unfolding doubled_step [OF assms(1,2) Suc.prems] by simp
    moreover have "maximum \<le> delay * 2"
      using half by linarith
    moreover have "delay * 2 \<le> delay * 2 ^ Suc n"
      using Suc.prems power_growth [of "delay * 2" n] by (simp add: mult.assoc)
    ultimately show ?thesis
      by (simp del: power_Suc)
  next
    case small
    then have "doubled (Suc n) delay maximum = doubled n (delay * 2) maximum"
      unfolding doubled_step [OF assms(1,2) Suc.prems] by simp
    then show ?thesis
      using Suc.IH [of "delay * 2"] Suc.prems by (simp add: mult.assoc)
  qed
qed simp

lemma Backoff_range:
  fixes d :: int
  assumes "0 < start" "0 < maximum" "maximum \<le> 2 ^ 62" "1 \<le> att"
  defines "d \<equiv> min maximum (start * 2 ^ nat (att - 1))"
  shows "0 \<le> Backoff beyond start maximum i att" "Backoff beyond start maximum i att \<le> maximum"
    "4 / 5 * (1 - 1 / 2 ^ 50) * d - 1 < Backoff beyond start maximum i att"
    "Backoff beyond start maximum i att \<le> 6 / 5 * (1 + 1 / 2 ^ 50) * d"
proof -
  have pw: "min maximum (doubled (nat (att - 1)) start maximum) = d"
    unfolding d_def using assms(1-3) by (intro doubled_power) simp_all
  have d: "0 < d" "d \<le> maximum" "d \<le> 2 ^ 62"
    using assms(1-3) by (auto simp: d_def)
  define x y where "x = float_of_int d" and "y = float_mul x (jitter i att)"
  have x: "\<bar>real_of x - d\<bar> \<le> d / 2 ^ 53" "0 < snd x" "0 \<le> fst x"
    unfolding x_def float_of_int_def using round64_near [of d 1] d(1) by simp_all
  note j = jitter_range [of i att]
  note m = real_of_ops(2,5,8) [OF x(2) j(3) x(3) j(4), folded y_def]
  have dr: "0 < real_of_int d" "real_of_int d \<le> 2 ^ 62"
    using d by (simp, metis of_int_le_numeral_power_cancel_iff)
  have lo: "4 / 5 * (1 - 1 / 2 ^ 50) * d \<le> real_of y"
  proof -
    have "d * (1 - 1 / 2 ^ 53) * (4 / 5 * (1 - 1 / 2 ^ 51)) \<le> real_of x * real_of (jitter i att)"
      using near_bounds(1) [OF x(1)] j(1) dr x(2,3) by (intro mult_mono) (auto simp: real_of_def)
    moreover have "real_of x * real_of (jitter i att) * (1 - 1 / 2 ^ 53) \<le> real_of y"
      by (rule near_bounds(1) [OF m(1)])
    ultimately show ?thesis
      using dr by (simp add: field_simps)
  qed
  have hi: "real_of y \<le> 6 / 5 * (1 + 1 / 2 ^ 50) * d"
  proof -
    have "real_of x * real_of (jitter i att) \<le> d * (1 + 1 / 2 ^ 53) * (6 / 5 * (1 + 1 / 2 ^ 51))"
      using near_bounds(2) [OF x(1)] j dr by (intro mult_mono) (auto simp: real_of_def)
    moreover have "real_of y \<le> real_of x * real_of (jitter i att) * (1 + 1 / 2 ^ 53)"
      by (rule near_bounds(2) [OF m(1)])
    ultimately show ?thesis
      using dr by (simp add: field_simps)
  qed
  define n where "n = fst y div snd y"
  have n: "n = \<lfloor>real_of y\<rfloor>" "0 \<le> n"
    using m(2,3) by (simp_all add: n_def real_of_def floor_divide_of_int_eq pos_imp_zdiv_nonneg_iff)
  have "real_of y < 2 ^ 63"
    using hi dr(2) by (simp add: field_simps)
  then have "n < 2 ^ 63"
    unfolding n(1) by (simp add: floor_less_iff)
  moreover have "fst y sdiv snd y = n"
    using m(2,3) by (cases "fst y = 0") (simp_all add: signed_divide_int_def n_def sgn_1_pos)
  ultimately have "int64_of_float beyond y = n"
    using n(2) by (simp add: int64_of_float_def Let_def)
  then have B: "Backoff beyond start maximum i att = min maximum n"
  proof -
    have "(if maximum < doubled (nat (att - 1)) start maximum then maximum else doubled (nat (att - 1)) start maximum) = d"
      using pw by (auto simp: min_def split: if_splits)
    then show ?thesis
      using assms(4) \<open>int64_of_float beyond y = n\<close> by (simp add: Backoff_def Let_def x_def y_def)
  qed
  show "0 \<le> Backoff beyond start maximum i att" "Backoff beyond start maximum i att \<le> maximum"
    using B n(2) assms(2) by simp_all
  have nr: "real_of y - 1 < n" "n \<le> real_of y"
    unfolding n(1) by linarith+
  have "4 / 5 * (1 - 1 / 2 ^ 50) * d - 1 < maximum"
    using dr d(2) by (simp add: field_simps)
  then show "4 / 5 * (1 - 1 / 2 ^ 50) * d - 1 < Backoff beyond start maximum i att"
    unfolding B using lo nr(1) by (simp add: min_def)
  show "Backoff beyond start maximum i att \<le> 6 / 5 * (1 + 1 / 2 ^ 50) * d"
    unfolding B using hi nr(2) by (simp add: min_def)
qed

subsection \<open>Properties\<close>

text \<open>
  C24. The retry delay: with a positive base and maximum (up to \<open>2 ^ 62\<close> ns, 146 years), the delay after attempt \<open>n\<close> is the base
  times \<open>2 ^ (n - 1)\<close>, at most the maximum, times a factor between 0.8 and 1.2 up to the rounding of \<open>float64\<close>; it is
  never negative and never above the maximum. The doubling never overflows.
\<close>

theorem backoff_window:
  fixes d :: int
  assumes "0 < start" "0 < maximum" "maximum \<le> 2 ^ 62" "1 \<le> att" "d = min maximum (start * 2 ^ nat (att - 1))"
  shows "0 \<le> Backoff beyond start maximum i att \<and> Backoff beyond start maximum i att \<le> maximum \<and>
    4 / 5 * (1 - 1 / 2 ^ 50) * d - 1 < Backoff beyond start maximum i att \<and>
    Backoff beyond start maximum i att \<le> 6 / 5 * (1 + 1 / 2 ^ 50) * d"
  unfolding assms(5) using Backoff_range [OF assms(1-4)] by blast

theorem backoff_window_witness:
  "799999999 \<le> Backoff 0 1000000000 300000000000 ''abc'' 1 \<and> Backoff 0 1000000000 300000000000 ''abc'' 1 \<le> 1200000001"
proof -
  have "4 / 5 * (1 - 1 / 2 ^ 50) * real_of_int 1000000000 - 1 < Backoff 0 1000000000 300000000000 ''abc'' 1"
    "Backoff 0 1000000000 300000000000 ''abc'' 1 \<le> 6 / 5 * (1 + 1 / 2 ^ 50) * real_of_int 1000000000"
    using backoff_window [of 1000000000 300000000000 1 1000000000 0 "''abc''"] by simp_all
  then show ?thesis
    by simp
qed

end
