(* ===== verification/NetText.thy ===== *)
theory NetText
  imports Delivery
begin

section \<open>Hosts, ports and headers of the standard library\<close>

text \<open>
  What the worker, the target policy and the command line client use of \<open>net\<close>, \<open>net/url\<close> and
  \<open>net/http\<close>: host and port of an authority, header maps, and \<open>strings.ToLower\<close>.
\<close>

text \<open>
  Lower case of ASCII text; text with other bytes is lowered by the Unicode tables, the
  argument \<open>unicode\<close>.
\<close>

definition to_lower :: "(bytes \<Rightarrow> bytes) \<Rightarrow> bytes \<Rightarrow> bytes" where
  "to_lower unicode s = (if list_all is_ascii s then List.map lower_char s else unicode s)"

text \<open>What is before and after the last occurrence of a byte.\<close>

definition split_last :: "char \<Rightarrow> bytes \<Rightarrow> (bytes \<times> bytes) option" where
  "split_last c s =
     (case dropWhile (\<lambda>x. x \<noteq> c) (rev s) of
        [] \<Rightarrow> None
      | _ # before \<Rightarrow> Some (rev before, rev (takeWhile (\<lambda>x. x \<noteq> c) (rev s))))"

lemma split_last_None [simp]: "split_last c s = None \<longleftrightarrow> c \<notin> set s"
proof -
  have "dropWhile (\<lambda>x. x \<noteq> c) (rev s) = [] \<longleftrightarrow> c \<notin> set s"
    unfolding dropWhile_eq_Nil_conv by auto
  moreover have "split_last c s = None \<longleftrightarrow> dropWhile (\<lambda>x. x \<noteq> c) (rev s) = []"
    unfolding split_last_def by (cases "dropWhile (\<lambda>x. x \<noteq> c) (rev s)") (simp_all only: list.case option.distinct list.distinct simp_thms)
  ultimately show ?thesis
    by (rule trans [rotated])
qed

lemma split_last_append: "c \<notin> set t \<Longrightarrow> split_last c (s @ c # t) = Some (s, t)"
proof -
  assume "c \<notin> set t"
  then have "\<forall>x \<in> set (rev t). x \<noteq> c"
    by auto
  then have "takeWhile (\<lambda>x. x \<noteq> c) (rev t @ c # rev s) = rev t" "dropWhile (\<lambda>x. x \<noteq> c) (rev t @ c # rev s) = c # rev s"
    by (simp_all add: takeWhile_append dropWhile_append)
  then show ?thesis
    by (simp add: split_last_def)
qed

lemma split_last_Some: "split_last c s = Some (a, b) \<Longrightarrow> s = a @ c # b \<and> c \<notin> set b"
proof -
  assume a: "split_last c s = Some (a, b)"
  then obtain x r where x: "dropWhile (\<lambda>x. x \<noteq> c) (rev s) = x # r" "a = rev r" "b = rev (takeWhile (\<lambda>x. x \<noteq> c) (rev s))"
    by (auto simp: split_last_def split: list.splits)
  then have "x = c"
    using hd_dropWhile [of "\<lambda>x. x \<noteq> c" "rev s"] by simp
  have "rev s = takeWhile (\<lambda>x. x \<noteq> c) (rev s) @ c # r"
    using takeWhile_dropWhile_id [of "\<lambda>x. x \<noteq> c" "rev s"] x(1) \<open>x = c\<close> by simp
  then have "rev (rev s) = rev (takeWhile (\<lambda>x. x \<noteq> c) (rev s) @ c # r)"
    by (rule arg_cong)
  then have "s = a @ c # b"
    using x by simp
  then show ?thesis
    using x(3) by (auto dest: set_takeWhileD)
qed

subsection \<open>Host and port of a URL\<close>

definition valid_optional_port :: "bytes \<Rightarrow> bool" where
  "valid_optional_port p = (case p of [] \<Rightarrow> True | c # cs \<Rightarrow> c = CHR '':'' \<and> list_all is_digit cs)"

definition unbracket :: "bytes \<Rightarrow> bytes" where
  "unbracket h =
     (if prefix ''['' h \<and> suffix '']'' h \<and> 2 \<le> length h then butlast (tl h) else h)"

definition url_split_host_port :: "bytes \<Rightarrow> bytes \<times> bytes" where
  "url_split_host_port h =
     (case split_last (CHR '':'') h of
        None \<Rightarrow> (unbracket h, [])
      | Some (a, b) \<Rightarrow> if valid_optional_port (CHR '':'' # b) then (unbracket a, b) else (unbracket h, []))"

definition url_hostname :: "url \<Rightarrow> bytes" where
  "url_hostname u = fst (url_split_host_port (urlHost u))"

definition url_port :: "url \<Rightarrow> bytes" where
  "url_port u = snd (url_split_host_port (urlHost u))"

text \<open>What \<open>http.NewRequest\<close> does to the host: an empty port goes.\<close>

definition has_port :: "bytes \<Rightarrow> bool" where
  "has_port h =
     (case split_last (CHR '':'') h of None \<Rightarrow> False | Some (_, b) \<Rightarrow> CHR '']'' \<notin> set b)"

definition remove_empty_port :: "bytes \<Rightarrow> bytes" where
  "remove_empty_port h = (if has_port h \<and> suffix '':'' h then butlast h else h)"

subsection \<open>\<open>net.JoinHostPort\<close> and \<open>net.SplitHostPort\<close>\<close>

definition join_host_port :: "bytes \<Rightarrow> bytes \<Rightarrow> bytes" where
  "join_host_port host port =
     (if CHR '':'' \<in> set host then ''['' @ host @ '']:'' @ port else host @ '':'' @ port)"

definition net_split_host_port :: "bytes \<Rightarrow> (bytes \<times> bytes) option" where
  "net_split_host_port s =
     (case split_last (CHR '':'') s of
        None \<Rightarrow> None
      | Some (a, port) \<Rightarrow>
          if prefix ''['' s then
            (case cut_at (CHR '']'') (tl s) of (host, rest, found) \<Rightarrow>
               if \<not> found \<or> CHR ''['' # host @ '']'' \<noteq> a \<or> CHR ''['' \<in> set host \<or> CHR ''['' \<in> set rest \<or> CHR '']'' \<in> set rest
               then None else Some (host, port))
          else if CHR '':'' \<in> set a \<or> CHR ''['' \<in> set s \<or> CHR '']'' \<in> set s then None
          else Some (a, port))"

text \<open>Splitting what was joined gives the parts back.\<close>

lemma split_join_host_port:
  assumes "CHR ''['' \<notin> set h" "CHR '']'' \<notin> set h" "CHR ''['' \<notin> set p" "CHR '']'' \<notin> set p" "CHR '':'' \<notin> set p"
  shows "net_split_host_port (join_host_port h p) = Some (h, p)"
proof (cases "CHR '':'' \<in> set h")
  case True
  have j: "join_host_port h p = (CHR ''['' # h @ '']'') @ CHR '':'' # p"
    using True by (simp add: join_host_port_def)
  have "\<forall>x \<in> set h. x \<noteq> CHR '']''"
    using assms(2) by auto
  then have "cut_at (CHR '']'') (h @ CHR '']'' # CHR '':'' # p) = (h, CHR '':'' # p, True)"
    by (simp add: cut_at_def takeWhile_append dropWhile_append)
  then show ?thesis
    using split_last_append [OF assms(5), of "CHR ''['' # h @ '']''"] assms unfolding j
    by (simp add: net_split_host_port_def)
next
  case False
  then show ?thesis
    using split_last_append [OF assms(5), of h] assms
    by (cases h) (auto simp: join_host_port_def net_split_host_port_def)
qed

subsection \<open>Headers\<close>

text \<open>\<open>http.Header\<close>, of which the program uses \<open>Set\<close> and \<open>Get\<close> only: one value for each key.\<close>

type_synonym header = "(bytes, bytes) gomap"

definition header_set :: "bytes \<Rightarrow> bytes \<Rightarrow> header \<Rightarrow> header" where
  "header_set k v h = AList.update (canonical_header_key k) v h"

definition header_get :: "bytes \<Rightarrow> header \<Rightarrow> bytes" where
  "header_get k h = lookup_or [] h (canonical_header_key k)"

lemma header_get_set: "header_get k (header_set l v h) = (if canonical_header_key k = canonical_header_key l then v else header_get k h)"
  by (simp add: header_get_def header_set_def lookup_or_def map_simps)

end
