(* ===== verification/Worker.thy ===== *)
theory Worker
  imports Backoff NetText Examples StoreOps
begin

section \<open>The delivery workers: \<open>internal/worker\<close>\<close>

text \<open>
  A pool of workers claims due deliveries, one at a time and at most \<open>PerTarget\<close> for each
  target, sends them, and records the outcome. The model has the pool's state, each of its
  operations, and the workers as a step relation: every worker is idle, sending, or about to release
  its target; steps of the workers and of the store's other clients interleave in any order. What the
  workers log is left out.

  The network is a record of functions: the URL parser, the Unicode lower case, the text of
  the error with which \<open>http.NewRequest\<close> refuses a method and a URL, the exchange of a request
  for a response or an error, and what a conversion of a float beyond \<open>int64\<close> gives.
\<close>

record WorkerConfig =
  Concurrency :: int
  PollInterval :: int
  LeaseDuration :: int
  BaseBackoff :: int
  MaxBackoff :: int
  PerTarget :: int

record Metrics =
  metricAttempts :: "64 word"
  metricSucceeded :: "64 word"
  metricRetryableFailure :: "64 word"
  metricTerminalFailure :: "64 word"

record Pool =
  config :: WorkerConfig
  attempts :: "64 word"
  succeeded :: "64 word"
  retryableFailure :: "64 word"
  terminalFailure :: "64 word"
  activeTargets :: "(bytes, int) gomap"

record http_request =
  rqMethod :: bytes
  rqURL :: url
  rqHeader :: header
  rqBody :: bytes

text \<open>A response: its status, and the bytes of the body before its end or before an error.\<close>

record http_response =
  rsStatus :: int
  rsBody :: bytes
  rsError :: "bytes option"

record network =
  parse_url :: "bytes \<Rightarrow> url option"
  unicode_lower :: "bytes \<Rightarrow> bytes"
  request_error :: "bytes \<Rightarrow> bytes \<Rightarrow> bytes"
  exchange :: "http_request \<Rightarrow> bytes + http_response"
  beyond_int64 :: int

definition newPool :: "WorkerConfig \<Rightarrow> Pool" where
  "newPool c =
     (let c1 = (if Concurrency c < 1 then c\<lparr>Concurrency := 4\<rparr> else c);
          c2 = (if PollInterval c1 \<le> 0 then c1\<lparr>PollInterval := 250 * 1000000\<rparr> else c1);
          c3 = (if LeaseDuration c2 \<le> 0 then c2\<lparr>LeaseDuration := 30 * 1000000000\<rparr> else c2);
          c4 = (if BaseBackoff c3 \<le> 0 then c3\<lparr>BaseBackoff := 1000000000\<rparr> else c3);
          c5 = (if MaxBackoff c4 \<le> 0 then c4\<lparr>MaxBackoff := 5 * 60 * 1000000000\<rparr> else c4);
          c6 = (if PerTarget c5 < 1 then c5\<lparr>PerTarget := 1\<rparr> else c5)
      in \<lparr>config = c6, attempts = 0, succeeded = 0, retryableFailure = 0, terminalFailure = 0, activeTargets = []\<rparr>)"

definition PoolMetrics :: "Pool \<Rightarrow> Metrics" where
  "PoolMetrics p =
     \<lparr>metricAttempts = attempts p, metricSucceeded = succeeded p,
      metricRetryableFailure = retryableFailure p, metricTerminalFailure = terminalFailure p\<rparr>"

subsection \<open>Targets\<close>

definition targetKey :: "network \<Rightarrow> bytes \<Rightarrow> bytes" where
  "targetKey net targetURL =
     (case parse_url net targetURL of
        None \<Rightarrow> to_lower (unicode_lower net) targetURL
      | Some parsed \<Rightarrow>
          let scheme = to_lower (unicode_lower net) (urlScheme parsed);
              port = (if url_port parsed = [] then
                        (if scheme = ''http'' then ''80'' else if scheme = ''https'' then ''443'' else [])
                      else url_port parsed)
          in scheme @ ''://'' @ join_host_port (to_lower (unicode_lower net) (url_hostname parsed)) port)"

definition acquireTarget :: "bytes \<Rightarrow> (bytes, int) gomap \<Rightarrow> (bytes, int) gomap" where
  "acquireTarget key t = AList.update key (lookup_or 0 t key + 1) t"

definition releaseKey :: "bytes \<Rightarrow> (bytes, int) gomap \<Rightarrow> (bytes, int) gomap" where
  "releaseKey key t =
     (if lookup_or 0 t key \<le> 1 then AList.delete key t
      else AList.update key (lookup_or 0 t key - 1) t)"

definition claimDue ::
  "network \<Rightarrow> int \<Rightarrow> Pool \<Rightarrow> Store \<Rightarrow> world \<Rightarrow> (Delivery list \<times> store_error option) \<times> Pool \<times> Store \<times> world" where
  "claimDue net now p s w =
     (case ClaimDueMatching now (LeaseDuration (config p)) 1
             (\<lambda>item. lookup_or 0 (activeTargets p) (targetKey net (TargetURL item)) < PerTarget (config p)) s w of
        ((claimed, err), s', w') \<Rightarrow>
          ((claimed, err),
           if err = None \<and> length claimed = 1
           then p\<lparr>activeTargets := acquireTarget (targetKey net (TargetURL (claimed ! 0))) (activeTargets p)\<rparr> else p,
           s', w'))"

definition releaseTarget :: "network \<Rightarrow> Delivery \<Rightarrow> Pool \<Rightarrow> Pool" where
  "releaseTarget net item p =
     p\<lparr>activeTargets := releaseKey (targetKey net (TargetURL item)) (activeTargets p)\<rparr>"

subsection \<open>Sending\<close>

definition newRequest :: "network \<Rightarrow> bytes \<Rightarrow> bytes \<Rightarrow> bytes \<Rightarrow> bytes + http_request" where
  "newRequest net meth target body =
     (let m = (if meth = [] then ''GET'' else meth)
      in if \<not> list_all token_byte m then Inl (request_error net meth target)
         else case parse_url net target of
           None \<Rightarrow> Inl (request_error net meth target)
         | Some u \<Rightarrow>
             Inr \<lparr>rqMethod = m, rqURL = u\<lparr>urlHost := remove_empty_port (urlHost u)\<rparr>, rqHeader = [], rqBody = body\<rparr>)"

definition set_headers :: "(bytes, bytes) gomap \<Rightarrow> header \<Rightarrow> header" where
  "set_headers hs h = foldl (\<lambda>acc nv. header_set (fst nv) (snd nv) acc) h hs"

definition delivery_headers :: "Delivery \<Rightarrow> header" where
  "delivery_headers item =
     (let h1 = set_headers (Headers item) [];
          h2 = (if Body item \<noteq> [] \<and> header_get ''Content-Type'' h1 = [] then
                  header_set ''Content-Type''
                    (if json_valid (Body item) then ''application/json'' else ''application/octet-stream'') h1
                else h1)
      in header_set ''X-Spoold-Attempt'' (show_int (Attempts item))
           (header_set ''X-Spoold-Delivery-ID'' (ID item) h2))"

text \<open>\<open>io.ReadAll\<close> of an \<open>io.LimitReader\<close>: an error after the limit is not seen.\<close>

definition read_limited :: "nat \<Rightarrow> http_response \<Rightarrow> bytes + bytes" where
  "read_limited n r =
     (if n \<le> length (rsBody r) then Inr (take n (rsBody r))
      else case rsError r of None \<Rightarrow> Inr (rsBody r) | Some e \<Rightarrow> Inl e)"

definition send :: "network \<Rightarrow> Delivery \<Rightarrow> int \<times> bytes option" where
  "send net item =
     (case newRequest net (Method item) (TargetURL item) (Body item) of
        Inl e \<Rightarrow> (0, Some e)
      | Inr request \<Rightarrow>
          (case exchange net (request\<lparr>rqHeader := delivery_headers item\<rparr>) of
             Inl e \<Rightarrow> (0, Some e)
           | Inr response \<Rightarrow>
               (case read_limited 4096 response of
                  Inl e \<Rightarrow> (rsStatus response, Some (''read response: '' @ e))
                | Inr body \<Rightarrow>
                    if 200 \<le> rsStatus response \<and> rsStatus response < 300 then (rsStatus response, None)
                    else if trim_space body = [] then (rsStatus response, Some (''HTTP '' @ show_int (rsStatus response)))
                    else (rsStatus response, Some (''HTTP '' @ show_int (rsStatus response) @ '': '' @ trim_space body)))))"

definition retryableStatus :: "int \<Rightarrow> bool" where
  "retryableStatus st \<longleftrightarrow> st = 408 \<or> st = 425 \<or> st = 429 \<or> 500 \<le> st"

definition failureMessage :: "int \<Rightarrow> bytes option \<Rightarrow> bytes" where
  "failureMessage st err = (case err of Some e \<Rightarrow> e | None \<Rightarrow> ''HTTP '' @ show_int st)"

text \<open>
  \<open>deliver\<close> with the two readings of the clock after the exchange: the first is the time of a
  success and the start of the delay after a failure, the second the time of the failure.
\<close>

definition retryable :: "int \<Rightarrow> bytes option \<Rightarrow> bool" where
  "retryable code err \<longleftrightarrow>
     retryableStatus code \<or> (err \<noteq> None \<and> (code = 0 \<or> 200 \<le> code \<and> code < 300))"

definition deliver :: "network \<Rightarrow> int \<Rightarrow> int \<Rightarrow> Delivery \<Rightarrow> Pool \<Rightarrow> Store \<Rightarrow> world \<Rightarrow> Pool \<times> Store \<times> world" where
  "deliver net t1 t2 item p s w =
     (let p1 = p\<lparr>attempts := attempts p + 1\<rparr>
      in case send net item of (code, err) \<Rightarrow>
        if err = None \<and> 200 \<le> code \<and> code < 300 then
          (case Succeed (ID item) (Attempts item) code t1 s w of
             (Some _, s', w') \<Rightarrow> (p1, s', w')
           | (None, s', w') \<Rightarrow> (p1\<lparr>succeeded := succeeded p1 + 1\<rparr>, s', w'))
        else
          (let message = failureMessage code err;
               terminal = (\<not> retryable code err \<or> MaxAttempts item \<le> Attempts item);
               retry_at = t1 + Backoff (beyond_int64 net) (BaseBackoff (config p)) (MaxBackoff (config p)) (ID item) (Attempts item)
           in case Fail (ID item) (Attempts item) code message retry_at terminal t2 s w of
                (Some _, s', w') \<Rightarrow> (p1, s', w')
              | (None, s', w') \<Rightarrow>
                  (if terminal then p1\<lparr>terminalFailure := terminalFailure p1 + 1\<rparr>
                   else p1\<lparr>retryableFailure := retryableFailure p1 + 1\<rparr>, s', w')))"

subsection \<open>The table of active targets\<close>

text \<open>
  What the pool relies on: a table that counts, for each key, what has been acquired and
  not yet released.
\<close>

locale slot_table =
  fixes held :: "'t \<Rightarrow> 'k \<Rightarrow> int"
    and acquire :: "'k \<Rightarrow> 't \<Rightarrow> 't"
    and release :: "'k \<Rightarrow> 't \<Rightarrow> 't"
  assumes acquired: "held (acquire k t) = (held t)(k := held t k + 1)"
    and released: "1 \<le> held t k \<Longrightarrow> held (release k t) = (held t)(k := held t k - 1)"
begin

definition accounts :: "'t \<Rightarrow> ('k \<Rightarrow> nat) \<Rightarrow> bool" where
  "accounts t users \<longleftrightarrow> (\<forall>k. held t k = int (users k))"

lemma accounts_acquire: "accounts t users \<Longrightarrow> accounts (acquire k t) (users(k := Suc (users k)))"
  by (simp add: accounts_def acquired)

lemma accounts_release: "accounts t users \<Longrightarrow> users k = Suc n \<Longrightarrow> accounts (release k t) (users(k := n))"
  by (simp add: accounts_def released)

text \<open>An acquisition that was allowed only below a limit keeps within the limit.\<close>

lemma accounts_limit:
  assumes "accounts t users" "\<forall>k. int (users k) \<le> limit" "held t k < limit"
  shows "\<forall>l. int ((users(k := Suc (users k))) l) \<le> limit"
  using assms by (auto simp: accounts_def)

end

interpretation slots: slot_table "lookup_or (0 :: int)" acquireTarget releaseKey
  by unfold_locales (auto simp: lookup_or_def acquireTarget_def releaseKey_def map_simps fun_eq_iff split: option.split)

subsection \<open>The workers as a machine\<close>

datatype phase = Idle | Sending Delivery | Releasing Delivery

record system =
  pool :: Pool
  workers :: "phase list"
  journalStore :: Store
  disk :: world

definition phase_key :: "network \<Rightarrow> phase \<Rightarrow> bytes option" where
  "phase_key net ph =
     (case ph of Idle \<Rightarrow> None | Sending d \<Rightarrow> Some (targetKey net (TargetURL d)) | Releasing d \<Rightarrow> Some (targetKey net (TargetURL d)))"

text \<open>The number of workers that are busy with a target.\<close>

definition busy :: "network \<Rightarrow> phase list \<Rightarrow> bytes \<Rightarrow> nat" where
  "busy net ws key = length (filter (\<lambda>ph. phase_key net ph = Some key) ws)"

text \<open>
  One step: a worker claims (and starts to send if it got a delivery), a worker sends and
  records the outcome, a worker releases its target, another client of the store runs an
  operation, or the outcomes of the coming system calls change.
\<close>

inductive pool_step :: "network \<Rightarrow> (bytes \<Rightarrow> bytes) \<Rightarrow> system \<Rightarrow> system \<Rightarrow> bool" for net sha where
  claim: "i < length (workers y) \<Longrightarrow> workers y ! i = Idle \<Longrightarrow>
    \<forall>j d. map_of (items (journalStore y)) j = Some d \<longrightarrow> int64_range (Attempts d + 1) \<Longrightarrow>
    claimDue net now (pool y) (journalStore y) (disk y) = ((claimed, err), p, s, w) \<Longrightarrow>
    ph = (if err = None \<and> length claimed = 1 then Sending (claimed ! 0) else Idle) \<Longrightarrow>
    pool_step net sha y \<lparr>pool = p, workers = (workers y)[i := ph], journalStore = s, disk = w\<rparr>"
| send: "i < length (workers y) \<Longrightarrow> workers y ! i = Sending d \<Longrightarrow>
    deliver net t1 t2 d (pool y) (journalStore y) (disk y) = (p, s, w) \<Longrightarrow>
    pool_step net sha y \<lparr>pool = p, workers = (workers y)[i := Releasing d], journalStore = s, disk = w\<rparr>"
| release: "i < length (workers y) \<Longrightarrow> workers y ! i = Releasing d \<Longrightarrow>
    pool_step net sha y (y\<lparr>pool := releaseTarget net d (pool y), workers := (workers y)[i := Idle]\<rparr>)"
| client: "inputs_ok (parse_url net) x (journalStore y) \<Longrightarrow>
    run_op (parse_url net) sha x (journalStore y) (disk y) = (s, w) \<Longrightarrow>
    pool_step net sha y (y\<lparr>journalStore := s, disk := w\<rparr>)"
| outcomes: "pool_step net sha y (y\<lparr>disk := (disk y)\<lparr>faults := fs\<rparr>\<rparr>)"

inductive_cases pool_step_elim: "pool_step net sha y z"

lemmas pool_stepE = pool_step_elim [consumes 1, case_names claim send release client outcomes]

text \<open>\<open>Start\<close>: as many workers as configured, all idle, over a store of some run.\<close>

definition StartPool :: "WorkerConfig \<Rightarrow> Store \<Rightarrow> world \<Rightarrow> system" where
  "StartPool c s w =
     (let p = newPool c
      in \<lparr>pool = p, workers = replicate (nat (Concurrency (config p))) Idle, journalStore = s, disk = w\<rparr>)"

inductive pool_reach :: "network \<Rightarrow> (bytes \<Rightarrow> bytes) \<Rightarrow> system \<Rightarrow> bool" for net sha where
  start: "history (parse_url net) sha s w \<Longrightarrow> pool_reach net sha (StartPool c s w)"
| step: "pool_reach net sha y \<Longrightarrow> pool_step net sha y z \<Longrightarrow> pool_reach net sha z"

text \<open>What is assumed of the network: a response's status is a machine integer.\<close>

definition net_ok :: "network \<Rightarrow> bool" where
  "net_ok net \<longleftrightarrow> (\<forall>rq r. exchange net rq = Inr r \<longrightarrow> int64_range (rsStatus r))"

subsection \<open>Each step is steps of the store\<close>

lemma busy_update:
  assumes "i < length ws"
  shows "busy net (ws[i := ph]) k + (if phase_key net (ws ! i) = Some k then 1 else 0) =
    busy net ws k + (if phase_key net ph = Some k then 1 else 0)"
  using assms
proof (induction ws arbitrary: i)
  case (Cons a ws)
  then show ?case
    by (cases i) (fastforce simp: busy_def)+
qed simp

lemma claimDue_op:
  assumes "claimDue net now p s w = (r, p', s', w')"
  shows "run_op up sha (OpClaim now (LeaseDuration (config p)) 1
    (\<lambda>item. lookup_or 0 (activeTargets p) (targetKey net (TargetURL item)) < PerTarget (config p))) s w = (s', w')"
  using assms by (auto simp: claimDue_def split: prod.splits)

lemma send_status:
  assumes "net_ok net"
  shows "int64_range (fst (send net item))"
  using assms by (auto simp: send_def net_ok_def int64_range_def split: sum.splits)

lemma deliver_op:
  assumes "deliver net t1 t2 d p s w = (p', s', w')" "net_ok net"
  obtains x where "run_op up sha x s w = (s', w')" "inputs_ok up x s" "activeTargets p' = activeTargets p" "config p' = config p"
proof -
  obtain code err where c: "send net d = (code, err)"
    by (cases "send net d")
  have r: "int64_range code"
    using send_status [OF assms(2), of d] c by simp
  show thesis
  proof (cases "err = None \<and> 200 \<le> code \<and> code < 300")
    case True
    then show thesis
      using assms(1) c r
      by (intro that [of "OpSucceed (ID d) (Attempts d) code t1"])
        (auto simp: deliver_def inputs_ok_def fresh_id_def Let_def split: prod.splits option.splits)
  next
    case False
    then show thesis
      using assms(1) c r
      by (intro that [of "OpFail (ID d) (Attempts d) code (failureMessage code err)
            (t1 + Backoff (beyond_int64 net) (BaseBackoff (config p)) (MaxBackoff (config p)) (ID d) (Attempts d))
            (\<not> retryable code err \<or> MaxAttempts d \<le> Attempts d) t2"])
        (auto simp: deliver_def inputs_ok_def fresh_id_def Let_def split: prod.splits option.splits if_splits)
  qed
qed

lemma pool_history:
  assumes "pool_reach net sha y" "net_ok net"
  shows "history (parse_url net) sha (journalStore y) (disk y)"
  using assms(1)
proof (induction rule: pool_reach.induct)
  case (start s w c)
  then show ?case
    by (simp add: StartPool_def Let_def)
next
  case (step y z)
  note h = step.IH
  from step(2) show ?case
  proof (cases rule: pool_stepE)
    case (claim i now claimed err p s w)
    then show ?thesis
      using history.operation [OF h _ claimDue_op [OF claim(5)]] by (auto simp: inputs_ok_def fresh_id_def)
  next
    case (send i d t1 t2 p s w)
    then show ?thesis
      using history.operation [OF h] deliver_op [OF send(4) assms(2)] by (metis system.select_convs(3,4))
  next
    case (client x s w)
    then show ?thesis
      using history.operation [OF h client(2,3)] by simp
  next
    case (outcomes fs)
    then show ?thesis
      using history.environment [OF h] by simp
  qed (use h in simp)
qed

subsection \<open>The limit for each target\<close>

definition pool_inv :: "network \<Rightarrow> system \<Rightarrow> bool" where
  "pool_inv net y \<longleftrightarrow>
     slots.accounts (activeTargets (pool y)) (busy net (workers y)) \<and>
     (\<forall>key. int (busy net (workers y) key) \<le> PerTarget (config (pool y))) \<and>
     1 \<le> PerTarget (config (pool y))"

lemma busy_replicate [simp]: "busy net (replicate n Idle) k = 0"
  by (simp add: busy_def phase_key_def)

lemma pool_inv_start: "pool_inv net (StartPool c s w)"
  by (simp add: pool_inv_def StartPool_def newPool_def Let_def slots.accounts_def lookup_or_def)

lemma claimDue_cases:
  assumes "claimDue net now p s w = ((claimed, err), p', s', w')" "tables_ok s"
  obtains (none) "\<not> (err = None \<and> length claimed = 1)" "p' = p"
  | (one) d where "err = None" "claimed = [d]" "map_of (items s') (ID d) = Some d" "Status d = StatusInFlight"
      "lookup_or 0 (activeTargets p) (targetKey net (TargetURL d)) < PerTarget (config p)"
      "p' = p\<lparr>activeTargets := acquireTarget (targetKey net (TargetURL d)) (activeTargets p)\<rparr>"
proof (cases "err = None \<and> length claimed = 1")
  case True
  then obtain d where d: "claimed = [d]"
    by (cases claimed) auto
  let ?ok = "\<lambda>item. lookup_or 0 (activeTargets p) (targetKey net (TargetURL item)) < PerTarget (config p)"
  have c: "ClaimDueMatching now (LeaseDuration (config p)) 1 ?ok s w = ((claimed, err), s', w')"
    "p' = p\<lparr>activeTargets := acquireTarget (targetKey net (TargetURL d)) (activeTargets p)\<rparr>"
    using assms(1) True d by (auto simp: claimDue_def split: prod.splits)
  note f = claimed_stored [OF c(1) assms(2), of d]
  have "?ok (Clone (the (map_of (items s) (ID d))))"
    using f(4) d by simp
  moreover have "TargetURL (Clone (the (map_of (items s) (ID d)))) = TargetURL d"
    using f(5) d by (auto simp: claim_item_def Clone_def)
  ultimately show thesis
    using True d f(1,2) c(2) by (intro one [of d]) simp_all
qed (use assms(1) in \<open>auto simp: claimDue_def split: prod.splits intro: none\<close>)

lemma busy_idle:
  assumes "i < length ws" "ws ! i = Idle" "phase_key net ph = Some k"
  shows "busy net (ws[i := ph]) = (busy net ws)(k := Suc (busy net ws k))"
proof
  fix l
  show "busy net (ws[i := ph]) l = ((busy net ws)(k := Suc (busy net ws k))) l"
    using busy_update [OF assms(1), of net ph l] assms(2,3) by (auto simp: phase_key_def [of net Idle])
qed

lemma busy_release:
  assumes "i < length ws" "phase_key net (ws ! i) = Some k"
  obtains n where "busy net ws k = Suc n" "busy net (ws[i := Idle]) = (busy net ws)(k := n)"
proof (rule that)
  show "busy net ws k = Suc (busy net (ws[i := Idle]) k)"
    using busy_update [OF assms(1), of net Idle k] assms(2) by (simp add: phase_key_def [of net Idle])
  show "busy net (ws[i := Idle]) = (busy net ws)(k := busy net (ws[i := Idle]) k)"
  proof
    fix l
    show "busy net (ws[i := Idle]) l = ((busy net ws)(k := busy net (ws[i := Idle]) k)) l"
      using busy_update [OF assms(1), of net Idle l] assms(2) by (auto simp: phase_key_def [of net Idle])
  qed
qed

lemma busy_same:
  assumes "i < length ws" "phase_key net (ws ! i) = phase_key net ph"
  shows "busy net (ws[i := ph]) = busy net ws"
  using busy_update [OF assms(1), of net ph] assms(2) by (auto simp: fun_eq_iff)

lemma pool_inv_step:
  assumes "pool_step net sha y z" "pool_inv net y" "tables_ok (journalStore y)" "net_ok net"
  shows "pool_inv net z"
  using assms(1)
proof (cases rule: pool_stepE)
  case (claim i now claimed err p s w)
  show ?thesis
    using claim(5) assms(3)
  proof (cases rule: claimDue_cases)
    case none
    then have "workers z = (workers y)[i := Idle]" "pool z = pool y"
      using claim(1) by auto
    moreover have "busy net ((workers y)[i := Idle]) = busy net (workers y)"
      using claim(2,3) by (intro busy_same) simp_all
    ultimately show ?thesis
      using assms(2) by (simp add: pool_inv_def)
  next
    case (one d)
    let ?k = "targetKey net (TargetURL d)"
    have z: "workers z = (workers y)[i := Sending d]" "pool z = p"
      using claim(1) one by simp_all
    have b: "busy net ((workers y)[i := Sending d]) = (busy net (workers y))(?k := Suc (busy net (workers y) ?k))"
      using claim(2,3) by (rule busy_idle) (simp add: phase_key_def)
    note a = assms(2) [unfolded pool_inv_def]
    show ?thesis
      using slots.accounts_acquire [OF a [THEN conjunct1], of ?k]
        slots.accounts_limit [OF a [THEN conjunct1] a [THEN conjunct2, THEN conjunct1] one(5)] a
      unfolding pool_inv_def z b by (simp add: one(6) del: fun_upd_apply)
  qed
next
  case (send i d t1 t2 p s w)
  have "activeTargets p = activeTargets (pool y)" "config p = config (pool y)"
    using deliver_op [OF send(4) assms(4)] by blast+
  moreover have "busy net ((workers y)[i := Releasing d]) = busy net (workers y)"
    using send(2,3) by (intro busy_same) (simp_all add: phase_key_def)
  ultimately show ?thesis
    using assms(2) by (simp add: send(1) pool_inv_def)
next
  case (release i d)
  let ?k = "targetKey net (TargetURL d)"
  have "phase_key net (workers y ! i) = Some ?k"
    using release(3) by (simp add: phase_key_def)
  with release(2) obtain n where n: "busy net (workers y) ?k = Suc n"
    "busy net ((workers y)[i := Idle]) = (busy net (workers y))(?k := n)"
    by (rule busy_release)
  note a = assms(2) [unfolded pool_inv_def]
  have "int (busy net (workers y) ?k) \<le> PerTarget (config (pool y))"
    using a by blast
  then have "int n \<le> PerTarget (config (pool y))"
    using n(1) by linarith
  then show ?thesis
    using slots.accounts_release [OF a [THEN conjunct1] n(1)] a
    unfolding release(1) pool_inv_def by (simp add: n(2) releaseTarget_def)
qed (use assms(2) in \<open>simp_all add: pool_inv_def\<close>)

lemma pool_reach_inv:
  assumes "pool_reach net sha y" "net_ok net"
  shows "pool_inv net y"
  using assms(1)
proof (induction rule: pool_reach.induct)
  case (step y z)
  have "tables_ok (journalStore y)"
    using history_ok [OF pool_history [OF step(1) assms(2)]] by (simp add: durable_def)
  then show ?case
    using pool_inv_step step assms(2) by blast
qed (rule pool_inv_start)

subsection \<open>What an attempt records\<close>

text \<open>The outcome of an exchange, and what it does to the delivery and to the counters.\<close>

datatype verdict = Accepted int | TryAgain int bytes | GiveUp int bytes

definition verdict_of :: "network \<Rightarrow> Delivery \<Rightarrow> verdict" where
  "verdict_of net d =
     (case send net d of
        (code, None) \<Rightarrow> Accepted code
      | (code, Some e) \<Rightarrow> if retryable code (Some e) \<and> Attempts d < MaxAttempts d then TryAgain code e else GiveUp code e)"

fun recorded :: "network \<Rightarrow> WorkerConfig \<Rightarrow> int \<Rightarrow> int \<Rightarrow> verdict \<Rightarrow> Delivery \<Rightarrow> Delivery" where
  "recorded net c t1 t2 (Accepted code) d =
     d\<lparr>Status := StatusSucceeded, LastResponseCode := code, LastError := [], NextAttemptAt := zero_time,
       LeaseUntil := zero_time, UpdatedAt := t1\<rparr>"
| "recorded net c t1 t2 (TryAgain code e) d =
     d\<lparr>Status := StatusPending, LastResponseCode := code, LastError := e,
       NextAttemptAt := t1 + Backoff (beyond_int64 net) (BaseBackoff c) (MaxBackoff c) (ID d) (Attempts d),
       LeaseUntil := zero_time, UpdatedAt := t2\<rparr>"
| "recorded net c t1 t2 (GiveUp code e) d =
     d\<lparr>Status := StatusFailed, LastResponseCode := code, LastError := e, NextAttemptAt := zero_time,
       LeaseUntil := zero_time, UpdatedAt := t2\<rparr>"

fun counted :: "verdict \<Rightarrow> Pool \<Rightarrow> Pool" where
  "counted (Accepted _) p = p\<lparr>succeeded := succeeded p + 1\<rparr>"
| "counted (TryAgain _ _) p = p\<lparr>retryableFailure := retryableFailure p + 1\<rparr>"
| "counted (GiveUp _ _) p = p\<lparr>terminalFailure := terminalFailure p + 1\<rparr>"

lemma send_accepted: "send net d = (code, None) \<Longrightarrow> 200 \<le> code \<and> code < 300"
  by (auto simp: send_def split: sum.splits if_splits)

lemma refused_view:
  assumes "Succeed i att code now s w = (Some e, s', w')"
  shows "view s' = view s"
  using assms
  by (auto simp: Succeed_def split: sum.splits elim!: persist_cases dest: append_frame(1))

lemma refused_view_Fail:
  assumes "Fail i att code msg nxt terminal now s w = (Some e, s', w')"
  shows "view s' = view s"
  using assms
  by (auto simp: Fail_def split: sum.splits elim!: persist_cases dest: append_frame(1))

lemma deliver_cases:
  assumes "deliver net t1 t2 d p s w = (p', s', w')" "tables_ok s" "map_of (items s) (ID d) = Some d"
  obtains (refused) "p' = p\<lparr>attempts := attempts p + 1\<rparr>" "view s' = view s"
  | (kept) "p' = counted (verdict_of net d) (p\<lparr>attempts := attempts p + 1\<rparr>)" "Status d = StatusInFlight"
      "map_of (items s') = (map_of (items s))(ID d \<mapsto> recorded net (config p) t1 t2 (verdict_of net d) d)"
proof -
  obtain code err where c: "send net d = (code, err)"
    by (cases "send net d")
  show thesis
  proof (cases err)
    case None
    have code: "200 \<le> code \<and> code < 300"
      using send_accepted c None by simp
    obtain r where r: "Succeed (ID d) (Attempts d) code t1 s w = (r, s', w')"
      "p' = (if r = None then (p\<lparr>attempts := attempts p + 1\<rparr>)\<lparr>succeeded := succeeded p + 1\<rparr> else p\<lparr>attempts := attempts p + 1\<rparr>)"
      using assms(1) c None code by (auto simp: deliver_def Let_def split: prod.splits option.splits)
    show thesis
    proof (cases r)
      case None
      have "map_of (items s') = (map_of (items s))(ID d \<mapsto> succeeded_item code t1 d)" "Status d = StatusInFlight"
        using outcome_stored(1) [OF assms(2) r(1) [unfolded None]] assms(3) by auto
      then show thesis
        using c \<open>err = None\<close> r(2) None by (intro kept) (simp_all add: verdict_of_def succeeded_item_def)
    next
      case (Some e)
      then show thesis
        using refused r refused_view [OF r(1) [unfolded Some]] by simp
    qed
  next
    case (Some e)
    let ?terminal = "\<not> retryable code err \<or> MaxAttempts d \<le> Attempts d"
    let ?at = "t1 + Backoff (beyond_int64 net) (BaseBackoff (config p)) (MaxBackoff (config p)) (ID d) (Attempts d)"
    obtain r where r: "Fail (ID d) (Attempts d) code e ?at ?terminal t2 s w = (r, s', w')"
      "p' = (if r = None then counted (verdict_of net d) (p\<lparr>attempts := attempts p + 1\<rparr>) else p\<lparr>attempts := attempts p + 1\<rparr>)"
      using assms(1) c Some
      by (fastforce simp: deliver_def Let_def verdict_of_def failureMessage_def not_less split: prod.splits option.splits if_splits)
    show thesis
    proof (cases r)
      case None
      have "map_of (items s') = (map_of (items s))(ID d \<mapsto> failed_item code e ?at ?terminal t2 d)" "Status d = StatusInFlight"
        using outcome_stored(2) [OF assms(2) r(1) [unfolded None]] assms(3) by auto
      then show thesis
        using c Some r(2) None
        by (intro kept) (auto simp: verdict_of_def failed_item_def Let_def not_less not_le)
    next
      case (Some e')
      then show thesis
        using refused r refused_view_Fail [OF r(1) [unfolded Some]] by simp
    qed
  qed
qed

lemma set_headers_result:
  assumes "gomap_ok hs" "list_all header_ok hs"
  shows "map_of (set_headers hs h) = map_of h ++ map_of hs"
  using assms
proof (induction hs arbitrary: h)
  case (Cons a hs)
  have k: "canonical_header_key (fst a) = fst a"
    using Cons.prems(2) by (simp add: header_ok_def)
  have "map_of hs (fst a) = None"
    using Cons.prems(1) by (cases a) (auto simp: gomap_ok_def map_of_eq_None_iff)
  then show ?case
    using Cons.IH [of "header_set (fst a) (snd a) h"] Cons.prems k
    by (cases a) (auto simp: set_headers_def header_set_def map_simps gomap_ok_def map_add_def fun_eq_iff split: option.split)
qed (simp add: set_headers_def)

subsection \<open>Properties\<close>

text \<open>
  C22. The limit for each target holds in every reachable state of the pool, whatever the interleaving of
  workers and other clients: no more than \<open>PerTarget\<close> workers are busy with a target, \<open>activeTargets\<close> counts exactly
  those workers, and the store stays in a run, so that the crash theorems apply to it.
\<close>

theorem per_target_limit:
  assumes "pool_reach net sha y" "net_ok net"
  shows "int (busy net (workers y) key) \<le> PerTarget (config (pool y)) \<and>
    lookup_or 0 (activeTargets (pool y)) key = int (busy net (workers y) key) \<and>
    history (parse_url net) sha (journalStore y) (disk y)"
  using pool_reach_inv [OF assms] pool_history [OF assms] by (simp add: pool_inv_def slots.accounts_def)

definition example_network :: "int \<Rightarrow> network" where
  "example_network code =
     \<lparr>parse_url = example_url, unicode_lower = (\<lambda>s. s), request_error = (\<lambda>_ _. ''bad request''),
      exchange = (\<lambda>_. Inr \<lparr>rsStatus = code, rsBody = '' busy '', rsError = None\<rparr>), beyond_int64 = 0\<rparr>"

definition example_config :: WorkerConfig where
  "example_config =
     \<lparr>Concurrency = 2, PollInterval = 1, LeaseDuration = 30, BaseBackoff = 4, MaxBackoff = 64, PerTarget = 1\<rparr>"

definition example_key :: bytes where
  "example_key = targetKey (example_network 503) (TargetURL example_claim)"

lemma example_claimDue:
  "claimDue (example_network 503) 10 (newPool example_config) example_s1 example_w1 =
     (([example_claim], None), (newPool example_config)\<lparr>activeTargets := acquireTarget example_key []\<rparr>, example_s2, example_w2)"
proof -
  have c: "newPool example_config =
      \<lparr>config = example_config, attempts = 0, succeeded = 0, retryableFailure = 0, terminalFailure = 0, activeTargets = []\<rparr>"
    by (simp add: newPool_def example_config_def)
  show ?thesis
    unfolding claimDue_def c using example_Claim(1) by (simp add: lookup_or_def example_config_def example_key_def)
qed

lemma example_net_ok: "int64_range code \<Longrightarrow> net_ok (example_network code)"
  by (simp add: net_ok_def example_network_def)

theorem per_target_limit_witness:
  "\<exists>y :: system. workers y = [Sending example_claim, Idle] \<and> int (busy (example_network 503) (workers y) example_key) \<le> 1 \<and>
     lookup_or 0 (activeTargets (pool y)) example_key = int (busy (example_network 503) (workers y) example_key)"
proof -
  let ?net = "example_network 503"
  let ?y = "StartPool example_config example_s1 example_w1"
  have y: "workers ?y = [Idle, Idle]" "pool ?y = newPool example_config" "journalStore ?y = example_s1" "disk ?y = example_w1"
    by (simp_all add: StartPool_def newPool_def example_config_def numeral_eq_Suc)
  have h: "pool_reach ?net example_sha ?y"
    using example_history(2) by (intro pool_reach.start) (simp add: example_network_def)
  have "pool_step ?net example_sha ?y
      \<lparr>pool = (newPool example_config)\<lparr>activeTargets := acquireTarget example_key []\<rparr>,
       workers = (workers ?y)[0 := Sending example_claim], journalStore = example_s2, disk = example_w2\<rparr>"
    using example_claimDue example_inputs(2)
    by (intro pool_step.claim [of 0 _ _ 10 "[example_claim]" None]) (auto simp: y inputs_ok_def)
  then have r: "pool_reach ?net example_sha
      \<lparr>pool = (newPool example_config)\<lparr>activeTargets := acquireTarget example_key []\<rparr>,
       workers = [Sending example_claim, Idle], journalStore = example_s2, disk = example_w2\<rparr>"
    using h y pool_reach.step by fastforce
  have n: "net_ok ?net"
    by (rule example_net_ok) (simp add: int64_range_def)
  show ?thesis
    using per_target_limit [OF r n, of example_key]
    by (intro exI [of _ "\<lparr>pool = (newPool example_config)\<lparr>activeTargets := acquireTarget example_key []\<rparr>,
       workers = [Sending example_claim, Idle], journalStore = example_s2, disk = example_w2\<rparr>"])
      (simp add: newPool_def example_config_def)
qed

text \<open>
  C23. What an attempt does. Sending a claimed delivery either changes nothing that is stored (the report was refused: the
  lease is no longer current, or the journal cannot be written), or the delivery was in flight and becomes: succeeded after
  a 2xx response that was read; pending again, at the backoff's time, after a failure that may be retried with attempts
  left; failed otherwise. No other delivery changes, and exactly the counter of that verdict goes up.
\<close>

theorem attempt_outcome:
  assumes "deliver net t1 t2 d p s w = (p', s', w')" "tables_ok s" "map_of (items s) (ID d) = Some d"
  shows "(p' = p\<lparr>attempts := attempts p + 1\<rparr> \<and> map_of (items s') = map_of (items s)) \<or>
    (p' = counted (verdict_of net d) (p\<lparr>attempts := attempts p + 1\<rparr>) \<and> Status d = StatusInFlight \<and>
     map_of (items s') = (map_of (items s))(ID d \<mapsto> recorded net (config p) t1 t2 (verdict_of net d) d))"
  using assms
proof (cases rule: deliver_cases)
  case refused
  then show ?thesis
    using items_cong(1) by metis
qed simp

lemma example_send: "send (example_network 503) example_claim = (503, Some ''HTTP 503: busy'')"
proof -
  have u: "newRequest (example_network 503) (Method example_claim) (TargetURL example_claim) (Body example_claim) \<noteq> Inl e" for e
    by (simp add: newRequest_def example_network_def example_claim_def claim_item_def example_delivery_def Let_def)
      (simp add: example_url_def token_byte_def is_upper_def is_lower_def is_digit_def split: option.split)
  then obtain rq where rq: "newRequest (example_network 503) (Method example_claim) (TargetURL example_claim) (Body example_claim) = Inr rq"
    by (cases "newRequest (example_network 503) (Method example_claim) (TargetURL example_claim) (Body example_claim)") auto
  have "trim_space '' busy '' = ''busy''" "show_int 503 = ''503''"
    by code_simp+
  then show ?thesis
    unfolding send_def rq by (simp add: example_network_def read_limited_def)
qed

theorem attempt_outcome_witness:
  "let r = deliver (example_network 503) 11 12 example_claim (newPool example_config) example_s2 example_w2;
       again = recorded (example_network 503) example_config 11 12 (TryAgain 503 ''HTTP 503: busy'') example_claim
   in Status again = StatusPending \<and> map_of (items (fst (snd r))) example_id \<in> {Some example_claim, Some again}"
proof -
  have "tables_ok example_s2"
    using history_ok [OF example_history(3)] by (simp add: durable_def)
  moreover have "map_of (items example_s2) (ID example_claim) = Some example_claim"
    by (simp add: example_s2_simps example_later_simps)
  moreover have "verdict_of (example_network 503) example_claim = TryAgain 503 ''HTTP 503: busy''"
    by (simp add: verdict_of_def example_send retryable_def retryableStatus_def)
      (simp add: example_claim_def claim_item_def example_delivery_def)
  moreover have "config (newPool example_config) = example_config"
    by (simp add: newPool_def example_config_def)
  ultimately show ?thesis
    using attempt_outcome [of "example_network 503" 11 12 example_claim "newPool example_config" example_s2 example_w2]
    by (cases "deliver (example_network 503) 11 12 example_claim (newPool example_config) example_s2 example_w2")
      (auto simp: Let_def example_later_simps)
qed

text \<open>
  The headers of a request: those of the delivery, with the worker's own identifier and attempt number, which no
  stored header can replace, and a content type by the validity of the body as JSON where the delivery has a body
  and no content type of its own.
\<close>

theorem request_headers:
  assumes "gomap_ok (Headers d)" "list_all header_ok (Headers d)"
  shows "map_of (delivery_headers d) k =
    (if k = ''X-Spoold-Attempt'' then Some (show_int (Attempts d))
     else if k = ''X-Spoold-Delivery-Id'' then Some (ID d)
     else if k = ''Content-Type'' \<and> Body d \<noteq> [] \<and> lookup_or [] (Headers d) k = []
       then Some (if json_valid (Body d) then ''application/json'' else ''application/octet-stream'')
     else map_of (Headers d) k)"
proof -
  have c: "canonical_header_key ''Content-Type'' = ''Content-Type''"
    "canonical_header_key ''X-Spoold-Attempt'' = ''X-Spoold-Attempt''"
    "canonical_header_key ''X-Spoold-Delivery-ID'' = ''X-Spoold-Delivery-Id''"
    by code_simp+
  have "map_of (set_headers (Headers d) []) = map_of (Headers d)"
    using set_headers_result [OF assms, of "[]"] by simp
  then show ?thesis
    by (auto simp: delivery_headers_def Let_def header_set_def header_get_def c map_simps lookup_or_def split: option.split)
qed

theorem request_headers_witness:
  "map_of (delivery_headers example_claim) ''Content-Type'' = Some ''application/json'' \<and>
   map_of (delivery_headers example_claim) ''X-Spoold-Attempt'' = Some (show_int 1)"
proof -
  have h: "Headers example_claim = [(''X-Trace'', ''7''), (''Accept'', ''text'')]" "Body example_claim = ''[1, 2]''" "Attempts example_claim = 1"
    by (simp_all add: example_claim_def claim_item_def example_delivery_def)
  have ok: "gomap_ok (Headers example_claim)" "list_all header_ok (Headers example_claim)"
    unfolding h by (simp add: gomap_ok_def) code_simp
  have "json_valid ''[1, 2]''"
    by code_simp
  then show ?thesis
    using request_headers [OF ok, of "''Content-Type''"] request_headers [OF ok, of "''X-Spoold-Attempt''"]
    by (simp add: h lookup_or_def)
qed

end
