(* ===== verification/Utf8.thy ===== *)
theory Utf8
  imports JsonText GoText
begin

section \<open>What a JSON decoder returns is UTF-8\<close>

text \<open>
  The strings that \<open>json_unquote\<close> yields are UTF-8 whatever the input was, and trimming white
  space keeps UTF-8: so a key that arrives in a request can be written to the journal
  and read back unchanged.
\<close>

subsection \<open>Characters\<close>

definition piece :: "bytes \<Rightarrow> bool" where
  "piece r \<longleftrightarrow> is_rune r \<or> (\<exists>c. r = [c] \<and> bval c < 128)"

lemma is_utf8_Nil [simp]: "is_utf8 []"
  by (simp add: is_utf8_def)

lemma is_utf8_piece: "piece r \<Longrightarrow> is_utf8 (r @ t) \<longleftrightarrow> is_utf8 t"
  by (auto simp: piece_def is_utf8_def)

lemma piece_nonempty: "piece r \<Longrightarrow> r \<noteq> []"
  using rune_bytes(3) by (auto simp: piece_def)

lemma piece_head: "piece r \<Longrightarrow> \<not> continuation (hd r)"
  by (cases r) (auto simp: piece_def is_rune_def continuation_def rune_len_def split: if_splits)

text \<open>A character at the start of a longer text is whole if the text is.\<close>

lemma utf8_head:
  assumes "is_utf8 (c # cs)"
  obtains r t where "piece r" "c # cs = r @ t" "is_utf8 t"
proof (cases "bval c < 128")
  case True
  then show thesis
    using assms by (intro that [of "[c]" cs]) (auto simp: piece_def is_utf8_def)
next
  case False
  then have "128 \<le> bval c"
    by simp
  then show thesis
  proof (cases rule: rune_cases [of c cs])
    case bad
    then have "c # cs = replacement @ valid_utf8 cs"
      using assms by (simp add: is_utf8_def)
    then have "rune_len (c # cs) = length replacement"
      using rune_len_rune [OF is_rune_replacement] by simp
    with bad show thesis
      by (simp add: replacement_def)
  next
    case (rune r t)
    then show thesis
      using assms is_utf8_piece [of r t] by (intro that [of r t]) (auto simp: piece_def)
  qed
qed

lemma utf8_induct [consumes 1, case_names Nil piece]:
  assumes "is_utf8 s" "P []" "\<And>r t. piece r \<Longrightarrow> is_utf8 t \<Longrightarrow> P t \<Longrightarrow> P (r @ t)"
  shows "P s"
  using assms(1)
proof (induction s rule: length_induct)
  case (1 s)
  show ?case
  proof (cases s)
    case (Cons c cs)
    obtain r t where r: "piece r" "s = r @ t" "is_utf8 t"
      using utf8_head [of c cs] 1 Cons by metis
    then have "P t"
      using 1 piece_nonempty [OF r(1)] by auto
    then show ?thesis
      using assms(3) r by simp
  qed (simp add: assms(2))
qed

lemma is_utf8_append: "is_utf8 s \<Longrightarrow> is_utf8 t \<Longrightarrow> is_utf8 (s @ t)"
  by (induction s rule: utf8_induct) (simp_all add: is_utf8_piece)

lemma piece_split:
  assumes "piece r" "r @ t = a @ b" "length a < length r" "a \<noteq> []" "b \<noteq> []"
  shows "continuation (hd b)"
proof -
  obtain u where u: "r = a @ u" "u @ t = b"
    using assms(2,3) by (auto simp: append_eq_append_conv2)
  then obtain x xs where x: "u = x # xs"
    using assms(3) by (cases u) auto
  then have "x \<in> set (tl r)" "2 \<le> length r" "hd b = x"
    using u assms(4) by (cases a; auto)+
  then show ?thesis
    using assms(1) rune_bytes(2) by (auto simp: piece_def)
qed

lemma utf8_drop_last:
  assumes "is_utf8 (s @ p)" "piece p"
  shows "is_utf8 s"
  using assms(1)
proof (induction s rule: length_induct)
  case (1 s)
  show ?case
  proof (cases s)
    case (Cons c cs)
    obtain r t where r: "piece r" "s @ p = r @ t" "is_utf8 t"
      using utf8_head [of c "cs @ p"] 1 Cons by (metis append_Cons)
    have "length r \<le> length s"
    proof (rule ccontr)
      assume "\<not> length r \<le> length s"
      then show False
        using piece_split [OF r(1) r(2) [symmetric]] piece_head [OF assms(2)] piece_nonempty [OF assms(2)] Cons by simp
    qed
    then obtain u where u: "s = r @ u" "t = u @ p"
      using r(2) by (auto simp: append_eq_append_conv2)
    then show ?thesis
      using 1 r piece_nonempty [OF r(1)] by (auto simp: is_utf8_piece)
  qed simp
qed

subsection \<open>Trimming\<close>

lemma spaces_pieces: "w \<in> set spaces2 \<Longrightarrow> piece w" "w \<in> set spaces3 \<Longrightarrow> piece w" "c \<in> set ascii_spaces \<Longrightarrow> piece [c]"
proof -
  have "list_all is_rune spaces2" "list_all is_rune spaces3" "list_all (\<lambda>c. bval c < 128) ascii_spaces"
    by code_simp+
  then show "w \<in> set spaces2 \<Longrightarrow> piece w" "w \<in> set spaces3 \<Longrightarrow> piece w" "c \<in> set ascii_spaces \<Longrightarrow> piece [c]"
    by (auto simp: list_all_iff piece_def)
qed

lemma space_prefix_piece: "space_prefix s \<noteq> 0 \<Longrightarrow> piece (take (space_prefix s) s)"
  by (auto simp: space_prefix_def spaces_pieces simp del: take_Suc_Cons split: list.splits if_splits)
    (auto simp: spaces_pieces)

lemma space_suffix_piece: "space_suffix s \<noteq> 0 \<Longrightarrow> piece (rev (take (space_suffix s) s))"
  by (auto simp: space_suffix_def spaces_pieces simp del: take_Suc_Cons split: list.splits if_splits)
    (auto simp: spaces_pieces)

lemma is_utf8_trim_left: "is_utf8 s \<Longrightarrow> is_utf8 (trim_left s)"
proof (induction s rule: trim_left.induct)
  case (1 s)
  show ?case
  proof (cases "space_prefix s = 0")
    case False
    then have "is_utf8 (drop (space_prefix s) s)"
      using 1(2) is_utf8_piece [OF space_prefix_piece [of s]] by (metis append_take_drop_id)
    then show ?thesis
      using 1 False by (metis trim_left.simps)
  qed (simp add: 1 trim_left_fixed)
qed

lemma is_utf8_trim_rev: "is_utf8 (rev s) \<Longrightarrow> is_utf8 (rev (trim_rev s))"
proof (induction s rule: trim_rev.induct)
  case (1 s)
  show ?case
  proof (cases "space_suffix s = 0")
    case False
    have "rev s = rev (drop (space_suffix s) s) @ rev (take (space_suffix s) s)"
      by (metis append_take_drop_id rev_append)
    then have "is_utf8 (rev (drop (space_suffix s) s))"
      using 1(2) utf8_drop_last space_suffix_piece [OF False] by metis
    then show ?thesis
      using 1 False by (metis trim_rev.simps)
  qed (simp add: 1 trim_rev_fixed)
qed

lemma is_utf8_trim_space: "is_utf8 s \<Longrightarrow> is_utf8 (trim_space s)"
  unfolding trim_space_def by (intro is_utf8_trim_rev) (simp add: is_utf8_trim_left)

subsection \<open>Unquoting\<close>

lemma char_of_bval: "n < 256 \<Longrightarrow> bval (char_of n) = n"
  by simp

lemma piece_encode_rune:
  assumes "r < 55296 \<or> 57344 \<le> r" "r < 1114112"
  shows "piece (encode_rune r)"
proof -
  consider "r < 128" | "128 \<le> r" "r < 2048" | "2048 \<le> r" "r < 65536" | "65536 \<le> r"
    by linarith
  then show ?thesis
  proof cases
    case 1
    then show ?thesis
      by (simp add: encode_rune_def piece_def)
  next
    case 2
    then have "r div 64 < 32" "2 \<le> r div 64"
      by (simp_all add: less_mult_imp_div_less div_le_mono [of 128 r 64, simplified])
    then show ?thesis
      using 2 by (simp add: encode_rune_def piece_def is_rune_def rune_len_def second_ok_def continuation_def)
  next
    case 3
    have a: "r div 4096 < 16"
      using 3 by (simp add: less_mult_imp_div_less)
    have b: "r div 64 mod 64 < 64"
      by simp
    have c: "32 \<le> r div 64 mod 64" if "r div 4096 = 0"
    proof -
      have "r < 4096"
        using that by (simp add: div_eq_0_iff)
      then have "r div 64 < 64"
        by (simp add: less_mult_imp_div_less)
      then show ?thesis
        using 3(1) div_le_mono [of 2048 r 64] by simp
    qed
    have d: "r div 64 mod 64 < 32" if "r div 4096 = 13"
    proof -
      have "r < 57344"
        using that div_le_mono [of 57344 r 4096] by linarith
      then have "r < 55296" "r div 64 div 64 = 13"
        using assms(1) that by (simp_all flip: div_mult2_eq)
      then have "r div 64 < 864"
        by (simp add: less_mult_imp_div_less)
      then show ?thesis
        using \<open>r div 64 div 64 = 13\<close> mod_div_mult_eq [of "r div 64" 64] by simp
    qed
    have e: "r div 64 < 64" if "r div 4096 = 0"
      using that by (simp add: div_eq_0_iff less_mult_imp_div_less)
    show ?thesis
      using 3 a b c d e by (simp add: encode_rune_def piece_def is_rune_def rune_len_def second_ok_def continuation_def)
  next
    case 4
    have a: "r div 262144 < 5"
      using assms(2) by (simp add: less_mult_imp_div_less)
    have b: "r div 4096 mod 64 < 64" "r div 64 mod 64 < 64"
      by simp_all
    have c: "16 \<le> r div 4096 mod 64" if "r div 262144 = 0"
    proof -
      have "r div 4096 < 64"
        using that by (simp add: div_eq_0_iff less_mult_imp_div_less)
      then show ?thesis
        using 4 div_le_mono [of 65536 r 4096] by simp
    qed
    have d: "r div 4096 mod 64 < 16" if "r div 262144 = 4"
    proof -
      have "r div 4096 < 272" "r div 4096 div 64 = 4"
        using assms(2) that by (simp_all add: less_mult_imp_div_less flip: div_mult2_eq)
      then show ?thesis
        using mod_div_mult_eq [of "r div 4096" 64] by simp
    qed
    have e: "r div 4096 < 64" if "r div 262144 = 0"
      using that by (simp add: div_eq_0_iff less_mult_imp_div_less)
    show ?thesis
      using 4 a b c d e by (simp add: encode_rune_def piece_def is_rune_def rune_len_def second_ok_def continuation_def)
  qed
qed

lemma hex_val_bound: "hex_val c = Some i \<Longrightarrow> i < 16"
  by (auto simp: hex_val_def is_digit_def split: if_splits)

lemma hex4_bound:
  assumes "hex4 s = Some r"
  shows "r < 65536"
  using assms by (cases s rule: hex4.cases) (auto split: option.splits dest!: hex_val_bound)

lemma surrogate_bound: "surrogate_pair r s = Some r' \<Longrightarrow> 65536 \<le> r' \<and> r' < 1114112"
  by (auto simp: surrogate_pair_def split: list.splits if_splits option.splits)

lemma simple_escape_ascii: "simple_escape d = Some x \<Longrightarrow> bval x < 128"
  by (auto simp: simple_escape_def split: if_splits)

lemma piece_replacement: "piece replacement"
  by (simp add: piece_def is_rune_replacement)

text \<open>One step of the decoder: a character, then the rest.\<close>

lemma unquote_step:
  assumes "unquote_from s = Some t" "s \<noteq> []"
  obtains p k t' where "piece p" "0 < k" "unquote_from (drop k s) = Some t'" "t = p @ t'"
proof -
  obtain c cs where s: "s = c # cs"
    using assms(2) by (cases s) auto
  show thesis
  proof (cases "c = CHR 0x5C")
    case False
    show thesis
    proof (cases "rune_len s = 0")
      case True
      then show thesis
        using assms(1) s False piece_replacement
        by (subst (asm) unquote_from.simps) (auto split: if_splits intro!: that [of replacement 1])
    next
      case nz: False
      have p: "piece (take (rune_len s) s)"
      proof (cases "bval c < 128")
        case True
        then show ?thesis
          using s by (simp add: piece_def)
      next
        case False
        then have "128 \<le> bval c"
          by simp
        then show ?thesis
          by (cases rule: rune_cases [of c cs]) (use nz s in \<open>auto simp: piece_def\<close>)
      qed
      show thesis
        using assms(1) s False nz p
        by (subst (asm) unquote_from.simps) (auto split: if_splits intro!: that [of "take (rune_len s) s" "rune_len s"])
    qed
  next
    case True
    then obtain d ds where cs: "cs = d # ds"
      using assms(1) s by (subst (asm) unquote_from.simps) (cases cs; simp)
    show thesis
    proof (cases "d = CHR ''u''")
      case False
      then show thesis
        using assms(1) s True cs
        by (subst (asm) unquote_from.simps)
          (auto split: option.splits dest: simple_escape_ascii simp: piece_def intro!: that [of "[_]" 2])
    next
      case u: True
      then obtain r where r: "hex4 ds = Some r"
        using assms(1) s True cs by (subst (asm) unquote_from.simps) (auto split: option.splits)
      show thesis
      proof (cases "55296 \<le> r \<and> r < 57344")
        case False
        then have "unquote_from s = map_option ((@) (encode_rune r)) (unquote_from (drop 4 ds))"
          using s cs True u r by (subst unquote_from.simps) (auto split: option.splits)
        then show thesis
          using assms(1) s cs False hex4_bound [OF r]
          by (auto intro!: that [of "encode_rune r" 6] piece_encode_rune)
      next
        case sur: True
        show thesis
        proof (cases "surrogate_pair r (drop 4 ds)")
          case None
          then have "unquote_from s = map_option ((@) replacement) (unquote_from (drop 4 ds))"
            using s cs True u r sur by (subst unquote_from.simps) (auto split: option.splits)
          then show thesis
            using assms(1) s cs piece_replacement by (auto intro!: that [of replacement 6])
        next
          case (Some r')
          then have "unquote_from s = map_option ((@) (encode_rune r')) (unquote_from (drop 10 ds))"
            using s cs True u r sur by (subst unquote_from.simps) (auto split: option.splits)
          then show thesis
            using assms(1) s cs surrogate_bound [OF Some]
            by (auto intro!: that [of "encode_rune r'" 12] piece_encode_rune)
        qed
      qed
    qed
  qed
qed

lemma unquote_utf8: "unquote_from s = Some t \<Longrightarrow> is_utf8 t"
proof (induction s arbitrary: t rule: length_induct)
  case (1 s)
  show ?case
  proof (cases "s = []")
    case False
    with 1(2) obtain p k t' where "piece p" "0 < k" "unquote_from (drop k s) = Some t'" "t = p @ t'"
      by (rule unquote_step)
    moreover from this have "length (drop k s) < length s"
      using False by simp
    ultimately show ?thesis
      using 1(1) is_utf8_piece by blast
  qed (use 1(2) in simp)
qed

lemma json_unquote_utf8: "json_unquote s = Some t \<Longrightarrow> is_utf8 t"
  by (auto simp: json_unquote_def unquote_utf8 split: if_splits)

end
