(* ===== verification/Api.thy ===== *)
theory Api
  imports Worker Compactor Utf8 ErrorState
begin

section \<open>The HTTP interface: \<open>internal/api\<close>\<close>

text \<open>
  The handlers over the store. A request is its method, the decoded segments of its path, its
  query and its body; a response is a status, headers and a body. A handler is a function
  from request, store and world to response, store and world, with the reading of the clock, the random bytes
  of a new identifier, and \<open>texts\<close>, the text of the errors whose wording is left to the
  standard library. The bodies are the bytes that \<open>json.Encoder\<close> writes. The access log is left out,
  but what it reports, the recorded status, is modelled.
\<close>

record api_request =
  apiMethod :: bytes
  apiSegments :: "bytes list"
  apiQuery :: "bytes \<Rightarrow> bytes"
  apiBody :: bytes

record api_response =
  apiStatus :: int
  apiHeader :: header
  apiData :: bytes

record createRequest =
  crIdempotencyKey :: bytes
  crTargetURL :: bytes
  crMethod :: bytes
  crHeaders :: "(bytes, bytes) gomap"
  crBody :: bytes
  crBodyBase64 :: "bytes option"
  crMaxAttempts :: int

definition maxRequestBody :: nat where
  "maxRequestBody = 2 * 2 ^ 20"

subsection \<open>Responses\<close>

text \<open>\<open>json.NewEncoder(w).Encode\<close>: the text and a newline, or nothing if the value cannot be encoded.\<close>

definition encoded :: "bytes option \<Rightarrow> bytes" where
  "encoded t = (case t of None \<Rightarrow> [] | Some s \<Rightarrow> s @ [CHR 0x0A])"

definition delivery_json :: "Delivery \<Rightarrow> bytes option" where
  "delivery_json d = Option.bind (MarshalJSON d) json_compact"

definition array_of :: "bytes list \<Rightarrow> bytes" where
  "array_of xs = CHR ''['' # comma_join xs @ [CHR '']'']"

definition writeJSON :: "header \<Rightarrow> int \<Rightarrow> bytes option \<Rightarrow> api_response" where
  "writeJSON h status t =
     \<lparr>apiStatus = status, apiHeader = header_set ''Content-Type'' ''application/json'' h, apiData = encoded t\<rparr>"

definition errorResponse :: "bytes \<Rightarrow> bytes \<Rightarrow> bytes" where
  "errorResponse code message =
     object_of [(''error'', object_of [(''code'', json_string code), (''message'', json_string message)])]"

definition writeError :: "int \<Rightarrow> bytes \<Rightarrow> bytes \<Rightarrow> api_response" where
  "writeError status code message = writeJSON [] status (Some (errorResponse code message))"

definition error_text :: "(store_error \<Rightarrow> bytes) \<Rightarrow> store_error \<Rightarrow> bytes" where
  "error_text texts e =
     (case e of
        ErrNotFound \<Rightarrow> ''delivery not found''
      | ErrIdempotencyConflict \<Rightarrow> ''idempotency key was already used for a different request''
      | ErrInvalidTransition \<Rightarrow> ''invalid delivery state transition''
      | ErrJournalFull \<Rightarrow> ''journal admission limit reached''
      | _ \<Rightarrow> texts e)"

definition writeStoreError :: "(store_error \<Rightarrow> bytes) \<Rightarrow> store_error \<Rightarrow> api_response" where
  "writeStoreError texts e =
     (if e = ErrNotFound then writeError 404 ''not_found'' (error_text texts e)
      else if e = ErrInvalidTransition then writeError 409 ''invalid_transition'' (error_text texts e)
      else writeError 500 ''internal_error'' ''delivery state could not be updated'')"

subsection \<open>Decoding a request\<close>

text \<open>
  The struct that is filled, member by member; unlike in the journal, an unknown name is an
  error. A body over the limit is an error as well, even if only what follows the
  object is too much; so is anything but space after the object.
\<close>

definition zero_create :: createRequest where
  "zero_create =
     \<lparr>crIdempotencyKey = [], crTargetURL = [], crMethod = [], crHeaders = [], crBody = [], crBodyBase64 = None,
      crMaxAttempts = 0\<rparr>"

definition create_field :: "bytes \<times> bytes \<Rightarrow> createRequest \<Rightarrow> createRequest option" where
  "create_field m r =
     (case m of (k, v) \<Rightarrow>
        if named ''idempotencyKey'' k then map_option (\<lambda>x. r\<lparr>crIdempotencyKey := x\<rparr>) (read_string (crIdempotencyKey r) v)
        else if named ''targetUrl'' k then map_option (\<lambda>x. r\<lparr>crTargetURL := x\<rparr>) (read_string (crTargetURL r) v)
        else if named ''method'' k then map_option (\<lambda>x. r\<lparr>crMethod := x\<rparr>) (read_string (crMethod r) v)
        else if named ''headers'' k then map_option (\<lambda>x. r\<lparr>crHeaders := x\<rparr>) (read_headers (crHeaders r) v)
        else if named ''body'' k then Some (r\<lparr>crBody := v\<rparr>)
        else if named ''bodyBase64'' k then
          (if v = null_text then Some (r\<lparr>crBodyBase64 := None\<rparr>)
           else map_option (\<lambda>x. r\<lparr>crBodyBase64 := Some x\<rparr>) (json_unquote v))
        else if named ''maxAttempts'' k then map_option (\<lambda>x. r\<lparr>crMaxAttempts := x\<rparr>) (json_int (crMaxAttempts r) v)
        else None)"

definition decodeJSON :: "bytes \<Rightarrow> createRequest option" where
  "decodeJSON data =
     (if maxRequestBody < length data then None else read_struct create_field zero_create data)"

datatype body_error = BothBodies | BadBase64

definition requestBody :: "createRequest \<Rightarrow> body_error + bytes" where
  "requestBody payload =
     (if 0 < length (crBody payload) \<and> crBodyBase64 payload \<noteq> None then Inl BothBodies
      else case crBodyBase64 payload of
        None \<Rightarrow> Inr (crBody payload)
      | Some t \<Rightarrow> (case b64_decode t of None \<Rightarrow> Inl BadBase64 | Some b \<Rightarrow> Inr b))"

definition body_error_text :: "body_error \<Rightarrow> bytes" where
  "body_error_text e =
     (case e of
        BothBodies \<Rightarrow> ''body and bodyBase64 cannot be used together''
      | BadBase64 \<Rightarrow> ''bodyBase64 must contain valid standard base64'')"

definition create_request_of :: "createRequest \<Rightarrow> bytes \<Rightarrow> CreateRequest" where
  "create_request_of payload body =
     \<lparr>reqIdempotencyKey = crIdempotencyKey payload, reqTargetURL = crTargetURL payload, reqMethod = crMethod payload,
      reqHeaders = crHeaders payload, reqBody = body, reqMaxAttempts = crMaxAttempts payload\<rparr>"

subsection \<open>The handlers\<close>

text \<open>What a handler is given besides the request: the parser of URLs, the hash, the texts, the random bytes and the time.\<close>

record environment =
  env_url :: "bytes \<Rightarrow> url option"
  env_sha :: "bytes \<Rightarrow> bytes"
  env_texts :: "store_error \<Rightarrow> bytes"
  env_decode_text :: "bytes \<Rightarrow> bytes"
  env_random :: "bytes option"
  env_now :: int
  env_metrics :: "Metrics option"

definition create_error :: "(store_error \<Rightarrow> bytes) \<Rightarrow> store_error \<Rightarrow> api_response" where
  "create_error texts e =
     (if e = ErrIdempotencyConflict then writeError 409 ''idempotency_conflict'' (error_text texts e)
      else if is_persistence e then writeError 500 ''persistence_failed'' ''delivery could not be persisted''
      else if e = ErrJournalFull then writeError 507 ''journal_full'' ''journal admission limit reached''
      else writeError 400 ''invalid_delivery'' (error_text texts e))"

definition api_create :: "environment \<Rightarrow> api_request \<Rightarrow> Store \<Rightarrow> world \<Rightarrow> api_response \<times> Store \<times> world" where
  "api_create env r s w =
     (case decodeJSON (apiBody r) of
        None \<Rightarrow> (writeError 400 ''invalid_request'' (env_decode_text env (apiBody r)), s, w)
      | Some payload \<Rightarrow>
          (case requestBody payload of
             Inl e \<Rightarrow> (writeError 400 ''invalid_request'' (body_error_text e), s, w)
           | Inr body \<Rightarrow>
               (case Create (env_url env) (env_sha env) (env_random env) (create_request_of payload body) (env_now env) s w of
                  (Inl e, s', w') \<Rightarrow> (create_error (env_texts env) e, s', w')
                | (Inr (item, created), s', w') \<Rightarrow>
                    (writeJSON (header_set ''Location'' (''/v1/deliveries/'' @ ID item) [])
                       (if created then 201 else 200) (delivery_json item), s', w'))))"

definition validStatus :: "Status \<Rightarrow> bool" where
  "validStatus st \<longleftrightarrow>
     st = StatusPending \<or> st = StatusInFlight \<or> st = StatusSucceeded \<or> st = StatusFailed \<or> st = StatusCanceled"

definition atoi :: "bytes \<Rightarrow> int option" where
  "atoi s = (if s \<noteq> [] \<and> hd s = CHR ''+'' then (if tl s \<noteq> [] \<and> hd (tl s) = CHR ''-'' then None else parse_int64 (tl s)) else parse_int64 s)"

definition redacted :: "Delivery \<Rightarrow> Delivery" where
  "redacted d = d\<lparr>Headers := [], Body := []\<rparr>"

definition list_limit :: "bytes \<Rightarrow> int option" where
  "list_limit raw =
     (if raw = [] then Some 100
      else case atoi raw of
        None \<Rightarrow> None
      | Some n \<Rightarrow> if n < 1 \<or> 500 < n then None else Some n)"

definition listed :: "Status \<Rightarrow> int \<Rightarrow> 'a tables_scheme \<Rightarrow> Delivery list" where
  "listed st limit s = List.map redacted (take (nat limit) (ListDeliveries st s))"

definition list_json :: "Delivery list \<Rightarrow> bytes option" where
  "list_json ds =
     map_option (\<lambda>ts. object_of [(''count'', show_int (int (length ds))), (''deliveries'', array_of ts)])
       (those (List.map delivery_json ds))"

definition api_list :: "api_request \<Rightarrow> Store \<Rightarrow> api_response" where
  "api_list r s =
     (let status = apiQuery r ''status''
      in if status \<noteq> [] \<and> \<not> validStatus status then writeError 400 ''invalid_status'' ''unknown delivery status''
         else case list_limit (apiQuery r ''limit'') of
           None \<Rightarrow> writeError 400 ''invalid_limit'' ''limit must be between 1 and 500''
         | Some limit \<Rightarrow> writeJSON [] 200 (list_json (listed status limit s)))"

definition api_get :: "environment \<Rightarrow> bytes \<Rightarrow> Store \<Rightarrow> api_response" where
  "api_get env i s =
     (case Get i s of
        Inl e \<Rightarrow> writeStoreError (env_texts env) e
      | Inr item \<Rightarrow> writeJSON [] 200 (delivery_json item))"

definition store_result :: "environment \<Rightarrow> (store_error + Delivery) \<times> Store \<times> world \<Rightarrow> api_response \<times> Store \<times> world" where
  "store_result env x =
     (case x of
        (Inl e, s, w) \<Rightarrow> (writeStoreError (env_texts env) e, s, w)
      | (Inr item, s, w) \<Rightarrow> (writeJSON [] 200 (delivery_json item), s, w))"

definition api_cancel :: "environment \<Rightarrow> bytes \<Rightarrow> Store \<Rightarrow> world \<Rightarrow> api_response \<times> Store \<times> world" where
  "api_cancel env i s w = store_result env (Cancel i (env_now env) s w)"

definition api_retry :: "environment \<Rightarrow> bytes \<Rightarrow> Store \<Rightarrow> world \<Rightarrow> api_response \<times> Store \<times> world" where
  "api_retry env i s w = store_result env (Retry i (env_now env) s w)"

definition ok_json :: bytes where
  "ok_json = object_of [(''status'', json_string ''ok'')]"

definition api_health :: api_response where
  "api_health = writeJSON [] 200 (Some ok_json)"

definition api_ready :: "Store \<Rightarrow> world \<Rightarrow> api_response \<times> world" where
  "api_ready s w =
     (case Ready s w of
        (Some e, w') \<Rightarrow> (writeError 503 ''not_ready'' ''journal persistence is unavailable'', w')
      | (None, w') \<Rightarrow> (writeJSON [] 200 (Some ok_json), w'))"

text \<open>The text of \<open>/metrics\<close>, line by line. \<open>%q\<close> of a status only adds the quotes.\<close>

definition metric_head :: "bytes \<Rightarrow> bytes \<Rightarrow> bytes \<Rightarrow> bytes list" where
  "metric_head name help kind = [''# HELP '' @ name @ '' '' @ help, ''# TYPE '' @ name @ '' '' @ kind]"

definition metric_value :: "bytes \<Rightarrow> int \<Rightarrow> bytes" where
  "metric_value name v = name @ '' '' @ show_int v"

definition labelled :: "bytes \<Rightarrow> bytes \<Rightarrow> bytes \<Rightarrow> bytes" where
  "labelled name label v = name @ ''{'' @ label @ ''='' @ [CHR 0x22] @ v @ [CHR 0x22] @ ''}''"

definition metric_lines :: "(Status, int) gomap \<Rightarrow> Stats \<Rightarrow> Metrics \<Rightarrow> bytes list" where
  "metric_lines counts j m =
     metric_head ''spoold_deliveries'' ''Current deliveries by status.'' ''gauge'' @
     List.map (\<lambda>st. metric_value (labelled ''spoold_deliveries'' ''status'' st) (lookup_or 0 counts st))
       [StatusPending, StatusInFlight, StatusSucceeded, StatusFailed, StatusCanceled] @
     metric_head ''spoold_delivery_attempts_total'' ''Outbound delivery attempts.'' ''counter'' @
     [metric_value ''spoold_delivery_attempts_total'' (uint (metricAttempts m))] @
     metric_head ''spoold_delivery_results_total'' ''Recorded delivery results.'' ''counter'' @
     [metric_value (labelled ''spoold_delivery_results_total'' ''result'' ''succeeded'') (uint (metricSucceeded m)),
      metric_value (labelled ''spoold_delivery_results_total'' ''result'' ''retryable_failure'') (uint (metricRetryableFailure m)),
      metric_value (labelled ''spoold_delivery_results_total'' ''result'' ''terminal_failure'') (uint (metricTerminalFailure m))] @
     metric_head ''spoold_journal_size_bytes'' ''Current journal file size in bytes.'' ''gauge'' @
     [metric_value ''spoold_journal_size_bytes'' (JournalSizeBytes j)] @
     metric_head ''spoold_journal_records'' ''Current physical journal record count.'' ''gauge'' @
     [metric_value ''spoold_journal_records'' (uint (JournalRecords j))] @
     metric_head ''spoold_journal_max_bytes'' ''Configured journal admission limit in bytes; zero is unlimited.'' ''gauge'' @
     [metric_value ''spoold_journal_max_bytes'' (MaxJournalBytes j)] @
     metric_head ''spoold_journal_pruned_deliveries_total'' ''Terminal deliveries removed by retention.'' ''counter'' @
     [metric_value ''spoold_journal_pruned_deliveries_total'' (uint (PrunedDeliveries j))] @
     metric_head ''spoold_journal_compactions_total'' ''Journal compaction attempts by result.'' ''counter'' @
     [metric_value (labelled ''spoold_journal_compactions_total'' ''result'' ''succeeded'') (uint (CompactionsSucceeded j)),
      metric_value (labelled ''spoold_journal_compactions_total'' ''result'' ''failed'') (uint (CompactionsFailed j))]"

definition zero_metrics :: Metrics where
  "zero_metrics = \<lparr>metricAttempts = 0, metricSucceeded = 0, metricRetryableFailure = 0, metricTerminalFailure = 0\<rparr>"

definition renderMetrics :: "environment \<Rightarrow> Store \<Rightarrow> world \<Rightarrow> api_response \<times> world" where
  "renderMetrics env s w =
     (case StatsOf s w of (j, w') \<Rightarrow>
        (\<lparr>apiStatus = 200, apiHeader = header_set ''Content-Type'' ''text/plain; version=0.0.4'' [],
          apiData = concat (List.map (\<lambda>l. l @ [CHR 0x0A])
            (metric_lines (Counts s) j (case env_metrics env of None \<Rightarrow> zero_metrics | Some m \<Rightarrow> m)))\<rparr>, w'))"

subsection \<open>Routing\<close>

datatype endpoint =
    Health | ReadyCheck | MetricsPage | CreateDelivery | ListPage
  | GetDelivery bytes | CancelDelivery bytes | RetryDelivery bytes

text \<open>
  The patterns of \<open>New\<close>. A pattern for \<open>GET\<close> takes \<open>HEAD\<close> as well; everything else is answered by
  the library with 404 or 405, which is None here.
\<close>

definition route :: "bytes \<Rightarrow> bytes list \<Rightarrow> endpoint option" where
  "route meth segs =
     (let get = (meth = ''GET'' \<or> meth = ''HEAD''); post = (meth = ''POST'')
      in if segs = [''healthz''] then (if get then Some Health else None)
         else if segs = [''readyz''] then (if get then Some ReadyCheck else None)
         else if segs = [''metrics''] then (if get then Some MetricsPage else None)
         else if segs = [''v1'', ''deliveries''] then
           (if post then Some CreateDelivery else if get then Some ListPage else None)
         else case segs of
           [a, b, i] \<Rightarrow> (if [a, b] = [''v1'', ''deliveries''] \<and> i \<noteq> [] \<and> get then Some (GetDelivery i) else None)
         | [a, b, i, c] \<Rightarrow>
             (if [a, b] = [''v1'', ''deliveries''] \<and> i \<noteq> [] \<and> post then
                (if c = ''cancel'' then Some (CancelDelivery i) else if c = ''retry'' then Some (RetryDelivery i) else None)
              else None)
         | _ \<Rightarrow> None)"

definition handle :: "environment \<Rightarrow> api_request \<Rightarrow> endpoint \<Rightarrow> Store \<Rightarrow> world \<Rightarrow> api_response \<times> Store \<times> world" where
  "handle env r e s w =
     (case e of
        Health \<Rightarrow> (api_health, s, w)
      | ReadyCheck \<Rightarrow> (case api_ready s w of (x, w') \<Rightarrow> (x, s, w'))
      | MetricsPage \<Rightarrow> (case renderMetrics env s w of (x, w') \<Rightarrow> (x, s, w'))
      | CreateDelivery \<Rightarrow> api_create env r s w
      | ListPage \<Rightarrow> (api_list r s, s, w)
      | GetDelivery i \<Rightarrow> (api_get env i s, s, w)
      | CancelDelivery i \<Rightarrow> api_cancel env i s w
      | RetryDelivery i \<Rightarrow> api_retry env i s w)"

definition ServeHTTP :: "environment \<Rightarrow> api_request \<Rightarrow> Store \<Rightarrow> world \<Rightarrow> api_response option \<times> Store \<times> world" where
  "ServeHTTP env r s w =
     (case route (apiMethod r) (apiSegments r) of
        None \<Rightarrow> (None, s, w)
      | Some e \<Rightarrow> (case handle env r e s w of (x, s', w') \<Rightarrow> (Some x, s', w')))"

subsection \<open>\<open>statusRecorder\<close>\<close>

text \<open>The writer of the library under the recorder: the status that was sent, and the data.\<close>

record response_writer =
  sentStatus :: "int option"
  sentData :: bytes

record statusRecorder = response_writer +
  status :: int
  wroteHeader :: bool

definition library_header :: "int \<Rightarrow> 'a response_writer_scheme \<Rightarrow> 'a response_writer_scheme" where
  "library_header code w = (if sentStatus w = None then w\<lparr>sentStatus := Some code\<rparr> else w)"

definition library_write :: "bytes \<Rightarrow> 'a response_writer_scheme \<Rightarrow> 'a response_writer_scheme" where
  "library_write data w = (library_header 200 w)\<lparr>sentData := sentData w @ data\<rparr>"

definition newRecorder :: statusRecorder where
  "newRecorder = \<lparr>sentStatus = None, sentData = [], status = 200, wroteHeader = False\<rparr>"

definition WriteHeader :: "int \<Rightarrow> statusRecorder \<Rightarrow> statusRecorder" where
  "WriteHeader code w =
     (if wroteHeader w then w else library_header code (w\<lparr>wroteHeader := True, status := code\<rparr>))"

definition Write :: "bytes \<Rightarrow> statusRecorder \<Rightarrow> statusRecorder" where
  "Write data w = library_write data (if \<not> wroteHeader w then WriteHeader 200 w else w)"

datatype writer_call = HeaderCall int | WriteCall bytes

definition writer_step :: "writer_call \<Rightarrow> statusRecorder \<Rightarrow> statusRecorder" where
  "writer_step c w = (case c of HeaderCall code \<Rightarrow> WriteHeader code w | WriteCall data \<Rightarrow> Write data w)"

text \<open>What \<open>accessLog\<close> reports after the calls of a handler.\<close>

definition accessLog :: "writer_call list \<Rightarrow> statusRecorder" where
  "accessLog calls = fold writer_step calls newRecorder"


text \<open>The recorded status is the one that was sent, and nothing that is written gets lost.\<close>

fun first_status :: "writer_call list \<Rightarrow> int option" where
  "first_status [] = None"
| "first_status (HeaderCall code # calls) = Some code"
| "first_status (WriteCall data # calls) = Some 200"

fun written :: "writer_call list \<Rightarrow> bytes" where
  "written [] = []"
| "written (HeaderCall code # calls) = written calls"
| "written (WriteCall data # calls) = data @ written calls"

lemma accessLog_snoc:
  "accessLog (calls @ [c]) = writer_step c (accessLog calls)"
  by (simp add: accessLog_def)

lemma written_snoc: "written (calls @ [c]) = written calls @ written [c]"
  by (induction calls rule: written.induct) simp_all

lemma first_status_snoc: "first_status (calls @ [c]) = (if calls = [] then first_status [c] else first_status calls)"
  by (cases calls rule: first_status.cases) simp_all

lemma recorded_status:
  "sentStatus (accessLog calls) = first_status calls \<and> sentData (accessLog calls) = written calls \<and>
   status (accessLog calls) = (case first_status calls of None \<Rightarrow> 200 | Some code \<Rightarrow> code) \<and>
   (wroteHeader (accessLog calls) \<longleftrightarrow> calls \<noteq> [])"
proof (induction calls rule: rev_induct)
  case Nil
  then show ?case
    by (simp add: accessLog_def newRecorder_def)
next
  case (snoc c calls)
  have "calls = [] \<or> first_status calls \<noteq> None"
    by (cases calls rule: first_status.cases) simp_all
  then show ?case
    using snoc
    by (cases c) (auto simp: accessLog_snoc written_snoc first_status_snoc writer_step_def WriteHeader_def Write_def
        library_write_def library_header_def Let_def)
qed

subsection \<open>What a request may be given\<close>





lemma status_writeJSON [simp]: "apiStatus (writeJSON h st t) = st" "apiData (writeJSON h st t) = encoded t"
  "apiHeader (writeJSON h st t) = header_set ''Content-Type'' ''application/json'' h"
  by (simp_all add: writeJSON_def)

lemma status_writeError [simp]: "apiStatus (writeError st code msg) = st"
  by (simp add: writeError_def)

lemma status_writeStoreError [simp]:
  "apiStatus (writeStoreError texts e) = (if e = ErrNotFound then 404 else if e = ErrInvalidTransition then 409 else 500)"
  by (simp add: writeStoreError_def)

lemma status_create_error [simp]:
  "apiStatus (create_error texts e) =
     (if e = ErrIdempotencyConflict then 409 else if is_persistence e then 500 else if e = ErrJournalFull then 507 else 400)"
  by (simp add: create_error_def)

subsection \<open>Requests and operations\<close>








subsection \<open>What the answers mean\<close>

lemma location_kept: "header_get ''Location'' (header_set ''Content-Type'' c (header_set ''Location'' l [])) = l"
proof -
  have "canonical_header_key ''Location'' = ''Location''" "canonical_header_key ''Content-Type'' = ''Content-Type''"
    by code_simp+
  then show ?thesis
    by (simp add: header_get_def header_set_def lookup_or_def)
qed

lemma api_create_cases:
  assumes "api_create env r s w = (x, s', w')"
  obtains (bad) "apiStatus x = 400" "s' = s" "w' = w"
  | (error) p b e where "decodeJSON (apiBody r) = Some p" "requestBody p = Inr b" "x = create_error (env_texts env) e"
      "Create (env_url env) (env_sha env) (env_random env) (create_request_of p b) (env_now env) s w = (Inl e, s', w')"
  | (answer) p b d c where "decodeJSON (apiBody r) = Some p" "requestBody p = Inr b" "apiStatus x = (if c then 201 else 200)"
      "header_get ''Location'' (apiHeader x) = ''/v1/deliveries/'' @ ID d" "apiData x = encoded (delivery_json d)"
      "Create (env_url env) (env_sha env) (env_random env) (create_request_of p b) (env_now env) s w = (Inr (d, c), s', w')"
proof (cases "decodeJSON (apiBody r)")
  case None
  then show thesis
    using assms by (intro bad) (auto simp: api_create_def)
next
  case p: (Some p)
  show thesis
  proof (cases "requestBody p")
    case (Inl e)
    then show thesis
      using assms p by (intro bad) (auto simp: api_create_def)
  next
    case b: (Inr b)
    obtain q where q: "Create (env_url env) (env_sha env) (env_random env) (create_request_of p b) (env_now env) s w = (q, s', w')"
      using assms p b by (cases "Create (env_url env) (env_sha env) (env_random env) (create_request_of p b) (env_now env) s w")
        (auto simp: api_create_def split: sum.splits)
    show thesis
    proof (cases q)
      case (Inl e)
      then show thesis
        using assms p b q by (intro error [of p b e]) (auto simp: api_create_def)
    next
      case (Inr dc)
      obtain d c where "dc = (d, c)"
        by (cases dc)
      then show thesis
        using assms p b q Inr
        by (intro answer [of p b c d]) (auto simp: api_create_def location_kept)
    qed
  qed
qed


lemma created_stored:
  assumes "Create up sha raw req now s w = (Inr (d, True), s', w')"
  shows "map_of (items s') (ID d) = Some d" "delivery_json d \<noteq> None" "Status d = StatusPending" "persistenceErr s' = None"
    "map_of (items s') = (map_of (items s))(ID d \<mapsto> d)" "newID raw = Some (ID d)"
proof -
  have "map_of (items s') (ID d) = Some d \<and> delivery_json d \<noteq> None \<and> Status d = StatusPending \<and>
      persistenceErr s' = None \<and> map_of (items s') = (map_of (items s))(ID d \<mapsto> d) \<and> newID raw = Some (ID d)"
    using assms
  proof (cases rule: Create_cases)
  case (created d0 h w1 s2)
  obtain i r where i: "newID raw = Some i" "fresh_delivery d0" "ID d0 = i"
    using created(1) by (rule New_cases)
  have d: "d = Clone d0"
    using created(5) by simp
  have "items s' = items (setLocked d0 h (view s))"
    using created(7) view_simps(1) by metis
  then have "map_of (items s') = (map_of (items s))(ID d \<mapsto> d)"
    using d by (simp add: map_of_setLocked)
  moreover have "persistenceErr s' = persistenceErr s2"
    unfolding created(6) by (simp add: setLocked_def Let_def)
  moreover have "Clone d0 = d0"
    using i(2) by (simp add: fresh_delivery_def)
  moreover have "marshalRecord d0 h \<noteq> None" "persistenceErr s2 = None"
    using created(4) append_frame(7) [OF created(4)] by (auto simp: appendLocked_def split: option.splits)
  ultimately show ?thesis
    using i d by (auto simp: fresh_delivery_def delivery_json_def marshalRecord_def split: option.splits)
  qed simp_all
  then show "map_of (items s') (ID d) = Some d" "delivery_json d \<noteq> None" "Status d = StatusPending" "persistenceErr s' = None"
    "map_of (items s') = (map_of (items s))(ID d \<mapsto> d)" "newID raw = Some (ID d)"
    by simp_all
qed

lemma create_refused:
  assumes "Create up sha raw req now s w = (Inl e, s', w')"
  shows "view s' = view s"
  using assms
proof (cases rule: Create_cases)
  case (refused d h e')
  then show ?thesis
    using admission_cases(1) by simp
next
  case (failed d h e' w1)
  then show ?thesis
    using append_frame(1) by metis
qed simp_all

lemma create_existing:
  assumes "Create up sha raw req now s w = (Inr (d, False), s', w')" "tables_ok s"
  shows "s' = s" "w' = w" "map_of (items s) (ID d) = Some d" "IdempotencyKey d \<noteq> []"
proof -
  have "s' = s \<and> w' = w \<and> map_of (items s) (ID d) = Some d \<and> IdempotencyKey d \<noteq> []"
    using assms(1)
  proof (cases rule: Create_cases)
  case (existing d0 h i)
  obtain d1 where d1: "map_of (items s) i = Some d1" "IdempotencyKey d1 = IdempotencyKey d0"
    using existing(3) tables_okD(8) [OF assms(2)] by blast
  moreover have "Clone d1 = d1" "ID d1 = i"
    using tables_okD(5,7) [OF assms(2) d1(1)] by simp_all
  ultimately show ?thesis
    using existing by (simp add: lookup_or_def)
  qed simp_all
  then show "s' = s" "w' = w" "map_of (items s) (ID d) = Some d" "IdempotencyKey d \<noteq> []"
    by simp_all
qed



lemma persist_return_cases:
  assumes "persist_return e s w = (r, s', w')" "tables_ok s" "error_sound s" "map_of (items s) i = Some d" "same_identity d e"
  obtains (stored) "r = Inr e" "map_of (items s') = (map_of (items s))(i \<mapsto> e)" "delivery_json e \<noteq> None"
  | (failed) er where "r = Inl er" "view s' = view s" "is_persistence er \<or> er = EncodeRecord"
proof -
  obtain q where q: "persistLocked e s w = (q, s', w')"
    using assms(1) by (auto simp: persist_return_def split: option.splits prod.splits)
  show thesis
  proof (cases q)
    case None
    have "Clone e = e" "ID e = i"
      using update_ok(2,4) [OF assms(2,4,5)] by simp_all
    moreover have "delivery_json e \<noteq> None"
      using q None by (auto simp: persistLocked_def Let_def appendLocked_def marshalRecord_def delivery_json_def split: option.splits prod.splits)
    ultimately show thesis
      using assms(1) q None persist_stored(1) [OF q [unfolded None] assms(2,4,5)] stored by (simp add: persist_return_def)
  next
    case (Some er)
    have "view s' = view s"
      using q by (cases rule: persist_cases) (simp_all add: Some)
    then show thesis
      using assms(1) q Some persist_sound [OF q assms(3)] by (intro failed [of er]) (auto simp: persist_return_def)
  qed
qed

lemma store_result_persist:
  assumes "store_result env (persist_return e s w) = (x, s', w')" "tables_ok s" "error_sound s"
    "map_of (items s) i = Some d" "same_identity d e"
  shows "apiStatus x = 200 \<and> map_of (items s') = (map_of (items s))(i \<mapsto> e) \<and> delivery_json e \<noteq> None \<and>
      apiData x = encoded (delivery_json e) \<or>
    apiStatus x = 500 \<and> view s' = view s"
proof -
  obtain r where r: "persist_return e s w = (r, s', w')"
    using assms(1) by (auto simp: store_result_def split: prod.splits sum.splits)
  then show ?thesis
    using assms(2-5)
  proof (cases rule: persist_return_cases)
    case stored
    then show ?thesis
      using assms(1) r by (auto simp: store_result_def)
  next
    case (failed er)
    then have "er \<noteq> ErrNotFound" "er \<noteq> ErrInvalidTransition"
      by (auto simp: is_persistence_def)
    then show ?thesis
      using assms(1) r failed by (auto simp: store_result_def)
  qed
qed

text \<open>What Cancel and Retry have in common: the statuses they accept and the new delivery.\<close>

definition lifecycle_answer ::
  "(Delivery \<Rightarrow> bool) \<Rightarrow> (Delivery \<Rightarrow> Delivery) \<Rightarrow> bytes \<Rightarrow> Store \<Rightarrow> world \<Rightarrow> api_response \<Rightarrow> Store \<Rightarrow> world \<Rightarrow> bool" where
  "lifecycle_answer accepts new i s w x s' w' =
     (case map_of (items s) i of
        None \<Rightarrow> apiStatus x = 404 \<and> s' = s \<and> w' = w
      | Some d \<Rightarrow>
          if \<not> accepts d then apiStatus x = 409 \<and> s' = s \<and> w' = w
          else apiStatus x = 200 \<and> map_of (items s') = (map_of (items s))(i \<mapsto> new d) \<and> delivery_json (new d) \<noteq> None \<and>
                 apiData x = encoded (delivery_json (new d)) \<or>
               apiStatus x = 500 \<and> view s' = view s)"

lemma lifecycle_answers:
  assumes "history up sha s w"
  shows "handle env r (CancelDelivery i) s w = (x, s', w') \<Longrightarrow>
      lifecycle_answer (\<lambda>d. Status d = StatusPending \<or> Status d = StatusInFlight) (canceled_item (env_now env)) i s w x s' w'"
    "handle env r (RetryDelivery i) s w = (x, s', w') \<Longrightarrow>
      lifecycle_answer (\<lambda>d. Status d = StatusFailed) (retried_item (env_now env)) i s w x s' w'"
proof -
  have ok: "tables_ok s" "error_sound s"
    using history_ok [OF assms] history_sound [OF assms] by (simp_all add: durable_def)
  show "lifecycle_answer (\<lambda>d. Status d = StatusPending \<or> Status d = StatusInFlight) (canceled_item (env_now env)) i s w x s' w'"
    if h: "handle env r (CancelDelivery i) s w = (x, s', w')"
  proof (cases "map_of (items s) i")
    case None
    then show ?thesis
      using h by (auto simp: lifecycle_answer_def handle_def api_cancel_def Cancel_def store_result_def)
  next
    case (Some d)
    have "same_identity d (canceled_item (env_now env) d)"
      by simp
    then show ?thesis
      using h Some store_result_persist [OF _ ok Some, of env "canceled_item (env_now env) d" w x s' w']
      by (auto simp: lifecycle_answer_def handle_def api_cancel_def Cancel_def store_result_def [of env "(Inl _, _)"])
  qed
  show "lifecycle_answer (\<lambda>d. Status d = StatusFailed) (retried_item (env_now env)) i s w x s' w'"
    if h: "handle env r (RetryDelivery i) s w = (x, s', w')"
  proof (cases "map_of (items s) i")
    case None
    then show ?thesis
      using h by (auto simp: lifecycle_answer_def handle_def api_retry_def Retry_def store_result_def)
  next
    case (Some d)
    have "same_identity d (retried_item (env_now env) d)"
      by simp
    then show ?thesis
      using h Some store_result_persist [OF _ ok Some, of env "retried_item (env_now env) d" w x s' w']
      by (auto simp: lifecycle_answer_def handle_def api_retry_def Retry_def store_result_def [of env "(Inl _, _)"])
  qed
qed

subsection \<open>Pages of the list\<close>

lemma api_list_200:
  assumes "api_list r s = x" "apiStatus x = 200"
  obtains limit where "1 \<le> limit" "limit \<le> 500" "apiData x = encoded (list_json (listed (apiQuery r ''status'') limit s))"
    "apiQuery r ''status'' = [] \<or> validStatus (apiQuery r ''status'')" "list_limit (apiQuery r ''limit'') = Some limit"
  using assms by (auto simp: api_list_def list_limit_def Let_def split: if_splits option.splits)

lemma list_page_facts:
  assumes "tables_ok s" "ds = listed st limit s" "1 \<le> limit"
  shows "int (length ds) \<le> limit" "\<forall>d \<in> set ds. Headers d = [] \<and> Body d = []" "distinct (List.map ID ds)"
    "sorted (List.map list_key ds)"
    "d \<in> set ds \<Longrightarrow> \<exists>e. map_of (items s) (ID d) = Some e \<and> (st = [] \<or> Status e = st) \<and> d = redacted e"
    "map_of (items s) i = Some e \<Longrightarrow> st = [] \<or> Status e = st \<Longrightarrow>
       redacted e \<in> set ds \<or> int (length ds) = limit \<and> (\<forall>d \<in> set ds. list_key d \<le> list_key e)"
proof -
  let ?l = "ListDeliveries st s"
  note facts = list_facts [OF assms(1), where st = st]
  have key: "list_key (redacted d) = list_key d" "ID (redacted d) = ID d" for d
    by (simp_all add: list_key_def redacted_def)
  have ids: "List.map ID ds = take (nat limit) (List.map ID ?l)" "List.map list_key ds = take (nat limit) (List.map list_key ?l)"
    unfolding assms(2) listed_def using key by (simp_all add: take_map comp_def)
  show "int (length ds) \<le> limit" "\<forall>d \<in> set ds. Headers d = [] \<and> Body d = []"
    using assms(2,3) by (auto simp: listed_def redacted_def)
  show "distinct (List.map ID ds)" "sorted (List.map list_key ds)"
    unfolding ids using facts by (simp_all add: sorted_wrt_take)
  show "\<exists>e. map_of (items s) (ID d) = Some e \<and> (st = [] \<or> Status e = st) \<and> d = redacted e" if d: "d \<in> set ds" for d
  proof -
    obtain e where "e \<in> set ?l" "d = redacted e"
      using d assms(2) by (auto simp: listed_def dest: in_set_takeD)
    then show ?thesis
      using facts by (auto simp: key)
  qed
  show "redacted e \<in> set ds \<or> int (length ds) = limit \<and> (\<forall>d \<in> set ds. list_key d \<le> list_key e)"
    if m: "map_of (items s) i = Some e" "st = [] \<or> Status e = st"
  proof -
    have "ID e = i"
      using tables_okD(5) [OF assms(1) m(1)] .
    then have e: "e \<in> set ?l"
      using facts m by auto
    have parts: "?l = take (nat limit) ?l @ drop (nat limit) ?l"
      by simp
    show ?thesis
    proof (cases "e \<in> set (take (nat limit) ?l)")
      case True
      then show ?thesis
        by (simp add: assms(2) listed_def)
    next
      case False
      then have dr: "e \<in> set (drop (nat limit) ?l)"
        using e parts by (metis Un_iff set_append)
      then have "nat limit < length ?l"
        by (cases "nat limit < length ?l") simp_all
      moreover have "sorted (List.map list_key (take (nat limit) ?l) @ List.map list_key (drop (nat limit) ?l))"
        using facts by (simp flip: map_append)
      ultimately show ?thesis
        using dr assms(2,3) by (auto simp: listed_def sorted_append key)
    qed
  qed
qed


section \<open>Properties of the interface\<close>

subsection \<open>A request of the example\<close>

definition example_text :: bytes where
  "example_text =
     concat [''{'', json_string ''idempotencyKey'', '':'', json_string '' order-1 '', '','', json_string ''targetUrl'', '':'',
       json_string ''http://shop/hook '', '','', json_string ''method'', '':'', json_string ''put'', '','',
       json_string ''headers'', '':{'', json_string ''x-trace'', '':'', json_string ''7'', '','', json_string ''Accept'', '':'',
       json_string ''text'', ''},'', json_string ''body'', '':[1, 2]}'']"

definition example_payload :: createRequest where
  "example_payload =
     \<lparr>crIdempotencyKey = '' order-1 '', crTargetURL = ''http://shop/hook '', crMethod = ''put'',
      crHeaders = [(''x-trace'', ''7''), (''Accept'', ''text'')], crBody = ''[1, 2]'', crBodyBase64 = None, crMaxAttempts = 0\<rparr>"

definition example_env :: "int \<Rightarrow> environment" where
  "example_env now =
     \<lparr>env_url = example_url, env_sha = example_sha, env_texts = (\<lambda>_. []), env_decode_text = (\<lambda>_. []),
      env_random = Some example_raw, env_now = now, env_metrics = None\<rparr>"

definition example_post :: api_request where
  "example_post = \<lparr>apiMethod = ''POST'', apiSegments = [''v1'', ''deliveries''], apiQuery = (\<lambda>_. []), apiBody = example_text\<rparr>"

lemma example_decode: "decodeJSON example_text = Some example_payload"
proof -
  have "read_struct create_field zero_create example_text = Some example_payload"
    by code_simp
  moreover have "length example_text < 200"
    by code_simp
  ultimately show ?thesis
    by (simp add: decodeJSON_def maxRequestBody_def)
qed

lemma example_body: "requestBody example_payload = Inr ''[1, 2]''" "create_request_of example_payload ''[1, 2]'' = example_request"
  by (simp_all add: requestBody_def example_payload_def create_request_of_def example_request_def)


lemma example_answer:
  "\<exists>x. api_create (example_env 5) example_post example_s0 example_w0 = (x, example_s1, example_w1) \<and> apiStatus x = 201"
  "\<exists>x. ServeHTTP (example_env 5) example_post example_s0 example_w0 = (Some x, example_s1, example_w1) \<and> apiStatus x = 201"
proof -
  show a: "\<exists>x. api_create (example_env 5) example_post example_s0 example_w0 = (x, example_s1, example_w1) \<and> apiStatus x = 201"
    by (simp add: api_create_def example_post_def example_decode example_body example_env_def example_Create(1))
  then show "\<exists>x. ServeHTTP (example_env 5) example_post example_s0 example_w0 = (Some x, example_s1, example_w1) \<and> apiStatus x = 201"
    by (auto simp: ServeHTTP_def example_post_def route_def handle_def Let_def)
qed

subsection \<open>Acknowledged over HTTP\<close>



text \<open>
  C30. The answers to a creation. 201: one pending delivery more, the one in the answer. 200: nothing has changed, and
  the answer is a stored delivery with a key. Every other status (400, 409, 500, 507): the deliveries and keys
  are as before.
\<close>

theorem create_answers:
  assumes "history (env_url env) (env_sha env) s w" "api_create env r s w = (x, s', w')"
  shows "apiStatus x \<in> {200, 201, 400, 409, 500, 507} \<and>
    (apiStatus x = 201 \<longrightarrow> (\<exists>d. map_of (items s') = (map_of (items s))(ID d \<mapsto> d) \<and> Status d = StatusPending \<and>
       header_get ''Location'' (apiHeader x) = ''/v1/deliveries/'' @ ID d \<and>
       apiData x = encoded (delivery_json d) \<and> delivery_json d \<noteq> None)) \<and>
    (apiStatus x = 200 \<longrightarrow> s' = s \<and> w' = w \<and> (\<exists>d. map_of (items s) (ID d) = Some d \<and> IdempotencyKey d \<noteq> [] \<and>
       header_get ''Location'' (apiHeader x) = ''/v1/deliveries/'' @ ID d \<and> apiData x = encoded (delivery_json d))) \<and>
    (apiStatus x \<notin> {200, 201} \<longrightarrow> view s' = view s)"
proof -
  have ok: "tables_ok s"
    using history_ok [OF assms(1)] by (simp add: durable_def)
  show ?thesis
    using assms(2)
  proof (cases rule: api_create_cases)
    case bad
    then show ?thesis
      by simp
  next
    case (error p b e)
    then show ?thesis
      using create_refused [OF error(4)] by simp
  next
    case (answer p b d c)
    show ?thesis
    proof (cases c)
      case True
      then show ?thesis
        using answer created_stored [of "env_url env" "env_sha env" "env_random env" "create_request_of p b" "env_now env" s w d s' w']
        by auto
    next
      case False
      then show ?thesis
        using answer create_existing [OF _ ok, of "env_url env" "env_sha env" "env_random env" "create_request_of p b" "env_now env" w d s' w']
        by auto
    qed
  qed
qed

theorem create_answers_witness:
  "\<exists>d. map_of (items example_s1) = (map_of (items example_s0))(ID d \<mapsto> d) \<and> Status d = StatusPending"
proof -
  obtain x where x: "api_create (example_env 5) example_post example_s0 example_w0 = (x, example_s1, example_w1)" "apiStatus x = 201"
    using example_answer(1) by blast
  have "history (env_url (example_env 5)) (env_sha (example_env 5)) example_s0 example_w0"
    using example_history(1) by (simp add: example_env_def)
  from create_answers [OF this x(1)] show ?thesis
    using x(2) by auto
qed


subsection \<open>Cancel, retry, and any request\<close>

text \<open>
  C31. The answers to cancel and retry. An unknown identifier: 404. A status from which the change is not
  allowed: 409. In both cases nothing has changed, not even the world. Otherwise 200, the delivery is
  replaced by the canceled or retried one and the answer is its JSON; or 500, and the deliveries are as before.
\<close>

theorem cancel_retry_answers:
  assumes "history up sha s w"
  shows "(\<forall>x s' w'. handle env r (CancelDelivery i) s w = (x, s', w') \<longrightarrow>
       lifecycle_answer (\<lambda>d. Status d = StatusPending \<or> Status d = StatusInFlight) (canceled_item (env_now env)) i s w x s' w') \<and>
    (\<forall>x s' w'. handle env r (RetryDelivery i) s w = (x, s', w') \<longrightarrow>
       lifecycle_answer (\<lambda>d. Status d = StatusFailed) (retried_item (env_now env)) i s w x s' w')"
  using lifecycle_answers [OF assms] by blast

theorem cancel_retry_answers_witness:
  "apiStatus (fst (handle (example_env 13) example_post (RetryDelivery example_id) example_s1 example_w1)) = 409"
proof -
  obtain x s w where x: "handle (example_env 13) example_post (RetryDelivery example_id) example_s1 example_w1 = (x, s, w)"
    by (cases "handle (example_env 13) example_post (RetryDelivery example_id) example_s1 example_w1") auto
  have "lifecycle_answer (\<lambda>d. Status d = StatusFailed) (retried_item (env_now (example_env 13))) example_id example_s1 example_w1 x s w"
    using cancel_retry_answers [OF example_history(2), of "example_env 13" example_post example_id] x by blast
  moreover have "map_of (items example_s1) example_id = Some example_delivery" "Status example_delivery \<noteq> StatusFailed"
    using status_distinct by (simp_all add: example_s1_simps example_Clone) (simp add: example_delivery_def)
  ultimately show ?thesis
    using x by (simp add: lifecycle_answer_def)
qed



text \<open>
  C33. A page of the list: at most 500 deliveries, as many as asked for, without headers and bodies,
  by creation time and then identifier. Each is a stored delivery of the wanted status; one that is
  missing comes after all of the page, which then is full. The answer is the JSON of exactly these.
\<close>

theorem list_page:
  assumes "tables_ok s" "api_list r s = x" "apiStatus x = 200" "st = apiQuery r ''status''"
  shows "\<exists>limit ds. 1 \<le> limit \<and> limit \<le> 500 \<and> list_limit (apiQuery r ''limit'') = Some limit \<and>
    apiData x = encoded (list_json ds) \<and> int (length ds) \<le> limit \<and>
    (\<forall>d \<in> set ds. Headers d = [] \<and> Body d = []) \<and> distinct (List.map ID ds) \<and> sorted (List.map list_key ds) \<and>
    (\<forall>d \<in> set ds. \<exists>e. map_of (items s) (ID d) = Some e \<and> (st = [] \<or> Status e = st) \<and> d = redacted e) \<and>
    (\<forall>i e. map_of (items s) i = Some e \<and> (st = [] \<or> Status e = st) \<longrightarrow>
       redacted e \<in> set ds \<or> int (length ds) = limit \<and> (\<forall>d \<in> set ds. list_key d \<le> list_key e))"
proof -
  obtain limit where l: "1 \<le> limit" "limit \<le> 500" "apiData x = encoded (list_json (listed st limit s))"
    "list_limit (apiQuery r ''limit'') = Some limit"
    using api_list_200 [OF assms(2,3)] assms(4) by metis
  show ?thesis
    using l list_page_facts [OF assms(1) refl l(1), where st = st]
    by (intro exI [of _ limit] exI [of _ "listed st limit s"]) blast
qed

theorem list_page_witness:
  "\<exists>limit ds. list_limit [] = Some limit \<and> apiData (api_list example_post example_s1) = encoded (list_json ds) \<and>
     (redacted example_delivery \<in> set ds \<or> int (length ds) = limit)"
proof -
  have "apiStatus (api_list example_post example_s1) = 200"
    by (simp add: api_list_def example_post_def list_limit_def Let_def)
  moreover have "tables_ok example_s1"
    using history_ok [OF example_history(2)] by (simp add: durable_def)
  ultimately show ?thesis
    using list_page [of example_s1 example_post] by (force simp: example_post_def example_s1_simps example_Clone)
qed

end
