(* ===== verification/Target.thy ===== *)
theory Target
  imports NetText "HOL-Library.Word"
begin

section \<open>Which addresses are dialed: \<open>internal/target\<close>\<close>

text \<open>
  The policy of the HTTP client: URLs and redirects it accepts, and the dialer that
  resolves a host and connects only to addresses that are not blocked. An IP address is
  its bytes, 4 or 16 of them, or none for nil. The resolver, the parser and printer of IP
  addresses and the network are arguments.
\<close>

unbundle bit_operations_syntax

type_synonym ip = "8 word list"

subsection \<open>\<open>net.IP\<close>\<close>

definition v4_prefix :: ip where
  "v4_prefix = replicate 10 0 @ [255, 255]"

definition To4 :: "ip \<Rightarrow> ip option" where
  "To4 a =
     (if length a = 4 then Some a
      else if length a = 16 \<and> take 12 a = v4_prefix then Some (drop 12 a)
      else None)"

definition equal_ip :: "ip \<Rightarrow> ip \<Rightarrow> bool" where
  "equal_ip a b \<longleftrightarrow>
     (if length a = length b then a = b
      else if length a = 4 \<and> length b = 16 then take 12 b = v4_prefix \<and> a = drop 12 b
      else if length a = 16 \<and> length b = 4 then take 12 a = v4_prefix \<and> drop 12 a = b
      else False)"

definition IPv6loopback :: ip where "IPv6loopback = replicate 15 0 @ [1]"
definition IPv6unspecified :: ip where "IPv6unspecified = replicate 16 0"
definition IPv4zero :: ip where "IPv4zero = v4_prefix @ [0, 0, 0, 0]"

definition IsUnspecified :: "ip \<Rightarrow> bool" where
  "IsUnspecified a \<longleftrightarrow> equal_ip a IPv4zero \<or> equal_ip a IPv6unspecified"

definition IsLoopback :: "ip \<Rightarrow> bool" where
  "IsLoopback a = (case To4 a of Some b \<Rightarrow> b ! 0 = 127 | None \<Rightarrow> equal_ip a IPv6loopback)"

definition IsPrivate :: "ip \<Rightarrow> bool" where
  "IsPrivate a =
     (case To4 a of
        Some b \<Rightarrow> b ! 0 = 10 \<or> b ! 0 = 172 \<and> b ! 1 AND 0xF0 = 16 \<or> b ! 0 = 192 \<and> b ! 1 = 168
      | None \<Rightarrow> length a = 16 \<and> a ! 0 AND 0xFE = 0xFC)"

definition IsMulticast :: "ip \<Rightarrow> bool" where
  "IsMulticast a =
     (case To4 a of
        Some b \<Rightarrow> b ! 0 AND 0xF0 = 0xE0
      | None \<Rightarrow> length a = 16 \<and> a ! 0 = 0xFF)"

definition IsLinkLocalMulticast :: "ip \<Rightarrow> bool" where
  "IsLinkLocalMulticast a =
     (case To4 a of
        Some b \<Rightarrow> b ! 0 = 224 \<and> b ! 1 = 0 \<and> b ! 2 = 0
      | None \<Rightarrow> length a = 16 \<and> a ! 0 = 0xFF \<and> a ! 1 AND 0x0F = 0x02)"

definition IsLinkLocalUnicast :: "ip \<Rightarrow> bool" where
  "IsLinkLocalUnicast a =
     (case To4 a of
        Some b \<Rightarrow> b ! 0 = 169 \<and> b ! 1 = 254
      | None \<Rightarrow> length a = 16 \<and> a ! 0 = 0xFE \<and> a ! 1 AND 0xC0 = 0x80)"

subsection \<open>The policy\<close>

definition isCarrierGradeNAT :: "ip \<Rightarrow> bool" where
  "isCarrierGradeNAT a =
     (case To4 a of None \<Rightarrow> False | Some v4 \<Rightarrow> v4 ! 0 = 100 \<and> v4 ! 1 AND 0xC0 = 64)"

definition blocked :: "ip \<Rightarrow> bool" where
  "blocked a \<longleftrightarrow>
     (if a = [] then True
      else IsLoopback a \<or> IsPrivate a \<or> IsLinkLocalUnicast a \<or> IsLinkLocalMulticast a \<or> IsUnspecified a \<or>
        IsMulticast a \<or> isCarrierGradeNAT a)"

datatype url_error = URLMissing | URLScheme | URLNoHost | URLUserInfo

definition ValidateURL :: "url option \<Rightarrow> url_error option" where
  "ValidateURL target =
     (case target of
        None \<Rightarrow> Some URLMissing
      | Some u \<Rightarrow>
          if urlScheme u \<noteq> ''http'' \<and> urlScheme u \<noteq> ''https'' then Some URLScheme
          else if url_hostname u = [] then Some URLNoHost
          else if urlUser u then Some URLUserInfo
          else None)"

datatype redirect_error = TooManyRedirects | BadTarget url_error

definition checkRedirect :: "url option \<Rightarrow> url list \<Rightarrow> redirect_error option" where
  "checkRedirect target via =
     (if 5 \<le> length via then Some TooManyRedirects else map_option BadTarget (ValidateURL target))"

subsection \<open>The dialer\<close>

text \<open>
  The network: names to addresses, addresses to and from text, and a dial, which gives a
  connection or an error. The dialer of the model also returns the addresses it dialed.
\<close>

record 'c net =
  parse_ip :: "bytes \<Rightarrow> ip option"
  ip_string :: "ip \<Rightarrow> bytes"
  lookup_ip :: "bytes \<Rightarrow> ip list option"
  connect :: "bytes \<Rightarrow> 'c option"

datatype dial_error = SplitAddress | ResolveHost | ConnectTarget | ErrBlockedAddress bytes

definition resolve :: "'c net \<Rightarrow> bytes \<Rightarrow> ip list option" where
  "resolve n host = (case parse_ip n host of Some a \<Rightarrow> Some [a] | None \<Rightarrow> lookup_ip n host)"

fun dial_loop :: "'c net \<Rightarrow> bytes \<Rightarrow> ip list \<Rightarrow> bool \<Rightarrow> bytes list \<Rightarrow> 'c option \<times> bool \<times> bytes list" where
  "dial_loop n port [] allowed dialed = (None, allowed, dialed)"
| "dial_loop n port (a # rest) allowed dialed =
     (if blocked a then dial_loop n port rest allowed dialed
      else
        let address = join_host_port (ip_string n a) port
        in case connect n address of
             Some c \<Rightarrow> (Some c, True, dialed @ [address])
           | None \<Rightarrow> dial_loop n port rest True (dialed @ [address]))"

definition safeDialContext :: "'c net \<Rightarrow> bytes \<Rightarrow> (dial_error + 'c) \<times> bytes list" where
  "safeDialContext n address =
     (case net_split_host_port address of
        None \<Rightarrow> (Inl SplitAddress, [])
      | Some (host, port) \<Rightarrow>
          (case resolve n host of
             None \<Rightarrow> (Inl ResolveHost, [])
           | Some addresses \<Rightarrow>
               (case dial_loop n port addresses False [] of
                  (Some c, _, dialed) \<Rightarrow> (Inr c, dialed)
                | (None, allowed, dialed) \<Rightarrow>
                    (if allowed then (Inl ConnectTarget, dialed) else (Inl (ErrBlockedAddress host), dialed)))))"

text \<open>The client that \<open>NewClient\<close> builds: no proxy, the dialer, the timeout and the redirect check.\<close>

record 'c client =
  proxy :: bool
  dial :: "bytes \<Rightarrow> (dial_error + 'c) \<times> bytes list"
  client_timeout :: int
  redirect :: "url option \<Rightarrow> url list \<Rightarrow> redirect_error option"

definition plain_dial :: "'c net \<Rightarrow> bytes \<Rightarrow> (dial_error + 'c) \<times> bytes list" where
  "plain_dial n address =
     (case connect n address of Some c \<Rightarrow> (Inr c, [address]) | None \<Rightarrow> (Inl ConnectTarget, [address]))"

definition NewClient :: "'c net \<Rightarrow> bool \<Rightarrow> int \<Rightarrow> 'c client" where
  "NewClient n allowPrivate timeout =
     \<lparr>proxy = False, dial = (if \<not> allowPrivate then safeDialContext n else plain_dial n),
      client_timeout = timeout, redirect = checkRedirect\<rparr>"

subsection \<open>The blocked ranges\<close>

text \<open>
  The policy as a table: the networks in CIDR notation, each an address as one number, the
  size of the address in bits, and the length of the prefix. An IPv4 address in IPv6
  form is the IPv4 address.
\<close>

type_synonym cidr = "nat \<times> nat \<times> nat"

definition ip_number :: "ip \<Rightarrow> nat" where
  "ip_number a = foldl (\<lambda>n b. n * 256 + unat b) 0 a"

definition v4 :: "nat \<Rightarrow> nat \<Rightarrow> nat \<Rightarrow> nat \<Rightarrow> nat" where
  "v4 a b c d = ((a * 256 + b) * 256 + c) * 256 + d"

definition in_cidr :: "ip \<Rightarrow> cidr \<Rightarrow> bool" where
  "in_cidr a n =
     (case n of (base, bits, len) \<Rightarrow>
        8 * length a = bits \<and> ip_number a div 2 ^ (bits - len) = base div 2 ^ (bits - len))"

definition unmapped :: "ip \<Rightarrow> ip" where
  "unmapped a = (case To4 a of Some b \<Rightarrow> b | None \<Rightarrow> a)"

definition blocked_networks :: "cidr list" where
  "blocked_networks =
     [(v4 127 0 0 0, 32, 8), (v4 10 0 0 0, 32, 8), (v4 172 16 0 0, 32, 12), (v4 192 168 0 0, 32, 16),
      (v4 169 254 0 0, 32, 16), (v4 100 64 0 0, 32, 10), (v4 224 0 0 0, 32, 4), (v4 0 0 0 0, 32, 32),
      (1, 128, 128), (0, 128, 128), (0xFC * 2 ^ 120, 128, 7), (0xFE8 * 2 ^ 116, 128, 10), (0xFF * 2 ^ 120, 128, 8)]"

text \<open>A byte masked by its high bits.\<close>

lemma byte_bound: "unat (b :: 8 word) < 256"
proof -
  have "unat b < 2 ^ LENGTH(8)"
    by (rule unsigned_less)
  then show ?thesis
    by simp
qed

lemma high_bits:
  assumes "n \<le> 8"
  shows "unat (b AND push_bit n (mask (8 - n))) = unat (b :: 8 word) div 2 ^ n * 2 ^ n"
proof -
  have "b AND push_bit n (mask (8 - n)) = push_bit n (take_bit (8 - n) (drop_bit n b))"
    by (simp only: push_bit_mask_eq slice_eq_mask ac_simps)
  also have "take_bit (8 - n) (drop_bit n b) = drop_bit n b"
    using assms by (simp add: take_bit_drop_bit take_bit_word_eq_self)
  finally have "unat (b AND push_bit n (mask (8 - n))) = unat (push_bit n (drop_bit n b))"
    by (rule arg_cong)
  also have "\<dots> = take_bit 8 (push_bit n (drop_bit n (unat b)))"
    by (simp only: unsigned_push_bit_eq unat_drop_bit_eq) simp
  also have "\<dots> = take_bit 8 (unat b div 2 ^ n * 2 ^ n)"
    by (simp only: push_bit_eq_mult drop_bit_eq_div)
  finally have "unat (b AND push_bit n (mask (8 - n))) = take_bit 8 (unat b div 2 ^ n * 2 ^ n)" .
  moreover have "unat b div 2 ^ n * 2 ^ n < 2 ^ 8"
    using byte_bound [of b] div_times_less_eq_dividend [of "unat b" "2 ^ n"] by (simp del: div_times_less_eq_dividend)
  ultimately show ?thesis
    by (simp add: take_bit_nat_eq_self)
qed

lemma mask_F0: "(b :: 8 word) AND 0xF0 = v \<longleftrightarrow> unat b div 16 * 16 = unat v"
  using high_bits [of 4 b] by (simp add: word_unat_eq_iff mask_eq_decr_exp push_bit_eq_mult)

lemma mask_FE: "(b :: 8 word) AND 0xFE = v \<longleftrightarrow> unat b div 2 * 2 = unat v"
  using high_bits [of 1 b] by (simp add: word_unat_eq_iff mask_eq_decr_exp push_bit_eq_mult)

lemma mask_C0: "(b :: 8 word) AND 0xC0 = v \<longleftrightarrow> unat b div 64 * 64 = unat v"
  using high_bits [of 6 b] by (simp add: word_unat_eq_iff mask_eq_decr_exp push_bit_eq_mult)

lemma ip_number_append: "ip_number (a @ b) = ip_number a * 256 ^ length b + ip_number b"
proof (induction b rule: rev_induct)
  case (snoc x b)
  have "ip_number (c @ [x]) = ip_number c * 256 + unat x" for c
    by (simp add: ip_number_def)
  from this [of "a @ b"] this [of b] show ?case
    using snoc by (simp add: algebra_simps)
qed (simp add: ip_number_def)

lemma ip_number_bound: "ip_number a < 256 ^ length a"
proof (induction a rule: rev_induct)
  case (snoc x a)
  have "unat x < 256"
    by (rule byte_bound)
  moreover have "ip_number (a @ [x]) = ip_number a * 256 + unat x"
    by (simp add: ip_number_def)
  moreover have "Suc (ip_number a) * 256 \<le> 256 ^ length a * 256"
    using snoc by (intro mult_right_mono) simp_all
  ultimately show ?case
    by simp
qed (simp add: ip_number_def)

text \<open>The leading bytes of an address, and of its bits.\<close>

lemma ip_number_head: "ip_number (a @ b) div (256 ^ length b * 2 ^ k) = ip_number a div 2 ^ k"
proof -
  have "ip_number (a @ b) div 256 ^ length b = ip_number a"
    using ip_number_bound [of b] by (simp add: ip_number_append)
  then show ?thesis
    by (simp add: div_mult2_eq)
qed

lemma ip_number_inj: "length a = length b \<Longrightarrow> ip_number a = ip_number b \<Longrightarrow> a = b"
proof (induction a b rule: list_induct2)
  case (Cons x xs y ys)
  have "x = y"
    using Cons.prems ip_number_head [of "[x]" xs 0] ip_number_head [of "[y]" ys 0] Cons.hyps
    by (simp add: ip_number_def word_unat_eq_iff)
  then show ?case
    using Cons ip_number_append [of "[x]" xs] ip_number_append [of "[y]" ys] by (simp add: ip_number_def)
qed simp

lemma length_v4_prefix [simp]: "length v4_prefix = 12"
  by (simp add: v4_prefix_def)

lemma To4_simps [simp]: "To4 [a, b, c, d] = Some [a, b, c, d]"
  by (simp add: To4_def)

lemma equal_v4 [simp]:
  "equal_ip [a, b, c, d] IPv4zero \<longleftrightarrow> a = 0 \<and> b = 0 \<and> c = 0 \<and> d = 0"
  "\<not> equal_ip [a, b, c, d] IPv6unspecified"
proof -
  have p: "take 12 IPv6unspecified = replicate 12 0"
    by (simp add: IPv6unspecified_def)
  have "v4_prefix ! 10 \<noteq> (replicate 12 0 :: ip) ! 10"
    by (simp add: v4_prefix_def nth_append)
  then have "v4_prefix \<noteq> replicate 12 0"
    by metis
  then show "\<not> equal_ip [a, b, c, d] IPv6unspecified"
    using p by (simp add: equal_ip_def IPv6unspecified_def)
  show "equal_ip [a, b, c, d] IPv4zero \<longleftrightarrow> a = 0 \<and> b = 0 \<and> c = 0 \<and> d = 0"
    by (simp add: equal_ip_def IPv4zero_def)
qed

lemma blocked_bytes4:
  "blocked [a, b, c, d] \<longleftrightarrow>
     unat a = 127 \<or> unat a = 10 \<or> unat a = 172 \<and> unat b div 16 = 1 \<or> unat a = 192 \<and> unat b = 168 \<or>
     unat a = 169 \<and> unat b = 254 \<or> unat a = 100 \<and> unat b div 64 = 1 \<or> unat a div 16 = 14 \<or>
     unat a = 0 \<and> unat b = 0 \<and> unat c = 0 \<and> unat d = 0"
proof -
  have n: "x = 127 \<longleftrightarrow> unat x = 127" "x = 10 \<longleftrightarrow> unat x = 10" "x = 172 \<longleftrightarrow> unat x = 172" "x = 192 \<longleftrightarrow> unat x = 192"
    "x = 168 \<longleftrightarrow> unat x = 168" "x = 169 \<longleftrightarrow> unat x = 169" "x = 254 \<longleftrightarrow> unat x = 254" "x = 100 \<longleftrightarrow> unat x = 100"
    "x = 224 \<longleftrightarrow> unat x = 224" "x = 0 \<longleftrightarrow> unat x = 0"
    for x :: "8 word"
    by (simp_all add: word_unat_eq_iff)
  have m: "x AND 0xF0 = 16 \<longleftrightarrow> unat x div 16 = 1" "x AND 0xF0 = 0xE0 \<longleftrightarrow> unat x div 16 = 14"
    "x AND 0xC0 = 64 \<longleftrightarrow> unat x div 64 = 1" for x :: "8 word"
    by (simp_all add: mask_F0 mask_C0)
  have "blocked [a, b, c, d] \<longleftrightarrow>
     a = 127 \<or> (a = 10 \<or> a = 172 \<and> b AND 0xF0 = 16 \<or> a = 192 \<and> b = 168) \<or> a = 169 \<and> b = 254 \<or>
     (a = 224 \<and> b = 0 \<and> c = 0) \<or> (a = 0 \<and> b = 0 \<and> c = 0 \<and> d = 0) \<or> a AND 0xF0 = 0xE0 \<or> a = 100 \<and> b AND 0xC0 = 64"
    unfolding blocked_def IsLoopback_def IsPrivate_def IsLinkLocalUnicast_def IsLinkLocalMulticast_def IsUnspecified_def
        IsMulticast_def isCarrierGradeNAT_def by simp
  moreover have "unat a = 224 \<Longrightarrow> unat a div 16 = 14"
    by simp
  ultimately show ?thesis
    unfolding m n [of a] n [of b] n [of c] n [of d] by argo
qed

lemma two_digits: "r < k \<Longrightarrow> q < k \<Longrightarrow> m * k + r = p * k + q \<longleftrightarrow> m = p \<and> r = q" for m p q r k :: nat
  by (metis add.commute add_diff_cancel_left' add_right_cancel div_mult_self3 less_nat_zero_code mod_less mod_mult_self3
      div_less plus_nat.add_0)

lemma networks_bytes4:
  "(\<exists>n \<in> set blocked_networks. in_cidr [a, b, c, d] n) \<longleftrightarrow>
     unat a = 127 \<or> unat a = 10 \<or> unat a = 172 \<and> unat b div 16 = 1 \<or> unat a = 192 \<and> unat b = 168 \<or>
     unat a = 169 \<and> unat b = 254 \<or> unat a = 100 \<and> unat b div 64 = 1 \<or> unat a div 16 = 14 \<or>
     unat a = 0 \<and> unat b = 0 \<and> unat c = 0 \<and> unat d = 0"
proof -
  define x where "x = [a, b, c, d]"
  have l: "length x = 4"
    by (simp add: x_def)
  have n1: "ip_number x div (16777216 * 2 ^ k) = unat a div 2 ^ k" for k
    using ip_number_head [of "[a]" "[b, c, d]" k] by (simp add: ip_number_def x_def)
  have n2: "ip_number x div (65536 * 2 ^ k) = (unat a * 256 + unat b) div 2 ^ k" for k
    using ip_number_head [of "[a, b]" "[c, d]" k] by (simp add: ip_number_def x_def)
  have z: "ip_number x = 0 \<longleftrightarrow> unat a = 0 \<and> unat b = 0 \<and> unat c = 0 \<and> unat d = 0"
    by (simp add: ip_number_def x_def)
  have b: "unat b < 256"
    by (rule byte_bound)
  note t = two_digits [OF b]
  have "(unat a * 256 + unat b) div 16 = unat a * 16 + unat b div 16" "(unat a * 256 + unat b) div 64 = unat a * 4 + unat b div 64"
    using div_mult_self3 [of 16 "unat a * 16" "unat b"] div_mult_self3 [of 64 "unat a * 4" "unat b"] by simp_all
  then have u: "(unat a * 256 + unat b) div 16 = 2753 \<longleftrightarrow> unat a = 172 \<and> unat b div 16 = 1"
    "(unat a * 256 + unat b) div 64 = 401 \<longleftrightarrow> unat a = 100 \<and> unat b div 64 = 1"
    using two_digits [of "unat b div 16" 16 1 "unat a" 172] two_digits [of "unat b div 64" 4 1 "unat a" 100] b by simp_all
  have c: "in_cidr x (v4 p q r s, 32, k) \<longleftrightarrow> ip_number x div 2 ^ (32 - k) = v4 p q r s div 2 ^ (32 - k)" for p q r s k
    by (simp add: in_cidr_def l)
  have c6: "\<not> in_cidr x (n, 128, k)" for n k
    by (simp add: in_cidr_def l)
  have "in_cidr x (v4 127 0 0 0, 32, 8) \<longleftrightarrow> unat a = 127" "in_cidr x (v4 10 0 0 0, 32, 8) \<longleftrightarrow> unat a = 10"
    "in_cidr x (v4 224 0 0 0, 32, 4) \<longleftrightarrow> unat a div 16 = 14"
    using n1 [of 0] n1 [of 4] unfolding c by (simp_all add: v4_def)
  moreover have "in_cidr x (v4 192 168 0 0, 32, 16) \<longleftrightarrow> unat a = 192 \<and> unat b = 168"
    "in_cidr x (v4 169 254 0 0, 32, 16) \<longleftrightarrow> unat a = 169 \<and> unat b = 254"
    "in_cidr x (v4 172 16 0 0, 32, 12) \<longleftrightarrow> unat a = 172 \<and> unat b div 16 = 1"
    "in_cidr x (v4 100 64 0 0, 32, 10) \<longleftrightarrow> unat a = 100 \<and> unat b div 64 = 1"
    using n2 [of 0] n2 [of 4] n2 [of 6] t [of 168 "unat a" 192] t [of 254 "unat a" 169] u unfolding c by (simp_all add: v4_def)
  moreover have "in_cidr x (v4 0 0 0 0, 32, 32) \<longleftrightarrow> unat a = 0 \<and> unat b = 0 \<and> unat c = 0 \<and> unat d = 0"
    using z unfolding c by (simp add: v4_def)
  ultimately show ?thesis
    unfolding x_def [symmetric] blocked_networks_def by (simp only: list.set bex_simps c6) blast
qed
text \<open>An IPv4 address in IPv6 form is treated as the IPv4 address.\<close>

lemma mapped_not_unspecified: "v4_prefix \<noteq> replicate 12 0"
proof
  assume "v4_prefix = replicate 12 0"
  then have "v4_prefix ! 10 = (replicate 12 0 :: ip) ! 10"
    by simp
  then show False
    by (simp add: v4_prefix_def nth_append)
qed

lemma To4_Some: "To4 x = Some y \<Longrightarrow> length y = 4 \<and> (x = y \<or> x = v4_prefix @ y)"
  by (auto simp: To4_def split: if_splits) (metis append_take_drop_id)

lemma equal_mapped:
  assumes "length y = 4"
  shows "equal_ip (v4_prefix @ y) IPv4zero = equal_ip y IPv4zero"
    "equal_ip (v4_prefix @ y) IPv6unspecified = equal_ip y IPv6unspecified"
proof -
  show "equal_ip (v4_prefix @ y) IPv4zero = equal_ip y IPv4zero"
    using assms by (simp add: equal_ip_def IPv4zero_def)
  have "replicate 16 (0 :: 8 word) = replicate 12 0 @ replicate 4 0"
    by (simp flip: replicate_add)
  then have "v4_prefix @ y \<noteq> IPv6unspecified" "take 12 IPv6unspecified \<noteq> v4_prefix"
    using mapped_not_unspecified assms by (auto simp: IPv6unspecified_def)
  then show "equal_ip (v4_prefix @ y) IPv6unspecified = equal_ip y IPv6unspecified"
    using assms by (simp add: equal_ip_def IPv6unspecified_def)
qed

lemma blocked_unmapped:
  assumes "To4 x = Some y"
  shows "blocked x = blocked y"
proof (cases "x = y")
  case False
  then have x: "x = v4_prefix @ y" "length y = 4"
    using To4_Some [OF assms] by simp_all
  then have y: "To4 y = Some y" "x \<noteq> []" "y \<noteq> []"
    by (auto simp: To4_def)
  show ?thesis
    using equal_mapped [OF x(2)] y
    by (simp add: blocked_def IsLoopback_def IsPrivate_def IsLinkLocalUnicast_def IsLinkLocalMulticast_def IsUnspecified_def
        IsMulticast_def isCarrierGradeNAT_def assms flip: x(1))
qed simp

lemma ip_number_eq: "length x = length y \<Longrightarrow> ip_number x = ip_number y \<longleftrightarrow> x = y"
  using ip_number_inj by blast

lemma blocked_v6:
  assumes "length x = 16" "To4 x = None"
  shows "blocked x \<longleftrightarrow> (\<exists>n \<in> set blocked_networks. in_cidr x n)"
proof -
  obtain a y where y: "x = a # y" "length y = 15"
    using assms(1) by (cases x) simp_all
  then obtain b r where x: "x = a # b # r" "length r = 14"
    by (cases y) simp_all
  have bytes: "unat a < 256" "unat b < 256"
    by (rule byte_bound)+
  have n1: "ip_number x div (256 ^ 15 * 2 ^ k) = unat a div 2 ^ k" for k
    using ip_number_head [of "[a]" "b # r" k] x by (simp add: ip_number_def)
  have n2: "ip_number x div (256 ^ 14 * 2 ^ k) = (unat a * 256 + unat b) div 2 ^ k" for k
    using ip_number_head [of "[a, b]" r k] x by (simp add: ip_number_def)
  have c: "in_cidr x (p, 128, k) \<longleftrightarrow> ip_number x div 2 ^ (128 - k) = p div 2 ^ (128 - k)" for p k
    using assms(1) by (simp add: in_cidr_def)
  have c4: "\<not> in_cidr x (p, 32, k)" for p k
    using assms(1) by (simp add: in_cidr_def)
  have "ip_number IPv6loopback = 1" "ip_number IPv6unspecified = 0"
    by (simp_all add: ip_number_def IPv6loopback_def IPv6unspecified_def numeral_eq_Suc)
  then have "in_cidr x (1, 128, 128) \<longleftrightarrow> x = IPv6loopback" "in_cidr x (0, 128, 128) \<longleftrightarrow> x = IPv6unspecified"
    using ip_number_eq [of x IPv6loopback] ip_number_eq [of x IPv6unspecified] assms(1) unfolding c
    by (simp_all add: IPv6loopback_def IPv6unspecified_def)
  moreover have "in_cidr x (0xFC * 2 ^ 120, 128, 7) \<longleftrightarrow> unat a div 2 = 126"
    "in_cidr x (0xFF * 2 ^ 120, 128, 8) \<longleftrightarrow> unat a = 255"
    using n1 [of 1] n1 [of 0] unfolding c by simp_all
  moreover have "in_cidr x (0xFE8 * 2 ^ 116, 128, 10) \<longleftrightarrow> unat a = 254 \<and> unat b div 64 = 2"
  proof -
    have "(unat a * 256 + unat b) div 64 = unat a * 4 + unat b div 64"
      using div_mult_self3 [of 64 "unat a * 4" "unat b"] by simp
    moreover have "unat a * 4 + unat b div 64 = 1018 \<longleftrightarrow> unat a = 254 \<and> unat b div 64 = 2"
      using two_digits [of "unat b div 64" 4 2 "unat a" 254] bytes by simp
    ultimately show ?thesis
      using n2 [of 6] unfolding c by simp
  qed
  moreover have "blocked x \<longleftrightarrow> x = IPv6loopback \<or> a AND 0xFE = 0xFC \<or> a = 0xFE \<and> b AND 0xC0 = 0x80 \<or>
      (a = 0xFF \<and> b AND 0x0F = 0x02) \<or> x = IPv6unspecified \<or> a = 0xFF"
  proof -
    have "\<not> equal_ip x IPv4zero" "equal_ip x IPv6unspecified \<longleftrightarrow> x = IPv6unspecified" "equal_ip x IPv6loopback \<longleftrightarrow> x = IPv6loopback"
      using assms by (auto simp: equal_ip_def IPv4zero_def IPv6unspecified_def IPv6loopback_def To4_def)
    then show ?thesis
      using x assms(1) unfolding blocked_def IsLoopback_def IsPrivate_def IsLinkLocalUnicast_def IsLinkLocalMulticast_def
        IsUnspecified_def IsMulticast_def isCarrierGradeNAT_def assms(2) by simp
  qed
  moreover have "a AND 0xFE = 0xFC \<longleftrightarrow> unat a div 2 = 126" "a = 0xFE \<longleftrightarrow> unat a = 254" "a = 0xFF \<longleftrightarrow> unat a = 255"
    "b AND 0xC0 = 0x80 \<longleftrightarrow> unat b div 64 = 2"
    by (simp_all add: mask_FE mask_C0) (simp_all add: word_unat_eq_iff)
  ultimately show ?thesis
    unfolding blocked_networks_def by (simp only: list.set bex_simps c4) blast
qed

subsection \<open>What the dialer does\<close>

text \<open>
  The loop in one step: it tries the addresses that are not blocked, in order, up to the
  first that answers.
\<close>

definition dialable :: "'c net \<Rightarrow> bytes \<Rightarrow> ip list \<Rightarrow> bytes list" where
  "dialable n port addresses =
     List.map (\<lambda>a. join_host_port (ip_string n a) port) (filter (\<lambda>a. \<not> blocked a) addresses)"

lemma dialable_simps [simp]:
  "dialable n port [] = []"
  "dialable n port (a # rest) =
     (if blocked a then dialable n port rest else join_host_port (ip_string n a) port # dialable n port rest)"
  by (simp_all add: dialable_def)

lemma dial_loop_result:
  "dial_loop n port addresses allowed dialed =
     (let cs = dialable n port addresses
      in case dropWhile (\<lambda>x. connect n x = None) cs of
           [] \<Rightarrow> (None, allowed \<or> cs \<noteq> [], dialed @ cs)
         | c # _ \<Rightarrow> (connect n c, True, dialed @ takeWhile (\<lambda>x. connect n x = None) cs @ [c]))"
proof (induction n port addresses allowed dialed rule: dial_loop.induct)
  case (2 n port a rest allowed dialed)
  show ?case
  proof (cases "blocked a")
    case False
    show ?thesis
    proof (cases "connect n (join_host_port (ip_string n a) port)")
      case None
      have "dial_loop n port (a # rest) allowed dialed =
          dial_loop n port rest True (dialed @ [join_host_port (ip_string n a) port])"
        using False None by (simp add: Let_def)
      then show ?thesis
        using "2.IH"(2) [OF False refl None] False None
        by (cases "dropWhile (\<lambda>x. connect n x = None) (dialable n port rest)") (simp_all add: Let_def del: dropWhile_eq_Nil_conv)
    qed (use False in \<open>simp add: Let_def\<close>)
  qed (use "2.IH"(1) in simp)
qed simp

lemma safeDialContext_cases:
  obtains (address) "net_split_host_port address = None" "safeDialContext n address = (Inl SplitAddress, [])"
  | (unresolved) host port where "net_split_host_port address = Some (host, port)" "resolve n host = None"
      "safeDialContext n address = (Inl ResolveHost, [])"
  | (forbidden) host port addresses where "net_split_host_port address = Some (host, port)" "resolve n host = Some addresses"
      "dialable n port addresses = []" "safeDialContext n address = (Inl (ErrBlockedAddress host), [])"
  | (refused) host port addresses where "net_split_host_port address = Some (host, port)" "resolve n host = Some addresses"
      "\<forall>c \<in> set (dialable n port addresses). connect n c = None" "dialable n port addresses \<noteq> []"
      "safeDialContext n address = (Inl ConnectTarget, dialable n port addresses)"
  | (connected) host port addresses before c after x where
      "net_split_host_port address = Some (host, port)" "resolve n host = Some addresses"
      "dialable n port addresses = before @ c # after" "\<forall>b \<in> set before. connect n b = None" "connect n c = Some x"
      "safeDialContext n address = (Inr x, before @ [c])"
proof (cases "net_split_host_port address")
  case None
  then show ?thesis
    by (intro address) (simp_all add: safeDialContext_def)
next
  case (Some hp)
  obtain host port where hp: "net_split_host_port address = Some (host, port)"
    using Some by (cases hp) simp
  show ?thesis
  proof (cases "resolve n host")
    case None
    then show ?thesis
      using hp by (intro unresolved) (simp_all add: safeDialContext_def)
  next
    case (Some addresses)
    let ?cs = "dialable n port addresses"
    have tw: "?cs = takeWhile (\<lambda>x. connect n x = None) ?cs @ dropWhile (\<lambda>x. connect n x = None) ?cs"
      by simp
    show ?thesis
    proof (cases "dropWhile (\<lambda>x. connect n x = None) ?cs")
      case Nil
      then have "\<forall>c \<in> set ?cs. connect n c = None"
        unfolding dropWhile_eq_Nil_conv .
      moreover have "dial_loop n port addresses False [] = (None, ?cs \<noteq> [], ?cs)"
        unfolding dial_loop_result Let_def Nil by simp
      ultimately show ?thesis
        using hp Some forbidden refused by (cases "?cs = []") (simp_all add: safeDialContext_def)
    next
      case (Cons c after)
      then obtain x where x: "connect n c = Some x"
        using hd_dropWhile [of "\<lambda>x. connect n x = None" ?cs] by auto
      have "dial_loop n port addresses False [] = (Some x, True, takeWhile (\<lambda>x. connect n x = None) ?cs @ [c])"
        unfolding dial_loop_result Let_def Cons using x by simp
      then show ?thesis
        using hp Some tw Cons x
        by (intro connected [of host port addresses "takeWhile (\<lambda>x. connect n x = None) ?cs" c after x])
          (auto simp: safeDialContext_def dest: set_takeWhileD)
    qed
  qed
qed

subsection \<open>Properties\<close>

text \<open>
  C26. The policy is the table of networks: an IPv4 or IPv6 address is blocked exactly when it lies in
  one of the listed networks, an IPv4 address written as IPv6 being judged as the IPv4 address. So
  the bit tests of \<open>isCarrierGradeNAT\<close> and of the tests of \<open>net.IP\<close> cover loopback, private, link-local, multicast,
  unspecified and carrier-grade NAT addresses, and nothing else.
\<close>

theorem blocked_is_table:
  assumes "length x = 4 \<or> length x = 16"
  shows "blocked x \<longleftrightarrow> (\<exists>n \<in> set blocked_networks. in_cidr (unmapped x) n)"
proof (cases "To4 x")
  case None
  then show ?thesis
    using assms blocked_v6 by (auto simp: unmapped_def To4_def)
next
  case (Some y)
  then have "length y = 4"
    using To4_Some by blast
  then obtain a b c d where y: "y = [a, b, c, d]"
    by (auto simp: numeral_eq_Suc length_Suc_conv)
  show ?thesis
    using blocked_unmapped [OF Some] blocked_bytes4 [of a b c d] networks_bytes4 [of a b c d]
    by (simp add: unmapped_def Some y)
qed

theorem blocked_is_table_witness:
  "blocked [100, 127, 1, 1] \<longleftrightarrow> (\<exists>n \<in> set blocked_networks. in_cidr (unmapped [100, 127, 1, 1]) n)"
  by (rule blocked_is_table) simp

text \<open>
  C25. The safe dialer never dials a blocked address, and dials the others in order. If the address has no port or the
  name does not resolve, nothing is dialed. Otherwise let the candidates be the resolved addresses that are
  not blocked, in the order of the answer, each with the port that was asked for: the dialer tries them one after
  another, each once, up to the first that connects, and the result is its connection; if none connects, all have been tried
  and the error is \<open>ConnectTarget\<close>; if there is none, nothing is dialed and the error is \<open>ErrBlockedAddress\<close>.
\<close>

theorem never_dials_blocked:
  assumes "safeDialContext n address = (r, dialed)"
  shows "case net_split_host_port address of
      None \<Rightarrow> r = Inl SplitAddress \<and> dialed = []
    | Some (host, port) \<Rightarrow>
        (case resolve n host of
           None \<Rightarrow> r = Inl ResolveHost \<and> dialed = []
         | Some addresses \<Rightarrow>
             let candidates = List.map (\<lambda>a. join_host_port (ip_string n a) port) (filter (\<lambda>a. \<not> blocked a) addresses)
             in (case r of
                   Inr c \<Rightarrow> \<exists>before t after. candidates = before @ t # after \<and> dialed = before @ [t] \<and>
                     (\<forall>b \<in> set before. connect n b = None) \<and> connect n t = Some c
                 | Inl e \<Rightarrow> dialed = candidates \<and> (\<forall>t \<in> set candidates. connect n t = None) \<and>
                     e = (if candidates = [] then ErrBlockedAddress host else ConnectTarget)))"
proof (cases rule: safeDialContext_cases [of address n])
  case (connected host port addresses before c after x)
  then have "r = Inr x" "dialed = before @ [c]"
    using assms by simp_all
  then show ?thesis
    using connected(1-5) by (simp add: Let_def flip: dialable_def)
qed (use assms in \<open>simp_all add: Let_def flip: dialable_def\<close>)

definition example_net :: "nat net" where
  "example_net =
     \<lparr>parse_ip = (\<lambda>_. None), ip_string = (\<lambda>a. if length a = 4 then ''v4'' else ''v6''),
      lookup_ip = (\<lambda>_. Some [[127, 0, 0, 1], [8, 8, 8, 8]]), connect = (\<lambda>_. Some 7)\<rparr>"

theorem never_dials_blocked_witness:
  "\<exists>before t after. [join_host_port ''v4'' ''80''] = before @ t # after \<and> [join_host_port ''v4'' ''80''] = before @ [t] \<and>
     (\<forall>b \<in> set before. connect example_net b = None) \<and> connect example_net t = Some 7"
proof -
  have s: "net_split_host_port ''shop:80'' = Some (''shop'', ''80'')"
    by code_simp
  have d: "safeDialContext example_net ''shop:80'' = (Inr 7, [join_host_port ''v4'' ''80''])"
    by (simp add: safeDialContext_def s resolve_def example_net_def blocked_bytes4)
  have r: "resolve example_net ''shop'' = Some [[127, 0, 0, 1], [8, 8, 8, 8]]"
    "List.map (\<lambda>a. join_host_port (ip_string example_net a) ''80'') (filter (\<lambda>a. \<not> blocked a) [[127, 0, 0, 1], [8, 8, 8, 8]]) =
       [join_host_port ''v4'' ''80'']"
    by (simp_all add: resolve_def example_net_def blocked_bytes4)
  show ?thesis
    using never_dials_blocked [OF d] unfolding s r(1) option.case prod.case Let_def r(2) sum.case .
qed

end
