(* ===== verification/Flags.thy ===== *)
theory Flags
  imports Backoff Prelude
begin

section \<open>Command lines: package \<open>flag\<close>\<close>

text \<open>
  How the two programs read their arguments: \<open>FlagSet.Parse\<close> of Go's library with the values
  they use, strings, integers, booleans and durations, and one custom value (the headers of
  \<open>spoolctl\<close>), whose \<open>Set\<close> is the argument \<open>custom\<close>. Integers are read by
  \<open>strconv.ParseInt\<close> with base 0, so that 0x10 and 1_000 are numbers; durations
  by \<open>time.ParseDuration\<close>, fractions with the \<open>float64\<close> arithmetic of theory \<open>Backoff\<close>.
\<close>

subsection \<open>\<open>strconv.ParseInt(s, 0, 64)\<close>\<close>

text \<open>The base and what follows its prefix.\<close>

definition number_base :: "bytes \<Rightarrow> nat \<times> bytes" where
  "number_base s =
     (if s \<noteq> [] \<and> hd s = CHR ''0'' then
        (if 3 \<le> length s \<and> lower_char (s ! 1) = CHR ''b'' then (2, drop 2 s)
         else if 3 \<le> length s \<and> lower_char (s ! 1) = CHR ''o'' then (8, drop 2 s)
         else if 3 \<le> length s \<and> lower_char (s ! 1) = CHR ''x'' then (16, drop 2 s)
         else (8, drop 1 s))
      else (10, s))"

definition digit_in :: "nat \<Rightarrow> char \<Rightarrow> nat option" where
  "digit_in b c =
     (let v = (if is_digit c then Some (bval c - 48)
               else if is_lower (lower_char c) then Some (bval (lower_char c) - 87) else None)
      in case v of None \<Rightarrow> None | Some n \<Rightarrow> if n < b then Some n else None)"

fun digits_value :: "nat \<Rightarrow> nat \<Rightarrow> bytes \<Rightarrow> nat option" where
  "digits_value b n [] = Some n"
| "digits_value b n (c # cs) =
     (if c = CHR ''_'' then digits_value b n cs
      else case digit_in b c of None \<Rightarrow> None | Some d \<Rightarrow> digits_value b (n * b + d) cs)"

text \<open>\<open>underscoreOK\<close>: what was seen last is a digit, an underscore, or something else.\<close>

datatype saw = SawStart | SawDigit | SawUnderscore | SawOther

fun underscore_scan :: "bool \<Rightarrow> saw \<Rightarrow> bytes \<Rightarrow> bool" where
  "underscore_scan hex seen [] = (seen \<noteq> SawUnderscore)"
| "underscore_scan hex seen (c # cs) =
     (if is_digit c \<or> hex \<and> CHR ''a'' \<le> lower_char c \<and> lower_char c \<le> CHR ''f'' then underscore_scan hex SawDigit cs
      else if c = CHR ''_'' then seen = SawDigit \<and> underscore_scan hex SawUnderscore cs
      else seen \<noteq> SawUnderscore \<and> underscore_scan hex SawOther cs)"

definition underscoreOK :: "bytes \<Rightarrow> bool" where
  "underscoreOK s =
     (if 2 \<le> length s \<and> hd s = CHR ''0'' \<and> lower_char (s ! 1) \<in> {CHR ''b'', CHR ''o'', CHR ''x''}
      then underscore_scan (lower_char (s ! 1) = CHR ''x'') SawDigit (drop 2 s)
      else underscore_scan False SawStart s)"

definition parse_uint0 :: "bytes \<Rightarrow> nat option" where
  "parse_uint0 s =
     (if s = [] then None
      else case number_base s of (b, ds) \<Rightarrow>
        (case digits_value b 0 ds of
           None \<Rightarrow> None
         | Some n \<Rightarrow> if 2 ^ 64 \<le> int n \<or> CHR ''_'' \<in> set ds \<and> \<not> underscoreOK s then None else Some n))"

definition parse_int0 :: "bytes \<Rightarrow> int option" where
  "parse_int0 s =
     (let neg = (s \<noteq> [] \<and> hd s = CHR ''-'');
          rest = (if s \<noteq> [] \<and> (hd s = CHR ''+'' \<or> hd s = CHR ''-'') then tl s else s)
      in case parse_uint0 rest of
        None \<Rightarrow> None
      | Some n \<Rightarrow>
          if neg then (if int n \<le> 2 ^ 63 then Some (- int n) else None)
          else if int n < 2 ^ 63 then Some (int n) else None)"

subsection \<open>\<open>strconv.ParseBool\<close>, \<open>time.ParseDuration\<close>\<close>

definition parse_bool :: "bytes \<Rightarrow> bool option" where
  "parse_bool s =
     (if s \<in> {''1'', ''t'', ''T'', ''TRUE'', ''true'', ''True''} then Some True
      else if s \<in> {''0'', ''f'', ''F'', ''FALSE'', ''false'', ''False''} then Some False
      else None)"

definition unit_ns :: "bytes \<Rightarrow> int option" where
  "unit_ns u =
     (if u = ''ns'' then Some 1
      else if u = ''us'' \<or> u = [CHR 0xC2, CHR 0xB5, CHR ''s''] \<or> u = [CHR 0xCE, CHR 0xBC, CHR ''s''] then Some 1000
      else if u = ''ms'' then Some 1000000
      else if u = ''s'' then Some 1000000000
      else if u = ''m'' then Some 60000000000
      else if u = ''h'' then Some 3600000000000
      else None)"

text \<open>The digits of a fraction as an integer and the power of ten below it; those that do not fit are dropped.\<close>

fun fraction_value :: "bool \<Rightarrow> int \<Rightarrow> int \<Rightarrow> bytes \<Rightarrow> int \<times> int" where
  "fraction_value over x scale [] = (x, scale)"
| "fraction_value over x scale (c # cs) =
     (if over \<or> (2 ^ 63 - 1) div 10 < x then fraction_value True x scale cs
      else (let y = x * 10 + (int (bval c) - 48)
            in if 2 ^ 63 < y then fraction_value True x scale cs else fraction_value False y (scale * 10) cs))"

definition fraction_ns :: "int \<Rightarrow> int \<Rightarrow> int \<Rightarrow> int" where
  "fraction_ns f unit scale =
     int64_of_float 0 (float_mul (float_of_int f) (float_div (float_of_int unit) (float_of_int scale)))"

definition unit_char :: "char \<Rightarrow> bool" where
  "unit_char c \<longleftrightarrow> \<not> (c = CHR ''.'' \<or> is_digit c)"

text \<open>One number with its unit: the nanoseconds and what follows.\<close>

definition duration_term :: "bytes \<Rightarrow> (int \<times> bytes) option" where
  "duration_term s =
     (let whole = takeWhile is_digit s; s1 = dropWhile is_digit s;
          dot = (s1 \<noteq> [] \<and> hd s1 = CHR ''.'');
          frac = (if dot then takeWhile is_digit (tl s1) else []);
          s2 = (if dot then dropWhile is_digit (tl s1) else s1);
          u = takeWhile unit_char s2; s3 = dropWhile unit_char s2;
          v = int (read_nat whole)
      in if s = [] \<or> unit_char (hd s) \<or> (whole \<noteq> [] \<and> 2 ^ 63 < v) \<or> (whole = [] \<and> frac = []) \<or> u = [] then None
         else case unit_ns u of
           None \<Rightarrow> None
         | Some unit \<Rightarrow>
             if 2 ^ 63 div unit < (if whole = [] then 0 else v) then None
             else
               (case fraction_value False 0 1 frac of (f, scale) \<Rightarrow>
                  let n = (if whole = [] then 0 else v) * unit + (if 0 < f then fraction_ns f unit scale else 0)
                  in if 2 ^ 63 < n then None else Some (n, s3)))"

lemma duration_term_shorter:
  assumes "duration_term s = Some (n, t)"
  shows "length t < length s"
proof -
  let ?s1 = "dropWhile is_digit s"
  let ?dot = "?s1 \<noteq> [] \<and> hd ?s1 = CHR ''.''"
  let ?s2 = "if ?dot then dropWhile is_digit (tl ?s1) else ?s1"
  have u: "takeWhile unit_char ?s2 \<noteq> []" and t: "t = dropWhile unit_char ?s2"
    using assms by (auto simp: duration_term_def Let_def split: if_splits option.splits prod.splits)
  have "length (takeWhile unit_char ?s2) + length t = length ?s2"
    unfolding t by (metis length_append takeWhile_dropWhile_id)
  then have "length t < length ?s2"
    using u by (cases "takeWhile unit_char ?s2") simp_all
  moreover have "length (dropWhile is_digit (tl ?s1)) \<le> length ?s1" "length ?s1 \<le> length s"
    using length_dropWhile_le [of is_digit "tl ?s1"] length_dropWhile_le [of is_digit s] by simp_all
  then have "length ?s2 \<le> length s"
    by (simp only: split: if_split)  simp
  ultimately show ?thesis
    by simp
qed

text \<open>The sum is kept in an unsigned 64-bit integer.\<close>

function duration_sum :: "int \<Rightarrow> bytes \<Rightarrow> int option" where
  "duration_sum d s =
     (if s = [] then Some d
      else case duration_term s of
        None \<Rightarrow> None
      | Some (n, t) \<Rightarrow>
          (let d' = (d + n) mod 2 ^ 64 in if 2 ^ 63 < d' then None else duration_sum d' t))"
  by auto
termination
  by (relation "measure (\<lambda>(d, s). length s)") (auto dest: duration_term_shorter)

declare duration_sum.simps [simp del]

definition ParseDuration :: "bytes \<Rightarrow> int option" where
  "ParseDuration s =
     (let neg = (s \<noteq> [] \<and> hd s = CHR ''-'');
          rest = (if s \<noteq> [] \<and> (hd s = CHR ''-'' \<or> hd s = CHR ''+'') then tl s else s)
      in if rest = ''0'' then Some 0
         else if rest = [] then None
         else case duration_sum 0 rest of
           None \<Rightarrow> None
         | Some d \<Rightarrow> if neg then Some (- d) else if 2 ^ 63 - 1 < d then None else Some d)"

subsection \<open>\<open>FlagSet.Parse\<close>\<close>

datatype flag_value =
    StringFlag bytes
  | IntFlag int
  | BoolFlag bool
  | DurationFlag int
  | CustomFlag "(bytes, bytes) gomap"

type_synonym flag_set = "(bytes, flag_value) gomap"

datatype flag_error = FlagHelp | FlagFailed bytes

definition set_flag :: "((bytes, bytes) gomap \<Rightarrow> bytes \<Rightarrow> (bytes, bytes) gomap option) \<Rightarrow> flag_value \<Rightarrow> bytes \<Rightarrow> flag_value option" where
  "set_flag custom old v =
     (case old of
        StringFlag _ \<Rightarrow> Some (StringFlag v)
      | IntFlag _ \<Rightarrow> map_option IntFlag (parse_int0 v)
      | BoolFlag _ \<Rightarrow> map_option BoolFlag (parse_bool v)
      | DurationFlag _ \<Rightarrow> map_option DurationFlag (ParseDuration v)
      | CustomFlag h \<Rightarrow> map_option CustomFlag (custom h v))"

definition is_bool_flag :: "flag_value \<Rightarrow> bool" where
  "is_bool_flag f = (case f of BoolFlag _ \<Rightarrow> True | _ \<Rightarrow> False)"

text \<open>
  The flags before the first argument that is none, each with its value after \<open>=\<close> or in the next argument;
  \<open>--\<close> ends them. The result holds what is left.
\<close>

function parse_flags ::
  "((bytes, bytes) gomap \<Rightarrow> bytes \<Rightarrow> (bytes, bytes) gomap option) \<Rightarrow> flag_set \<Rightarrow> bytes list \<Rightarrow> flag_error + flag_set \<times> bytes list" where
  "parse_flags custom fs args =
     (case args of
        [] \<Rightarrow> Inr (fs, [])
      | s # rest \<Rightarrow>
          if length s < 2 \<or> hd s \<noteq> CHR ''-'' then Inr (fs, args)
          else if s = ''--'' then Inr (fs, rest)
          else
            (let name0 = (if s ! 1 = CHR ''-'' then drop 2 s else drop 1 s)
             in if name0 = [] \<or> hd name0 = CHR ''-'' \<or> hd name0 = CHR ''='' then Inl (FlagFailed s)
                else
                  (case cut_at (CHR ''='') name0 of (name, v, hasValue) \<Rightarrow>
                     (case map_of fs name of
                        None \<Rightarrow> if name = ''help'' \<or> name = ''h'' then Inl FlagHelp else Inl (FlagFailed s)
                      | Some f \<Rightarrow>
                          if is_bool_flag f \<or> hasValue then
                            (case set_flag custom f (if hasValue then v else ''true'') of
                               None \<Rightarrow> Inl (FlagFailed s)
                             | Some f' \<Rightarrow> parse_flags custom (AList.update name f' fs) rest)
                          else
                            (case rest of
                               [] \<Rightarrow> Inl (FlagFailed s)
                             | v' # rest' \<Rightarrow>
                                 (case set_flag custom f v' of
                                    None \<Rightarrow> Inl (FlagFailed s)
                                  | Some f' \<Rightarrow> parse_flags custom (AList.update name f' fs) rest'))))))"
  by pat_completeness auto
termination
  by (relation "measure (\<lambda>(custom, fs, args). length args)") auto

declare parse_flags.simps [simp del]

definition string_flag :: "flag_set \<Rightarrow> bytes \<Rightarrow> bytes" where
  "string_flag fs n = (case map_of fs n of Some (StringFlag s) \<Rightarrow> s | _ \<Rightarrow> [])"

definition int_flag :: "flag_set \<Rightarrow> bytes \<Rightarrow> int" where
  "int_flag fs n = (case map_of fs n of Some (IntFlag i) \<Rightarrow> i | Some (DurationFlag i) \<Rightarrow> i | _ \<Rightarrow> 0)"

definition bool_flag :: "flag_set \<Rightarrow> bytes \<Rightarrow> bool" where
  "bool_flag fs n = (case map_of fs n of Some (BoolFlag b) \<Rightarrow> b | _ \<Rightarrow> False)"

definition custom_flag :: "flag_set \<Rightarrow> bytes \<Rightarrow> (bytes, bytes) gomap" where
  "custom_flag fs n = (case map_of fs n of Some (CustomFlag h) \<Rightarrow> h | _ \<Rightarrow> [])"

subsection \<open>What parsing keeps\<close>

lemma parse_flags_step:
  assumes "parse_flags custom fs args = Inr (fs', rest)"
  obtains (stop) "fs' = fs"
  | (set) name f x f' args' where "map_of fs name = Some f" "set_flag custom f x = Some f'" "length args' < length args"
      "parse_flags custom (AList.update name f' fs) args' = Inr (fs', rest)"
proof (cases args)
  case Nil
  then show thesis
    using assms by (intro stop) (simp add: parse_flags.simps)
next
  case (Cons s more)
  let ?name0 = "if s ! 1 = CHR ''-'' then drop 2 s else drop 1 s"
  obtain name v hasValue where c: "cut_at (CHR ''='') ?name0 = (name, v, hasValue)"
    by (metis prod_cases3)
  show thesis
  proof (cases "length s < 2 \<or> hd s \<noteq> CHR ''-'' \<or> s = ''--''")
    case True
    then show thesis
      using assms Cons by (intro stop) (auto simp: parse_flags.simps split: if_splits)
  next
    case False
    then obtain f where f: "map_of fs name = Some f"
      using assms Cons c by (cases "map_of fs name") (auto simp: parse_flags.simps Let_def split: if_splits)
    let ?d = "is_bool_flag f \<or> hasValue"
    let ?x = "if hasValue then v else ''true''"
    have p: "parse_flags custom fs args =
        (if ?name0 = [] \<or> hd ?name0 = CHR ''-'' \<or> hd ?name0 = CHR ''='' then Inl (FlagFailed s)
         else if ?d then (case set_flag custom f ?x of None \<Rightarrow> Inl (FlagFailed s)
             | Some f' \<Rightarrow> parse_flags custom (AList.update name f' fs) more)
         else (case more of [] \<Rightarrow> Inl (FlagFailed s)
             | v' # rest' \<Rightarrow> (case set_flag custom f v' of None \<Rightarrow> Inl (FlagFailed s)
                 | Some f' \<Rightarrow> parse_flags custom (AList.update name f' fs) rest')))"
      unfolding Cons using False f c by (subst parse_flags.simps) (simp add: Let_def)
    show thesis
    proof (cases ?d)
      case True
      then obtain f' where "set_flag custom f ?x = Some f'" "parse_flags custom (AList.update name f' fs) more = Inr (fs', rest)"
        using assms p by (auto split: if_splits option.splits)
      then show thesis
        using f Cons by (intro set) auto
    next
      case False
      then obtain v' rest' f' where "more = v' # rest'" "set_flag custom f v' = Some f'"
        "parse_flags custom (AList.update name f' fs) rest' = Inr (fs', rest)"
        using assms p by (auto split: if_splits option.splits list.splits)
      then show thesis
        using f Cons by (intro set) auto
    qed
  qed
qed

text \<open>What every value satisfies is kept if setting a value keeps it.\<close>

lemma parse_flags_values:
  assumes "parse_flags custom fs args = Inr (fs', rest)" "\<And>n v. map_of fs n = Some v \<Longrightarrow> P n v"
    "\<And>n v x v'. P n v \<Longrightarrow> set_flag custom v x = Some v' \<Longrightarrow> P n v'"
  shows "map_of fs' n = Some v \<Longrightarrow> P n v"
  using assms(1,2)
proof (induction args arbitrary: fs n v rule: length_induct)
  case (1 args)
  from "1.prems"(2) show ?case
  proof (cases rule: parse_flags_step)
    case stop
    then show ?thesis
      using "1.prems" by simp
  next
    case (set name f x f' args')
    have "P name f'"
      using assms(3) [OF "1.prems"(3) [OF set(1)] set(2)] .
    then have "P m u" if "map_of (AList.update name f' fs) m = Some u" for m u
      using that "1.prems"(3) by (auto simp: map_simps split: if_splits)
    then show ?thesis
      using "1.IH" set(3,4) "1.prems"(1) by blast
  qed
qed

lemma parse_uint0_bound: "parse_int0 s = Some n \<Longrightarrow> - (2 ^ 63) \<le> n \<and> n < 2 ^ 63"
  by (auto simp: parse_int0_def Let_def split: option.splits if_splits)

end
