(* ===== verification/LockFrame.thy ===== *)
theory LockFrame
  imports CrashSafety
begin

section \<open>Who holds the lock\<close>

text \<open>
  No operation of an open store gives up the lock on the journal or its own note of it; opening takes
  the lock if and only if it succeeds, and closing gives it back whatever fails.
\<close>

definition noted :: "Store \<Rightarrow> nat" where "noted s = (if lock s then 1 else 0)"

definition held :: "world \<Rightarrow> nat" where "held w = (if flockHeld w then 1 else 0)"

lemma held_iff: "held w' = held w \<longleftrightarrow> flockHeld w' = flockHeld w" "noted s' = noted s \<longleftrightarrow> lock s' = lock s"
  by (simp_all add: held_def noted_def)

definition same_lock :: "Store \<Rightarrow> world \<Rightarrow> Store \<Rightarrow> world \<Rightarrow> bool" where
  "same_lock s w s' w' \<longleftrightarrow> noted s' = noted s \<and> held w' = held w"

lemma same_lock_refl [simp]: "same_lock s w s w"
  by (simp add: same_lock_def)

lemma same_lock_trans: "same_lock s w s1 w1 \<Longrightarrow> same_lock s1 w1 s2 w2 \<Longrightarrow> same_lock s w s2 w2"
  by (simp add: same_lock_def)

lemma held_updates [simp]:
  "held (w\<lparr>inodes := x\<rparr>) = held w" "held (w\<lparr>dir := d\<rparr>) = held w" "held (w\<lparr>durableEntry := e\<rparr>) = held w" "held (w\<lparr>faults := fs\<rparr>) = held w"
  by (simp_all add: held_def)

lemma noted_updates [simp]:
  "noted (s\<lparr>journalFile := f\<rparr>) = noted s" "noted (s\<lparr>records := n\<rparr>) = noted s" "noted (s\<lparr>persistenceErr := e\<rparr>) = noted s"
  "noted (s\<lparr>prunedDeliveries := p\<rparr>) = noted s" "noted (s\<lparr>compactionsSucceeded := p\<rparr>) = noted s" "noted (s\<lparr>compactionsFailed := p\<rparr>) = noted s"
  by (simp_all add: noted_def)

lemma calls_flock:
  "attempt w = (ok, w') \<Longrightarrow> held w' = held w"
  "os_write f p w = (ok, w') \<Longrightarrow> held w' = held w"
  "os_sync f w = (ok, w') \<Longrightarrow> held w' = held w"
  "os_stat f w = (n, w') \<Longrightarrow> held w' = held w"
  "os_read f w = (t, w') \<Longrightarrow> held w' = held w"
  "os_create_temp name w = (c, w') \<Longrightarrow> held w' = held w"
  "os_rename name f w = (ok, w') \<Longrightarrow> held w' = held w"
  "os_remove name w = (r, w') \<Longrightarrow> held w' = held w"
  "os_sync_dir w = (ok, w') \<Longrightarrow> held w' = held w"
  "os_open_journal w = (j, w') \<Longrightarrow> held w' = held w"
proof -
  show a: "held w' = held w" if "attempt w = (ok, w')" for w ok w'
    using attempt_frame(1) [OF that] by (simp add: same_place_def held_def)
  have sy: "held w' = held w" if "syscall w = (ok, w')" for w ok w'
    using that by (auto simp: syscall_def held_def split: list.splits)
  show "os_write f p w = (ok, w') \<Longrightarrow> held w' = held w"
    by (auto simp: os_write_def append_inode_def dest!: sy split: prod.splits fault.splits if_splits)
  show "os_sync f w = (ok, w') \<Longrightarrow> held w' = held w" "os_stat f w = (n, w') \<Longrightarrow> held w' = held w"
    "os_read f w = (t, w') \<Longrightarrow> held w' = held w" "os_rename name f w = (ok, w') \<Longrightarrow> held w' = held w"
    "os_sync_dir w = (ok, w') \<Longrightarrow> held w' = held w"
    by (auto simp: os_sync_def sync_inode_def os_stat_def os_read_def os_rename_def os_sync_dir_def dest!: a
        split: prod.splits if_splits)
  show "os_create_temp name w = (c, w') \<Longrightarrow> held w' = held w" "os_remove name w = (r, w') \<Longrightarrow> held w' = held w"
    by (auto simp: os_create_temp_def os_remove_def Let_def dest!: a split: prod.splits if_splits)
  show "os_open_journal w = (j, w') \<Longrightarrow> held w' = held w"
    by (auto simp: os_open_journal_def dest!: a split: prod.splits if_splits option.splits dirEntry.splits)
qed

lemma remove_flock [simp]: "held (snd (os_remove name w)) = held w"
  by (metis calls_flock(8) prod.collapse)

lemma fail_lock [simp]: "failPersistenceLocked c s = (e, s') \<Longrightarrow> noted s' = noted s"
  by (auto simp: failPersistenceLocked_def noted_def split: option.splits)

lemma set_lock [simp]: "noted (setLocked d h s) = noted s"
  by (simp add: setLocked_def Let_def noted_def)

lemma delete_lock [simp]: "noted (deleteLocked i s) = noted s"
  by (simp add: deleteLocked_def Let_def noted_def split: option.split)

lemma fold_delete_lock [simp]: "noted (fold deleteLocked ids s) = noted s"
  by (induction ids arbitrary: s) simp_all

lemma appendData_lock: "appendDataLocked p n s w = (r, s', w') \<Longrightarrow> same_lock s w s' w'"
  by (auto simp: appendDataLocked_def same_lock_def dest!: calls_flock(2,3) fail_lock split: option.splits prod.splits if_splits)

lemma append_lock: "appendLocked d h s w = (r, s', w') \<Longrightarrow> same_lock s w s' w'"
  by (auto simp: appendLocked_def dest: appendData_lock split: option.splits)

lemma persist_lock: "persistLocked d s w = (r, s', w') \<Longrightarrow> same_lock s w s' w'"
  by (auto simp: persistLocked_def Let_def same_lock_def dest!: append_lock split: option.splits prod.splits)

lemma persist_return_lock: "persist_return d s w = (r, s', w') \<Longrightarrow> same_lock s w s' w'"
  by (auto simp: persist_return_def dest!: persist_lock split: option.splits prod.splits)

lemma admission_lock: "checkAdmissionLocked d h s w = (r, s', w') \<Longrightarrow> same_lock s w s' w'"
  by (auto simp: checkAdmissionLocked_def same_lock_def dest!: calls_flock(4) fail_lock split: option.splits prod.splits if_splits)

lemma Create_lock:
  assumes "Create up sha raw req now s w = (r, s', w')"
  shows "same_lock s w s' w'"
  using assms
proof (cases rule: Create_cases)
  case (refused d h e)
  then show ?thesis
    using admission_lock by blast
next
  case (failed d h e w1)
  then show ?thesis
    using admission_lock append_lock same_lock_trans by blast
next
  case (created d h w1 s2)
  then show ?thesis
    using admission_lock [OF created(3)] append_lock [OF created(4)] by (simp add: same_lock_def)
qed simp_all

lemma claim_loop_lock: "claim_loop now lease cs cl s w = (r, s', w') \<Longrightarrow> same_lock s w s' w'"
proof (induction cs arbitrary: cl s w)
  case (Cons c cs)
  obtain a s1 w1 where a: "appendLocked (claim_item now lease c) (lookup_or [] (hashes s) (ID (claim_item now lease c))) s w = (a, s1, w1)"
    by (cases "appendLocked (claim_item now lease c) (lookup_or [] (hashes s) (ID (claim_item now lease c))) s w") auto
  show ?case
    using Cons a append_lock [OF a] by (fastforce simp: Let_def same_lock_def split: option.splits)
qed simp

lemma syncDirectory_lock: "syncDirectory w = (r, w') \<Longrightarrow> held w' = held w"
  by (auto simp: syncDirectory_def dest!: calls_flock(1,9) split: prod.splits if_splits)

lemma adopt_lock: "compact_adopt f n s w = (r, s', w') \<Longrightarrow> same_lock s w s' w'"
  by (auto simp: compact_adopt_def adoptCompactedLocked_def Let_def failPersistenceLocked_def same_lock_def
      dest!: calls_flock(1) syncDirectory_lock split: prod.splits option.splits if_splits)

lemma write_records_lock: "write_records f es w = (r, w') \<Longrightarrow> held w' = held w"
  by (induction f es w rule: write_records.induct) (auto dest!: calls_flock(2) split: option.splits prod.splits if_splits)

lemma compact_write_lock: "compact_write f s w = (r, w') \<Longrightarrow> held w' = held w"
  by (auto simp: compact_write_def dest!: calls_flock(1,3) write_records_lock split: option.splits prod.splits if_splits)

lemma compact_cleanup_lock: "compact_cleanup name renamed e w = (r, w') \<Longrightarrow> held w' = held w"
  by (auto simp: compact_cleanup_def Let_def dest!: calls_flock(1,8) split: prod.splits if_splits)

lemma compact_body_lock: "compact_body s w = (r, s', w') \<Longrightarrow> same_lock s w s' w'"
  by (auto simp: compact_body_def same_lock_def
      dest!: calls_flock(6,7) compact_write_lock compact_cleanup_lock adopt_lock split: option.splits prod.splits if_splits)

lemma Compact_lock: "Compact s w = (r, s', w') \<Longrightarrow> same_lock s w s' w'"
  by (auto simp: Compact_def same_lock_def dest!: compact_body_lock split: option.splits prod.splits)

lemma run_op_lock: "run_op up sha x s w = (s', w') \<Longrightarrow> same_lock s w s' w'"
proof (induction up sha x s w rule: run_op.induct)
  case (1 up sha raw req now s w)
  then show ?case
    using Create_lock by (fastforce simp: snd_def split: prod.splits)
next
  case (2 up sha now lease limit eligible s w)
  then show ?case
    using claim_loop_lock by (fastforce simp: ClaimDueMatching_def snd_def split: prod.splits if_splits)
next
  case (3 up sha i att code now s w)
  then show ?case
    using persist_lock by (fastforce simp: Succeed_def snd_def split: prod.splits sum.splits)
next
  case (4 up sha i att code msg nxt terminal now s w)
  then show ?case
    using persist_lock by (fastforce simp: Fail_def snd_def split: prod.splits sum.splits)
next
  case (5 up sha i now s w)
  then show ?case
    using persist_return_lock by (fastforce simp: Cancel_def snd_def split: prod.splits option.splits if_splits)
next
  case (6 up sha i now s w)
  then show ?case
    using persist_return_lock by (fastforce simp: Retry_def snd_def split: prod.splits option.splits if_splits)
next
  case (7 up sha before s w)
  then show ?case
    by (auto simp: PruneTerminal_def Let_def same_lock_def dest!: appendData_lock split: prod.splits option.splits if_splits)
next
  case (8 up sha s w)
  then show ?case
    using Compact_lock by (fastforce simp: snd_def split: prod.splits)
qed

subsection \<open>Opening and closing\<close>

lemma remove_names_lock: "remove_names names w = (r, w') \<Longrightarrow> held w' = held w"
  by (induction names w rule: remove_names.induct) (auto dest!: calls_flock(8) split: prod.splits if_splits)

lemma removeAbandoned_lock: "removeAbandonedCompactions w = (r, w') \<Longrightarrow> held w' = held w"
  by (auto simp: removeAbandonedCompactions_def Let_def dest!: calls_flock(1) remove_names_lock syncDirectory_lock
      split: prod.splits if_splits option.splits)

lemma apply_lock: "applyRecord r n s = Inr s' \<Longrightarrow> noted s' = noted (s :: Store)"
  by (auto simp: applyRecord_def split: if_splits option.splits)

lemma replay_loop_lock: "replay_loop data n s = Inr (s', m) \<Longrightarrow> noted s' = noted (s :: Store)"
proof (induction data n s rule: replay_loop.induct)
  case (1 rest line s)
  show ?case
    using "1.prems" "1.IH" apply_lock
    by (subst (asm) replay_loop.simps) (fastforce split: prod.splits if_splits option.splits sum.splits)
qed

lemma replay_lock: "replay s w = (r, w') \<Longrightarrow> held w' = held w \<and> (\<forall>s'. r = Inr s' \<longrightarrow> noted s' = noted s)"
  by (auto simp: replay_def dest!: calls_flock(1,5) replay_loop_lock split: option.splits prod.splits if_splits sum.splits)

lemma noted_new [simp]: "noted (new_store f limit) = 1"
  by (simp add: noted_def new_store_def)

lemma open_locked_lock:
  "open_locked limit w = (r, w') \<Longrightarrow> held w' = held w \<and> (\<forall>s. r = Inr s \<longrightarrow> noted s = 1)"
  by (auto simp: open_locked_def Let_def dest!: calls_flock(1,10) removeAbandoned_lock syncDirectory_lock replay_lock
      split: option.splits prod.splits if_splits)

lemma acquire_lock:
  assumes "acquireJournalLock w = (q, w')"
  shows "held w' = (if q = None then 1 else held w)" "q = None \<Longrightarrow> held w = 0"
proof -
  obtain a w1 b w2 c w3 where s: "attempt w = (a, w1)" "attempt w1 = (b, w2)" "attempt w2 = (c, w3)"
    by (metis prod.exhaust)
  note eqs = calls_flock(1) [OF s(1)] calls_flock(1) [OF s(2)] calls_flock(1) [OF s(3)]
  have "(q, w') = (if \<not> a then (Some (IOError [OpenLock]), w1) else if \<not> b then (Some (IOError [ChmodLock]), w2)
      else if held w3 = 1 then (Some ErrJournalLocked, w3) else if \<not> c then (Some (IOError [FlockCall]), w3)
      else (None, w3\<lparr>flockHeld := True\<rparr>))"
    using assms s by (cases a; cases b; cases c; cases "flockHeld w3"; simp add: acquireJournalLock_def held_def)
  moreover have "held (w3\<lparr>flockHeld := True\<rparr>) = 1" "held w3 = 1 \<or> held w3 = 0"
    by (simp_all add: held_def)
  ultimately have "held w' = (if q = None then 1 else held w) \<and> (q = None \<longrightarrow> held w = 0)"
    using eqs by (simp split: if_splits)
  then show "held w' = (if q = None then 1 else held w)" "q = None \<Longrightarrow> held w = 0"
    by simp_all
qed

lemma release_lock: "releaseJournalLock True w = (e, w') \<Longrightarrow> held w' = 0"
  by (auto simp: releaseJournalLock_def held_def split: prod.splits)

lemma Open_lock:
  assumes "Open options w = (r, w')"
  shows "held w' = (if \<exists>s. r = Inr s then 1 else held w)" "r = Inr s \<Longrightarrow> noted s = 1 \<and> held w = 0"
proof -
  have "held w' = (if \<exists>s. r = Inr s then 1 else held w) \<and> (\<forall>s. r = Inr s \<longrightarrow> noted s = 1 \<and> held w = 0)"
  proof (cases "1 < length options \<or> (case options of [] \<Rightarrow> 0 | l # _ \<Rightarrow> l) < 0")
    case True
    then have "r = Inl OptionsInvalid" "w' = w"
      using assms by (cases "1 < length options"; simp add: Open_def Let_def)+
    then show ?thesis
      by simp
  next
    case False
    obtain made w1 where m: "attempt w = (made, w1)"
      by (cases "attempt w")
    obtain q w2 where q: "acquireJournalLock w1 = (q, w2)"
      by (cases "acquireJournalLock w1")
    obtain x w3 where x: "open_locked (case options of [] \<Rightarrow> 0 | l # _ \<Rightarrow> l) w2 = (x, w3)"
      by (cases "open_locked (case options of [] \<Rightarrow> 0 | l # _ \<Rightarrow> l) w2")
    obtain e w4 where e: "releaseJournalLock True w3 = (e, w4)"
      by (cases "releaseJournalLock True w3")
    note facts = calls_flock(1) [OF m] acquire_lock [OF q] open_locked_lock [OF x] release_lock [OF e]
    show ?thesis
      using assms False m q x e facts
      by (cases made; cases q; cases x) (auto simp: Open_def Let_def)
  qed
  then show "held w' = (if \<exists>s. r = Inr s then 1 else held w)" "r = Inr s \<Longrightarrow> noted s = 1 \<and> held w = 0"
    by blast+
qed

lemma Close_world:
  assumes "Close s w = (e, s', w')"
  shows "lock s \<Longrightarrow> \<not> flockHeld w'" "inodes w' = inodes w" "dir w' = dir w" "base w' = base w" "durableEntry w' = durableEntry w"
proof -
  have fr: "inodes w2 = inodes w1 \<and> dir w2 = dir w1 \<and> base w2 = base w1 \<and> durableEntry w2 = durableEntry w1"
    if "attempt w1 = (ok, w2)" for ok w1 w2
    using attempt_frame [OF that] by (simp add: same_place_def)
  have rel: "(l \<longrightarrow> \<not> flockHeld w2) \<and> inodes w2 = inodes w1 \<and> dir w2 = dir w1 \<and> base w2 = base w1 \<and> durableEntry w2 = durableEntry w1"
    if "releaseJournalLock l w1 = (x, w2)" for l x w1 w2
    using that
    by (auto simp: releaseJournalLock_def dest!: fr split: prod.splits if_splits)
  have "(lock s \<longrightarrow> \<not> flockHeld w') \<and> inodes w' = inodes w \<and> dir w' = dir w \<and> base w' = base w \<and> durableEntry w' = durableEntry w"
    using assms
    by (auto simp: Close_def dest!: rel fr split: prod.splits option.splits)
  then show "lock s \<Longrightarrow> \<not> flockHeld w'" "inodes w' = inodes w" "dir w' = dir w" "base w' = base w" "durableEntry w' = durableEntry w"
    by simp_all
qed

end
