(* ===== verification/Daemon.thy ===== *)
theory Daemon
  imports Flags Api Target LockFrame
begin

section \<open>The daemon: \<open>cmd/spoold\<close>\<close>

text \<open>
  The command line, the listener and the order of start and shutdown. What happens between is
  the work of the pool, the API and the compactor, which all act on the store by its operations: a
  list of operations with the outcomes of their system calls. The process prints log lines and
  messages; a message on standard error is kept, log lines are left out.
\<close>

subsection \<open>Configuration\<close>

definition defaultMaxJournalBytes :: int where "defaultMaxJournalBytes = push_bit 30 1"

record config =
  cfgListen :: bytes
  cfgUnixSocket :: bytes
  cfgJournalPath :: bytes
  cfgMaxJournalBytes :: int
  cfgTerminalRetention :: int
  cfgConcurrency :: int
  cfgPerTargetWorkers :: int
  cfgAllowPrivateTargets :: bool
  cfgRequestTimeout :: int
  cfgShutdownTimeout :: int
  cfgCompactThreshold :: int
  cfgCompactInterval :: int
  cfgShowVersion :: bool

definition zero_config :: config where
  "zero_config =
     \<lparr>cfgListen = [], cfgUnixSocket = [], cfgJournalPath = [], cfgMaxJournalBytes = 0, cfgTerminalRetention = 0,
      cfgConcurrency = 0, cfgPerTargetWorkers = 0, cfgAllowPrivateTargets = False, cfgRequestTimeout = 0,
      cfgShutdownTimeout = 0, cfgCompactThreshold = 0, cfgCompactInterval = 0, cfgShowVersion = False\<rparr>"

definition second :: int where "second = 1000000000"

definition daemon_flags :: flag_set where
  "daemon_flags =
     [(''listen'', StringFlag ''127.0.0.1:8080''), (''unix-socket'', StringFlag []),
      (''journal'', StringFlag ''data/spoold.journal''), (''max-journal-bytes'', IntFlag defaultMaxJournalBytes),
      (''terminal-retention'', DurationFlag DefaultRetention), (''workers'', IntFlag 4), (''per-target-workers'', IntFlag 1),
      (''allow-private-targets'', BoolFlag False), (''request-timeout'', DurationFlag (10 * second)),
      (''shutdown-timeout'', DurationFlag (10 * second)), (''compact-threshold-bytes'', IntFlag DefaultThresholdBytes),
      (''compact-check-interval'', DurationFlag DefaultCheckInterval), (''version'', BoolFlag False)]"

definition config_of :: "flag_set \<Rightarrow> config" where
  "config_of fs =
     \<lparr>cfgListen = string_flag fs ''listen'', cfgUnixSocket = string_flag fs ''unix-socket'',
      cfgJournalPath = string_flag fs ''journal'', cfgMaxJournalBytes = int_flag fs ''max-journal-bytes'',
      cfgTerminalRetention = int_flag fs ''terminal-retention'', cfgConcurrency = int_flag fs ''workers'',
      cfgPerTargetWorkers = int_flag fs ''per-target-workers'', cfgAllowPrivateTargets = bool_flag fs ''allow-private-targets'',
      cfgRequestTimeout = int_flag fs ''request-timeout'', cfgShutdownTimeout = int_flag fs ''shutdown-timeout'',
      cfgCompactThreshold = int_flag fs ''compact-threshold-bytes'', cfgCompactInterval = int_flag fs ''compact-check-interval'',
      cfgShowVersion = bool_flag fs ''version''\<rparr>"

text \<open>The message for the first rule a configuration breaks.\<close>

definition config_problem :: "config \<Rightarrow> bytes option" where
  "config_problem cfg =
     (if cfgJournalPath cfg = [] then Some ''spoold: -journal must not be empty''
      else if cfgMaxJournalBytes cfg < 0 then Some ''spoold: -max-journal-bytes must not be negative''
      else if cfgTerminalRetention cfg < 0 then Some ''spoold: -terminal-retention must not be negative''
      else if cfgConcurrency cfg < 1 then Some ''spoold: -workers must be at least 1''
      else if cfgPerTargetWorkers cfg < 1 \<or> cfgConcurrency cfg < cfgPerTargetWorkers cfg
        then Some ''spoold: -per-target-workers must be between 1 and -workers''
      else if cfgRequestTimeout cfg \<le> 0 then Some ''spoold: -request-timeout must be positive''
      else if cfgShutdownTimeout cfg \<le> 0 then Some ''spoold: -shutdown-timeout must be positive''
      else if cfgCompactThreshold cfg < 0 then Some ''spoold: -compact-threshold-bytes must not be negative''
      else if cfgCompactInterval cfg \<le> 0 then Some ''spoold: -compact-check-interval must be positive''
      else if cfgUnixSocket cfg = [] \<and> cfgListen cfg = [] then Some ''spoold: -listen must not be empty''
      else None)"

text \<open>
  The configuration, the exit code (0 to go on) and the message. What \<open>Parse\<close> itself prints,
  the usage, is left out; asking for help is an error of \<open>Parse\<close> as well.
\<close>

definition parseConfig :: "bytes list \<Rightarrow> config \<times> int \<times> bytes option" where
  "parseConfig args =
     (case parse_flags (\<lambda>_ _. None) daemon_flags args of
        Inl _ \<Rightarrow> (zero_config, 2, None)
      | Inr (fs, rest) \<Rightarrow>
          if rest \<noteq> [] then (zero_config, 2, Some ''spoold: positional arguments are not supported'')
          else if cfgShowVersion (config_of fs) then (config_of fs, 0, None)
          else case config_problem (config_of fs) of
            Some msg \<Rightarrow> (zero_config, 2, Some msg)
          | None \<Rightarrow> (config_of fs, 0, None))"

definition worker_config :: "config \<Rightarrow> WorkerConfig" where
  "worker_config cfg =
     \<lparr>Concurrency = cfgConcurrency cfg, PollInterval = 0, LeaseDuration = 0, BaseBackoff = 0, MaxBackoff = 0,
      PerTarget = cfgPerTargetWorkers cfg\<rparr>"

definition compactor_config :: "config \<Rightarrow> CompactorConfig" where
  "compactor_config cfg =
     \<lparr>ThresholdBytes = cfgCompactThreshold cfg, CheckInterval = cfgCompactInterval cfg, Retention = cfgTerminalRetention cfg\<rparr>"

subsection \<open>The listener\<close>

text \<open>
  The part of the file system that sockets live in: what a path names, a socket or something else;
  whether somebody accepts connections on a socket, and whether only its owner may connect. A script gives the
  outcomes of the calls. Connecting to a socket on which nobody listens is refused; a connection to a
  live one is made, or fails in another way (a timeout), but is not refused.
\<close>

datatype sock_entry = NotSocket | SocketAt (accepting: bool) (owner_only: bool)

record sockets =
  sockEntries :: "(bytes, sock_entry) gomap"
  sockFaults :: "fault list"

definition sock_attempt :: "sockets \<Rightarrow> bool \<times> sockets" where
  "sock_attempt k = (case sockFaults k of [] \<Rightarrow> (True, k) | f # fs \<Rightarrow> (f = Success, k\<lparr>sockFaults := fs\<rparr>))"

datatype dial_result = Connected | Refused | DialFailed

definition dial_unix :: "bytes \<Rightarrow> sockets \<Rightarrow> dial_result \<times> sockets" where
  "dial_unix path k =
     (case sock_attempt k of (ok, k') \<Rightarrow>
        (if \<not> ok then DialFailed
         else case map_of (sockEntries k) path of Some (SocketAt a _) \<Rightarrow> if a then Connected else Refused | _ \<Rightarrow> DialFailed, k'))"

definition remove_path :: "bytes \<Rightarrow> sockets \<Rightarrow> bool \<times> sockets" where
  "remove_path path k =
     (case sock_attempt k of (ok, k') \<Rightarrow>
        if ok then (True, k'\<lparr>sockEntries := AList.delete path (sockEntries k')\<rparr>) else (False, k'))"

definition listen_unix :: "bytes \<Rightarrow> sockets \<Rightarrow> bool \<times> sockets" where
  "listen_unix path k =
     (case sock_attempt k of (ok, k') \<Rightarrow>
        if ok \<and> map_of (sockEntries k') path = None
        then (True, k'\<lparr>sockEntries := AList.update path (SocketAt True False) (sockEntries k')\<rparr>) else (False, k'))"

definition chmod_owner :: "bytes \<Rightarrow> sockets \<Rightarrow> bool \<times> sockets" where
  "chmod_owner path k =
     (case sock_attempt k of (ok, k') \<Rightarrow>
        case map_of (sockEntries k') path of
          Some (SocketAt a _) \<Rightarrow>
            if ok then (True, k'\<lparr>sockEntries := AList.update path (SocketAt a True) (sockEntries k')\<rparr>) else (False, k')
        | _ \<Rightarrow> (False, k'))"

text \<open>A Unix listener takes its path away when it is closed, the first time.\<close>

datatype listener = TcpListener bytes | UnixListener bytes

definition close_listener :: "listener \<Rightarrow> sockets \<Rightarrow> bool \<times> sockets" where
  "close_listener l k =
     (case l of
        TcpListener _ \<Rightarrow> sock_attempt k
      | UnixListener path \<Rightarrow> sock_attempt (k\<lparr>sockEntries := AList.delete path (sockEntries k)\<rparr>))"

datatype listen_error =
    ListenTcp | NotAbsolute | SocketDirectory | ExistsNotSocket | SocketInUse | InspectDial | RemoveStale
  | InspectPath | ListenUnix | SocketPermissions

text \<open>What is already at the path: nothing, a stale socket that is removed, or an error.\<close>

definition free_path :: "bytes \<Rightarrow> sockets \<Rightarrow> listen_error option \<times> sockets" where
  "free_path path k =
     (case map_of (sockEntries k) path of
        None \<Rightarrow> (None, k)
      | Some NotSocket \<Rightarrow> (Some ExistsNotSocket, k)
      | Some (SocketAt _ _) \<Rightarrow>
          (case dial_unix path k of
             (Connected, k3) \<Rightarrow> (Some SocketInUse, k3)
           | (DialFailed, k3) \<Rightarrow> (Some InspectDial, k3)
           | (Refused, k3) \<Rightarrow> (case remove_path path k3 of (ok, k4) \<Rightarrow> (if ok then None else Some RemoveStale, k4))))"

definition openListener :: "bytes \<Rightarrow> bytes \<Rightarrow> sockets \<Rightarrow> (listen_error + listener) \<times> sockets" where
  "openListener address socketPath k =
     (if socketPath = [] then
        (case sock_attempt k of (ok, k1) \<Rightarrow> (if ok then Inr (TcpListener address) else Inl ListenTcp, k1))
      else if hd socketPath \<noteq> CHR ''/'' then (Inl NotAbsolute, k)
      else case sock_attempt k of (made, k1) \<Rightarrow>
        if \<not> made then (Inl SocketDirectory, k1)
        else case sock_attempt k1 of (statted, k2) \<Rightarrow>
          if \<not> statted then (Inl InspectPath, k2)
          else
            (case free_path socketPath k2 of
               (Some e, k5) \<Rightarrow> (Inl e, k5)
             | (None, k5) \<Rightarrow>
                 (case listen_unix socketPath k5 of (ok, k6) \<Rightarrow>
                    if \<not> ok then (Inl ListenUnix, k6)
                    else case chmod_owner socketPath k6 of (ok', k7) \<Rightarrow>
                      if \<not> ok'
                      then (Inl SocketPermissions, snd (remove_path socketPath (snd (close_listener (UnixListener socketPath) k7))))
                      else (Inr (UnixListener socketPath), k7))))"

text \<open>
  The cleanup function. The HTTP server has closed the listener before, so that closing it again does
  nothing (\<open>net.ErrClosed\<close>); the path is removed whatever it names by then.
\<close>

definition cleanup_listener :: "listener \<Rightarrow> sockets \<Rightarrow> bool \<times> sockets" where
  "cleanup_listener l k =
     (case l of
        TcpListener _ \<Rightarrow> (True, k)
      | UnixListener path \<Rightarrow>
          (case remove_path path k of (ok, k') \<Rightarrow> (ok \<or> map_of (sockEntries k) path = None, k')))"

subsection \<open>\<open>run\<close>\<close>

datatype serve_end = SignalReceived | ServerClosed | ServerFailed

text \<open>
  What comes from outside while the daemon serves: the operations on the store, each with the outcomes of its
  system calls, how serving ended, whether the shutdown of the HTTP server was graceful, and what other
  processes did to the sockets in the meantime.
\<close>

record session =
  sessUrl :: "bytes \<Rightarrow> url option"
  sessSha :: "bytes \<Rightarrow> bytes"
  sessWork :: "(op \<times> fault list) list"
  sessEnd :: serve_end
  sessShutdown :: bool
  sessOthers :: "sockets \<Rightarrow> sockets"

fun work :: "session \<Rightarrow> (op \<times> fault list) list \<Rightarrow> Store \<Rightarrow> world \<Rightarrow> Store \<times> world" where
  "work ss [] s w = (s, w)"
| "work ss ((x, fs) # xs) s w =
     (case run_op (sessUrl ss) (sessSha ss) x s (w\<lparr>faults := fs\<rparr>) of (s', w') \<Rightarrow> work ss xs s' w')"

definition run_daemon ::
  "session \<Rightarrow> bytes list \<Rightarrow> world \<Rightarrow> sockets \<Rightarrow> int \<times> world \<times> sockets" where
  "run_daemon ss args w k =
     (case parseConfig args of (cfg, code, _) \<Rightarrow>
        if code \<noteq> 0 then (code, w, k)
        else if cfgShowVersion cfg then (0, w, k)
        else case Open [cfgMaxJournalBytes cfg] w of
          (Inl _, w1) \<Rightarrow> (1, w1, k)
        | (Inr s, w1) \<Rightarrow>
            (case openListener (cfgListen cfg) (cfgUnixSocket cfg) k of
               (Inl _, k1) \<Rightarrow> (case Close s w1 of (_, _, w2) \<Rightarrow> (1, w2, k1))
             | (Inr l, k1) \<Rightarrow>
                 (case work ss (sessWork ss) s w1 of (s1, w2) \<Rightarrow>
                    case close_listener l k1 of (_, k2) \<Rightarrow>
                    case Close s1 w2 of (errs, _, w3) \<Rightarrow>
                    case cleanup_listener l (sessOthers ss k2) of (_, k3) \<Rightarrow>
                      (if sessEnd ss = ServerFailed \<or> \<not> sessShutdown ss \<or> errs \<noteq> [] then 1 else 0, w3, k3))))"


subsection \<open>Facts about the listener\<close>

lemma sock_attempt_entries: "sock_attempt k = (ok, k') \<Longrightarrow> sockEntries k' = sockEntries k"
  by (auto simp: sock_attempt_def split: list.splits)

lemma dial_facts:
  assumes "dial_unix path k = (r, k')"
  shows "sockEntries k' = sockEntries k \<and> (r = Refused \<longrightarrow> (\<exists>m. map_of (sockEntries k) path = Some (SocketAt False m)))"
  using assms by (auto simp: dial_unix_def split: prod.splits if_splits option.splits sock_entry.splits dest!: sock_attempt_entries)

lemma remove_facts:
  assumes "remove_path path k = (ok, k')"
  shows "map_of (sockEntries k') = (if ok then (map_of (sockEntries k))(path := None) else map_of (sockEntries k))"
  using assms by (auto simp: remove_path_def map_simps split: prod.splits if_splits dest!: sock_attempt_entries)

lemma listen_facts:
  assumes "listen_unix path k = (ok, k')"
  shows "map_of (sockEntries k') = (if ok then (map_of (sockEntries k))(path \<mapsto> SocketAt True False) else map_of (sockEntries k))"
    "ok \<Longrightarrow> map_of (sockEntries k) path = None"
  using assms by (auto simp: listen_unix_def map_simps split: prod.splits if_splits dest!: sock_attempt_entries)

lemma chmod_facts:
  assumes "chmod_owner path k = (ok, k')" "map_of (sockEntries k) path = Some (SocketAt a m)"
  shows "map_of (sockEntries k') = (if ok then (map_of (sockEntries k))(path \<mapsto> SocketAt a True) else map_of (sockEntries k))"
  using assms by (auto simp: chmod_owner_def map_simps split: prod.splits if_splits dest!: sock_attempt_entries)

lemma close_facts:
  assumes "close_listener (UnixListener path) k = (ok, k')"
  shows "map_of (sockEntries k') = (map_of (sockEntries k))(path := None)"
  using sock_attempt_entries [of "k\<lparr>sockEntries := AList.delete path (sockEntries k)\<rparr>" ok k'] assms
  by (simp add: close_listener_def map_simps)

lemma free_path_facts:
  assumes "free_path path k = (r, k')"
  shows "r \<noteq> None \<Longrightarrow> map_of (sockEntries k') = map_of (sockEntries k)"
    "r = None \<Longrightarrow> map_of (sockEntries k') = (map_of (sockEntries k))(path := None) \<and>
       (map_of (sockEntries k) path = None \<or> (\<exists>m. map_of (sockEntries k) path = Some (SocketAt False m)))"
  using assms
  by (auto simp: free_path_def split: option.splits sock_entry.splits prod.splits dial_result.splits if_splits
      dest!: dial_facts remove_facts)


lemma openListener_tcp:
  "openListener address [] k = (r, k') \<Longrightarrow> sockEntries k' = sockEntries k \<and> (r = Inl ListenTcp \<or> r = Inr (TcpListener address))"
  by (auto simp: openListener_def split: prod.splits if_splits dest!: sock_attempt_entries)

text \<open>The path afterwards: as it was, or free, or taken by the new socket.\<close>

lemma openListener_unix:
  assumes "openListener address path k = (r, k')" "path \<noteq> []"
  obtains (untouched) e where "r = Inl e" "map_of (sockEntries k') = map_of (sockEntries k)"
  | (cleared) e m where "r = Inl e" "map_of (sockEntries k') = (map_of (sockEntries k))(path := None)"
      "map_of (sockEntries k) path = None \<or> map_of (sockEntries k) path = Some (SocketAt False m)"
  | (listening) m where "r = Inr (UnixListener path)" "hd path = CHR ''/''"
      "map_of (sockEntries k') = (map_of (sockEntries k))(path \<mapsto> SocketAt True True)"
      "map_of (sockEntries k) path = None \<or> map_of (sockEntries k) path = Some (SocketAt False m)"
proof (cases "hd path = CHR ''/''")
  case False
  then show thesis
    using assms by (intro untouched) (auto simp: openListener_def)
next
  case abs: True
  obtain made k1 where made: "sock_attempt k = (made, k1)"
    by (cases "sock_attempt k")
  obtain statted k2 where st: "sock_attempt k1 = (statted, k2)"
    by (cases "sock_attempt k1")
  obtain e k5 where f: "free_path path k2 = (e, k5)"
    by (cases "free_path path k2")
  obtain ok k6 where l: "listen_unix path k5 = (ok, k6)"
    by (cases "listen_unix path k5")
  obtain ok' k7 where c: "chmod_owner path k6 = (ok', k7)"
    by (cases "chmod_owner path k6")
  obtain cl k8 where cl: "close_listener (UnixListener path) k7 = (cl, k8)"
    by (cases "close_listener (UnixListener path) k7")
  obtain rm k9 where rm: "remove_path path k8 = (rm, k9)"
    by (cases "remove_path path k8")
  have same: "sockEntries k2 = sockEntries k" "sockEntries k1 = sockEntries k"
    using sock_attempt_entries [OF made] sock_attempt_entries [OF st] by simp_all
  have eq: "(r, k') =
      (if \<not> made then (Inl SocketDirectory, k1) else if \<not> statted then (Inl InspectPath, k2)
       else case e of Some er \<Rightarrow> (Inl er, k5)
         | None \<Rightarrow> if \<not> ok then (Inl ListenUnix, k6) else if \<not> ok' then (Inl SocketPermissions, k9) else (Inr (UnixListener path), k7))"
    using assms abs made st f l c cl rm
    by (cases made; cases statted; cases e; cases ok; cases ok'; simp add: openListener_def)
  note free = free_path_facts [OF f]
  show thesis
  proof (cases "made \<and> statted \<and> e = None")
    case False
    then have "(\<exists>er. r = Inl er) \<and> map_of (sockEntries k') = map_of (sockEntries k)"
      using eq same free(1) by (cases e) (auto split: if_splits)
    then show thesis
      using untouched by blast
  next
    case True
    then obtain m where m: "map_of (sockEntries k5) = (map_of (sockEntries k))(path := None)"
      "map_of (sockEntries k) path = None \<or> map_of (sockEntries k) path = Some (SocketAt False m)"
      using free(2) same by auto
    note li = listen_facts [OF l]
    show thesis
    proof (cases ok)
      case False
      then have "r = Inl ListenUnix" "k' = k6"
        using eq True by simp_all
      then show thesis
        using m li(1) False cleared by simp
    next
      case ok: True
      then have k6: "map_of (sockEntries k6) = (map_of (sockEntries k))(path \<mapsto> SocketAt True False)"
        using li(1) m(1) by simp
      then have k7: "map_of (sockEntries k7) = (if ok' then (map_of (sockEntries k6))(path \<mapsto> SocketAt True True) else map_of (sockEntries k6))"
        using chmod_facts [OF c, of True False] by simp
      show thesis
      proof (cases ok')
        case True
        then have "r = Inr (UnixListener path)" "k' = k7"
          using eq \<open>made \<and> statted \<and> e = None\<close> ok by simp_all
        then show thesis
          using True k6 k7 m(2) abs listening by simp
      next
        case False
        then have "r = Inl SocketPermissions" "k' = k9"
          using eq True ok by simp_all
        moreover have "map_of (sockEntries k9) = (map_of (sockEntries k))(path := None)"
          using remove_facts [OF rm] close_facts [OF cl] k6 k7 False by (simp split: if_splits)
        ultimately show thesis
          using m(2) cleared by simp
      qed
    qed
  qed
qed

subsection \<open>Facts about a run\<close>

lemma work_lock: "work ss xs s w = (s', w') \<Longrightarrow> same_lock s w s' w'"
proof (induction xs arbitrary: s w)
  case (Cons a xs)
  obtain x fs where a: "a = (x, fs)"
    by (cases a)
  obtain s1 w1 where r: "run_op (sessUrl ss) (sessSha ss) x s (w\<lparr>faults := fs\<rparr>) = (s1, w1)"
    by (cases "run_op (sessUrl ss) (sessSha ss) x s (w\<lparr>faults := fs\<rparr>)")
  have "same_lock s w s1 w1"
    using run_op_lock [OF r] by (simp add: same_lock_def)
  then show ?case
    using Cons a r same_lock_trans by auto
qed simp

text \<open>Every operation of the session is given what it may be given.\<close>

fun fit_work :: "session \<Rightarrow> (op \<times> fault list) list \<Rightarrow> Store \<Rightarrow> world \<Rightarrow> bool" where
  "fit_work ss [] s w = True"
| "fit_work ss ((x, fs) # xs) s w =
     (inputs_ok (sessUrl ss) x s \<and>
      (case run_op (sessUrl ss) (sessSha ss) x s (w\<lparr>faults := fs\<rparr>) of (s', w') \<Rightarrow> fit_work ss xs s' w'))"

lemma work_history:
  assumes "history (sessUrl ss) (sessSha ss) s w" "fit_work ss xs s w" "work ss xs s w = (s', w')"
  shows "history (sessUrl ss) (sessSha ss) s' w'"
  using assms
proof (induction xs arbitrary: s w)
  case (Cons a xs)
  obtain x fs where a: "a = (x, fs)"
    by (cases a)
  obtain s1 w1 where r: "run_op (sessUrl ss) (sessSha ss) x s (w\<lparr>faults := fs\<rparr>) = (s1, w1)"
    by (cases "run_op (sessUrl ss) (sessSha ss) x s (w\<lparr>faults := fs\<rparr>)")
  have "history (sessUrl ss) (sessSha ss) s1 w1"
    using history.operation [OF history.environment [OF Cons.prems(1)] _ r] Cons.prems(2) a by simp
  then show ?case
    using Cons a r by simp
qed simp

lemma parse_code: "parseConfig args = (cfg, code, msg) \<Longrightarrow> code = 0 \<or> code = 2"
  by (auto simp: parseConfig_def split: sum.splits prod.splits if_splits option.splits)

lemma durable_closed:
  assumes "durable s w" "Close s1 w = (e, s2, w')"
  shows "durable s w'"
  using assms(1) Close_world [OF assms(2)]
  by (auto simp: durable_def holds_def journal_entry_def on_disk_def)

lemma run_cases:
  assumes "run_daemon ss args w k = (code, w', k')"
  obtains (usage) "code = 2" "fst (snd (parseConfig args)) = 2" "w' = w" "k' = k"
  | (version) "code = 0" "cfgShowVersion (fst (parseConfig args))" "fst (snd (parseConfig args)) = 0" "w' = w" "k' = k"
  | (no_journal) e where "code = 1" "Open [cfgMaxJournalBytes (fst (parseConfig args))] w = (Inl e, w')" "k' = k"
      "fst (snd (parseConfig args)) = 0" "\<not> cfgShowVersion (fst (parseConfig args))"
  | (no_listener) s w1 e x s2 where "code = 1" "Open [cfgMaxJournalBytes (fst (parseConfig args))] w = (Inr s, w1)"
      "openListener (cfgListen (fst (parseConfig args))) (cfgUnixSocket (fst (parseConfig args))) k = (Inl e, k')"
      "Close s w1 = (x, s2, w')" "fst (snd (parseConfig args)) = 0" "\<not> cfgShowVersion (fst (parseConfig args))"
  | (served) s w1 l k1 s1 w2 errs s2 where "Open [cfgMaxJournalBytes (fst (parseConfig args))] w = (Inr s, w1)"
      "openListener (cfgListen (fst (parseConfig args))) (cfgUnixSocket (fst (parseConfig args))) k = (Inr l, k1)"
      "work ss (sessWork ss) s w1 = (s1, w2)" "Close s1 w2 = (errs, s2, w')"
      "code = (if sessEnd ss = ServerFailed \<or> \<not> sessShutdown ss \<or> errs \<noteq> [] then 1 else 0)"
      "fst (snd (parseConfig args)) = 0" "\<not> cfgShowVersion (fst (parseConfig args))"
proof -
  obtain cfg c msg where p: "parseConfig args = (cfg, c, msg)"
    by (cases "parseConfig args") auto
  show thesis
  proof (cases "c = 0 \<and> \<not> cfgShowVersion cfg")
    case False
    then show thesis
      using assms p parse_code [OF p] usage version by (auto simp: run_daemon_def)
  next
    case ok: True
    obtain q w1 where q: "Open [cfgMaxJournalBytes cfg] w = (q, w1)"
      by (cases "Open [cfgMaxJournalBytes cfg] w")
    show thesis
    proof (cases q)
      case (Inl e)
      then show thesis
        using assms p ok q by (intro no_journal [of e]) (simp_all add: run_daemon_def)
    next
      case (Inr s)
      obtain r k1 where r: "openListener (cfgListen cfg) (cfgUnixSocket cfg) k = (r, k1)"
        by (cases "openListener (cfgListen cfg) (cfgUnixSocket cfg) k")
      show thesis
      proof (cases r)
        case (Inl e)
        obtain x s2 w2 where "Close s w1 = (x, s2, w2)"
          by (cases "Close s w1") auto
        then show thesis
          using assms p ok q r Inl \<open>q = Inr s\<close> by (intro no_listener [of s w1 e x s2]) (simp_all add: run_daemon_def)
      next
        case l: (Inr l)
        obtain s1 w2 where wk: "work ss (sessWork ss) s w1 = (s1, w2)"
          by (cases "work ss (sessWork ss) s w1")
        obtain errs s2 w3 where cl: "Close s1 w2 = (errs, s2, w3)"
          by (cases "Close s1 w2") auto
        show thesis
          using assms p ok q r l \<open>q = Inr s\<close> wk cl
          by (intro served [of s w1 l k1 s1 w2 errs s2]) (auto simp: run_daemon_def split: prod.splits)
      qed
    qed
  qed
qed


section \<open>Properties of the daemon\<close>

text \<open>
  C37. The daemon never takes a path that is in use. Opening the listener touches no other path; something
  that is not a socket, or a socket on which somebody listens, stays and is an error; a stale socket is the only thing
  that is removed. When it succeeds, the path was free or stale, is absolute, and is now a socket that accepts
  connections of its owner only.
\<close>

theorem listener_takes_free_path:
  assumes "openListener address path k = (r, k')" "path \<noteq> []"
  shows "(\<forall>q. q \<noteq> path \<longrightarrow> map_of (sockEntries k') q = map_of (sockEntries k) q) \<and>
    (map_of (sockEntries k) path = Some NotSocket \<or> map_of (sockEntries k) path = Some (SocketAt True m) \<longrightarrow>
       (\<exists>e. r = Inl e) \<and> map_of (sockEntries k') path = map_of (sockEntries k) path) \<and>
    (\<forall>l. r = Inr l \<longrightarrow> l = UnixListener path \<and> hd path = CHR ''/'' \<and> map_of (sockEntries k') path = Some (SocketAt True True) \<and>
       (map_of (sockEntries k) path = None \<or> (\<exists>m. map_of (sockEntries k) path = Some (SocketAt False m))))"
  using assms by (cases rule: openListener_unix) auto

theorem listener_takes_free_path_witness:
  "\<exists>r k'. openListener [] ''/s'' \<lparr>sockEntries = [(''/s'', SocketAt True True)], sockFaults = []\<rparr> = (r, k') \<and>
     (\<exists>e. r = Inl e) \<and> map_of (sockEntries k') ''/s'' = Some (SocketAt True True)"
proof -
  let ?k = "\<lparr>sockEntries = [(''/s'', SocketAt True True)], sockFaults = []\<rparr>"
  obtain r k' where r: "openListener [] ''/s'' ?k = (r, k')"
    by (cases "openListener [] ''/s'' ?k")
  show ?thesis
    using r listener_takes_free_path [OF r, of True] by simp
qed

text \<open>
  C38. The cleanup at exit removes the path whatever it names by then. If another daemon has taken the same
  path after the first one closed its listener (which frees the path) and before its cleanup, the cleanup
  succeeds and removes the socket on which the other daemon listens: nobody can connect to it any more.
\<close>

theorem cleanup_removes_successor:
  assumes "openListener a path k = (Inr (UnixListener path), k1)" "close_listener (UnixListener path) k1 = (c, k2)" "path \<noteq> []"
    "openListener b path k2 = (Inr (UnixListener path), k3)" "sockFaults k3 = []"
  shows "map_of (sockEntries k2) path = None \<and> map_of (sockEntries k3) path = Some (SocketAt True True) \<and>
    fst (cleanup_listener (UnixListener path) k3) \<and>
    map_of (sockEntries (snd (cleanup_listener (UnixListener path) k3))) path = None"
proof -
  obtain ok k4 where r: "remove_path path k3 = (ok, k4)"
    by (cases "remove_path path k3")
  have ok
    using r assms(5) by (simp add: remove_path_def sock_attempt_def)
  moreover have "map_of (sockEntries k3) path = Some (SocketAt True True)"
    using assms(4,3) by (cases rule: openListener_unix) auto
  ultimately show ?thesis
    using r remove_facts [OF r] close_facts [OF assms(2)] by (simp add: cleanup_listener_def)
qed

theorem cleanup_removes_successor_witness:
  "\<exists>k3. openListener [] ''/s'' \<lparr>sockEntries = [], sockFaults = []\<rparr> = (Inr (UnixListener ''/s''), k3) \<and>
     map_of (sockEntries k3) ''/s'' = Some (SocketAt True True) \<and>
     map_of (sockEntries (snd (cleanup_listener (UnixListener ''/s'') k3))) ''/s'' = None"
proof -
  let ?k = "\<lparr>sockEntries = [], sockFaults = []\<rparr>" and ?k1 = "\<lparr>sockEntries = [(''/s'', SocketAt True True)], sockFaults = []\<rparr>"
  have o: "openListener [] ''/s'' ?k = (Inr (UnixListener ''/s''), ?k1)"
    by (simp add: openListener_def sock_attempt_def free_path_def listen_unix_def chmod_owner_def)
  moreover have "close_listener (UnixListener ''/s'') ?k1 = (True, ?k)"
    by (simp add: close_listener_def sock_attempt_def)
  ultimately show ?thesis
    using cleanup_removes_successor [of "[]" "''/s''" ?k ?k1 True ?k "[]" ?k1] by simp
qed

text \<open>
  C39. A run from its arguments to its exit. It leaves the lock on the journal as it found it, on every path,
  whatever fails. The exit code is 2 exactly for arguments it refuses, and then nothing was touched; it is
  0 or 1 otherwise, and 1 if the journal could not be opened (for one, because another daemon holds the lock).
\<close>

theorem daemon_exit:
  assumes "run_daemon ss args w k = (code, w', k')"
  shows "flockHeld w' = flockHeld w \<and> code \<in> {0, 1, 2} \<and>
    (code = 2 \<longleftrightarrow> fst (snd (parseConfig args)) \<noteq> 0) \<and> (code = 2 \<longrightarrow> w' = w \<and> k' = k) \<and>
    (flockHeld w \<and> code \<noteq> 2 \<and> \<not> cfgShowVersion (fst (parseConfig args)) \<longrightarrow>
       code = 1 \<and> k' = k \<and> inodes w' = inodes w \<and> same_place w w')"
  using assms
proof (cases rule: run_cases)
  case (no_journal e)
  have "flockHeld w' = flockHeld w"
    using Open_lock(1) [OF no_journal(2)] by (simp add: held_iff)
  moreover have "flockHeld w \<Longrightarrow> inodes w' = inodes w \<and> same_place w w'"
    using Open_held [OF _ no_journal(2)] by simp
  ultimately show ?thesis
    using no_journal by simp
next
  case (no_listener s w1 e x s2)
  have o: "lock s" "\<not> flockHeld w"
    using Open_lock(2) [OF no_listener(2) refl] by (simp_all add: held_def noted_def split: if_splits)
  have "\<not> flockHeld w'"
    using Close_world(1) [OF no_listener(4) o(1)] .
  then show ?thesis
    using no_listener(1,5) o(2) by simp
next
  case (served s w1 l k1 s1 w2 errs s2)
  have o: "lock s" "\<not> flockHeld w"
    using Open_lock(2) [OF served(1) refl] by (simp_all add: held_def noted_def split: if_splits)
  have "lock s1"
    using work_lock [OF served(3)] o(1) by (simp add: same_lock_def held_iff)
  then have "\<not> flockHeld w'"
    using Close_world(1) [OF served(4)] by simp
  then show ?thesis
    using served(5,6) o(2) by simp
qed simp_all

definition example_session :: session where
  "example_session =
     \<lparr>sessUrl = example_url, sessSha = example_sha, sessWork = [(OpCreate (Some example_raw) example_request 5, [])],
      sessEnd = SignalReceived, sessShutdown = True, sessOthers = id\<rparr>"

theorem daemon_exit_witness:
  "\<exists>w k. run_daemon example_session [''-workers=0''] example_w0 \<lparr>sockEntries = [], sockFaults = []\<rparr> = (2, w, k) \<and> w = example_w0"
proof -
  have "fst (snd (parseConfig [''-workers=0''])) = 2"
    by code_simp
  moreover obtain c w k where "run_daemon example_session [''-workers=0''] example_w0 \<lparr>sockEntries = [], sockFaults = []\<rparr> = (c, w, k)"
    by (metis prod.collapse)
  ultimately show ?thesis
    using daemon_exit by fastforce
qed

text \<open>
  C40. From start to start. The journal is opened in a state of a run, the daemon works (any operations of clients,
  workers and compactor, any failing system calls), stops, and the machine may crash afterwards. If no write has failed
  when the work ends, and every operation was one the journal can hold (JSON bodies nested at most 9998 levels deep, keys in UTF-8,
  new identifiers not in use, integers of 64 bits), then the next start finds all that was there when the work ended.
\<close>

theorem daemon_keeps_deliveries:
  assumes "run_daemon ss args w k = (code, w', k')" "Open [cfgMaxJournalBytes (fst (parseConfig args))] w = (Inr s, w1)"
    "openListener (cfgListen (fst (parseConfig args))) (cfgUnixSocket (fst (parseConfig args))) k = (Inr l, k1)"
    "fst (snd (parseConfig args)) = 0" "\<not> cfgShowVersion (fst (parseConfig args))"
    "history (sessUrl ss) (sessSha ss) s w1" "fit_work ss (sessWork ss) s w1" "work ss (sessWork ss) s w1 = (s1, w2)"
    "persistenceErr s1 = None" "0 \<le> limit"
  shows "\<exists>s2 w3. Open [limit] (crash keep old w') = (Inr s2, w3) \<and> tables_eq s2 (restored_tables s1) \<and> persistenceErr s2 = None"
  using assms(1)
proof (cases rule: run_cases)
  case (served s' w1' l' k1' s1' w2' errs s2)
  then have eq: "s1' = s1" "w2' = w2"
    using assms(2,8) by simp_all
  have "durable s1 w2"
    using history_ok [OF work_history [OF assms(6-8)]] by simp
  then have "durable s1 w'"
    using durable_closed served(4) eq by blast
  then obtain s2 w3 where "Open [limit] (crash keep old w') = (Inr s2, w3)" "persistenceErr s2 = None"
    "persistenceErr s1 = None \<longrightarrow> tables_eq s2 (restored_tables s1) \<and> durable s2 w3"
    using assms(10) by (rule crash_recovers)
  then show ?thesis
    using assms(9) by blast
qed (use assms in auto)

theorem daemon_keeps_deliveries_witness:
  "\<exists>code w' k' s2 w3. run_daemon example_session [''-max-journal-bytes=0''] (empty_world ''spool'') \<lparr>sockEntries = [], sockFaults = []\<rparr> =
       (code, w', k') \<and> Open [0] (crash (\<lambda>_. 0) True w') = (Inr s2, w3) \<and>
     map_of (items s2) example_id = Some (restored example_delivery)"
proof -
  let ?k = "\<lparr>sockEntries = [], sockFaults = []\<rparr>" and ?args = "[''-max-journal-bytes=0'']"
  obtain code w' k' where r: "run_daemon example_session ?args (empty_world ''spool'') ?k = (code, w', k')"
    by (cases "run_daemon example_session ?args (empty_world ''spool'') ?k") auto
  have cfg: "fst (snd (parseConfig ?args)) = 0" "\<not> cfgShowVersion (fst (parseConfig ?args))"
    "cfgMaxJournalBytes (fst (parseConfig ?args)) = 0" "cfgUnixSocket (fst (parseConfig ?args)) = []"
    by code_simp+
  have o: "Open [cfgMaxJournalBytes (fst (parseConfig ?args))] (empty_world ''spool'') = (Inr example_s0, example_w0)"
    using Open_empty [of 0 "''spool''"] cfg(3) by (simp add: example_s0_def example_w0_def)
  have l: "\<exists>l k1. openListener (cfgListen (fst (parseConfig ?args))) (cfgUnixSocket (fst (parseConfig ?args))) ?k = (Inr l, k1)"
    unfolding cfg(4) by (simp add: openListener_def sock_attempt_def)
  have f: "example_w0\<lparr>faults := []\<rparr> = example_w0"
    by (simp add: example_w0_def boot_world_def)
  have "history (sessUrl example_session) (sessSha example_session) example_s0 example_w0"
    "fit_work example_session (sessWork example_session) example_s0 example_w0"
    "work example_session (sessWork example_session) example_s0 example_w0 = (example_s1, example_w1)"
    using example_history(1) example_inputs(1) by (simp_all add: example_session_def f example_Create(1))
  then obtain s2 w3 where "Open [0] (crash (\<lambda>_. 0) True w') = (Inr s2, w3)" "tables_eq s2 (restored_tables example_s1)"
    using daemon_keeps_deliveries [OF r o] l cfg(1,2) example_s1_simps(4) by (metis order_refl)
  then show ?thesis
    using r by (auto simp: tables_eq_def example_s1_simps example_Clone)
qed


text \<open>
  The lease of the pool is fixed, the timeout of a request is not: there are accepted arguments with which a request
  may run twice as long as the lease on its delivery, while another worker may send to the same target.
\<close>

lemma timeout_may_exceed_lease:
  "\<exists>cfg. parseConfig [''-request-timeout=1m'', ''-per-target-workers=2''] = (cfg, 0, None) \<and>
     2 \<le> PerTarget (Pool.config (newPool (worker_config cfg))) \<and>
     cfgRequestTimeout cfg = 2 * LeaseDuration (Pool.config (newPool (worker_config cfg)))"
proof -
  have "fst (snd (parseConfig [''-request-timeout=1m'', ''-per-target-workers=2''])) = 0"
    "snd (snd (parseConfig [''-request-timeout=1m'', ''-per-target-workers=2''])) = None"
    "2 \<le> PerTarget (Pool.config (newPool (worker_config (fst (parseConfig [''-request-timeout=1m'', ''-per-target-workers=2''])))))"
    "cfgRequestTimeout (fst (parseConfig [''-request-timeout=1m'', ''-per-target-workers=2''])) =
       2 * LeaseDuration (Pool.config (newPool (worker_config (fst (parseConfig [''-request-timeout=1m'', ''-per-target-workers=2''])))))"
    by code_simp+
  then show ?thesis
    by (intro exI [of _ "fst (parseConfig [''-request-timeout=1m'', ''-per-target-workers=2''])"]) (simp add: prod_eq_iff)
qed

end
