(* ===== verification/Spoolctl.thy ===== *)
theory Spoolctl
  imports Flags Api
begin

section \<open>The command line client: \<open>internal/spoolctl\<close>\<close>

text \<open>
  Every command reads its arguments, makes at most one request to the daemon, and prints what came back.
  The environment of the process is a record: the variable \<open>SPOOLD_URL\<close>, files, standard input, whether
  writing to standard output works, and the exchange of a request for a reply, which has a state of its
  own, so that the API of theory \<open>Api\<close> can be put behind it. The usage texts and the wording of library
  errors are left out.
\<close>

definition defaultServer :: bytes where "defaultServer = ''http://127.0.0.1:8080''"

definition maxResponse :: nat where "maxResponse = 2 * 2 ^ 20"

datatype ctl_error =
    CtlHelp
  | CtlUsage bytes
  | CtlRemote int bytes bytes
  | CtlFailed bytes

record clientRequest =
  ccIdempotencyKey :: bytes
  ccTargetURL :: bytes
  ccMethod :: bytes
  ccHeaders :: "(bytes, bytes) gomap"
  ccBody :: bytes
  ccBodyBase64 :: bytes
  ccMaxAttempts :: int

record listResponse =
  lrDeliveries :: "Delivery list option"
  lrCount :: int

record client =
  baseURL :: url
  displayURL :: bytes
  socketPath :: "bytes option"

record apiRequest =
  specMethod :: bytes
  specPath :: bytes
  specQuery :: "(bytes \<times> bytes) list"
  specBody :: "bytes option"

text \<open>A request on its way: the server, the path below it, the query, and the body, if there is one.\<close>

record wire_request =
  wireMethod :: bytes
  wirePath :: bytes
  wireQuery :: bytes
  wireHeader :: header
  wireBody :: bytes

text \<open>A reply: its status, its data, and whether the data could be read to the end.\<close>

record wire_reply =
  replyStatus :: int
  replyData :: bytes
  replyWhole :: bool

record 'q process =
  parseURL :: "bytes \<Rightarrow> url option"
  serverVariable :: bytes
  openFile :: "bytes \<Rightarrow> (bytes \<times> bool) option"
  stdin :: "bytes \<times> bool"
  stdoutWorks :: bool
  exchangeWith :: "client \<Rightarrow> wire_request \<Rightarrow> 'q \<Rightarrow> wire_reply option \<times> 'q"
  statusText :: "int \<Rightarrow> bytes"
  buildVersion :: bytes
  tabulate :: "bytes \<Rightarrow> bytes"

subsection \<open>Headers, bodies, escaping\<close>

text \<open>\<open>headerValues.Set\<close>.\<close>

definition headerSet :: "(bytes, bytes) gomap \<Rightarrow> bytes \<Rightarrow> (bytes, bytes) gomap option" where
  "headerSet h v =
     (case cut_at (CHR '':'') v of (name0, headerValue, found) \<Rightarrow>
        let name = canonical_header_key (trim_space name0)
        in if \<not> found \<or> name = [] then None
           else if contains_any headerValue [CHR 0x0D, CHR 0x0A] then None
           else if map_of h name \<noteq> None then None
           else Some (AList.update name (trim_space headerValue) h))"

definition readBody :: "'q process \<Rightarrow> bytes \<Rightarrow> bytes \<Rightarrow> ctl_error + bytes" where
  "readBody p inline path =
     (if inline \<noteq> [] then Inr inline
      else if path = [] then Inr []
      else case (if path = ''-'' then Some (stdin p) else openFile p path) of
        None \<Rightarrow> Inl (CtlFailed ''open data file'')
      | Some (content, readable) \<Rightarrow>
          if \<not> readable then Inl (CtlFailed ''read request body'')
          else if MaxBodyBytes < int (length content) then Inl (CtlFailed ''request body exceeds 1048576 bytes'')
          else Inr content)"

definition unreserved :: "char \<Rightarrow> bool" where
  "unreserved c \<longleftrightarrow> is_digit c \<or> is_upper c \<or> is_lower c \<or> c \<in> set ''-_.~''"

definition upper_hex :: "nat \<Rightarrow> char" where
  "upper_hex n = upper_char (hex_char n)"

definition percent :: "char \<Rightarrow> bytes" where
  "percent c = [CHR ''%'', upper_hex (bval c div 16), upper_hex (bval c mod 16)]"

definition queryEscape :: "bytes \<Rightarrow> bytes" where
  "queryEscape s = concat (List.map (\<lambda>c. if unreserved c then [c] else if c = CHR '' '' then ''+'' else percent c) s)"

definition pathEscape :: "bytes \<Rightarrow> bytes" where
  "pathEscape s = concat (List.map (\<lambda>c. if unreserved c \<or> c \<in> set ''$&+=:@'' then [c] else percent c) s)"

text \<open>\<open>Values.Encode\<close>; the pairs are given in the order of their keys.\<close>

fun encode_query :: "(bytes \<times> bytes) list \<Rightarrow> bytes" where
  "encode_query [] = []"
| "encode_query [(k, v)] = queryEscape k @ ''='' @ queryEscape v"
| "encode_query ((k, v) # q # qs) = queryEscape k @ ''='' @ queryEscape v @ ''&'' @ encode_query (q # qs)"

text \<open>\<open>json.Marshal\<close> of the request: empty members are left out, a raw body is compacted.\<close>

definition client_members :: "clientRequest \<Rightarrow> (bytes \<times> bytes) list" where
  "client_members r =
     omit_empty ''idempotencyKey'' (ccIdempotencyKey r) @ [(''targetUrl'', json_string (ccTargetURL r))] @
     omit_empty ''method'' (ccMethod r) @
     (if length (ccHeaders r) = 0 then [] else [(''headers'', headers_text (ccHeaders r))]) @
     (if ccBody r = [] then [] else [(''body'', compact_from Out (ccBody r))]) @
     omit_empty ''bodyBase64'' (ccBodyBase64 r) @
     (if ccMaxAttempts r = 0 then [] else [(''maxAttempts'', show_int (ccMaxAttempts r))])"

definition marshal_client :: "clientRequest \<Rightarrow> bytes option" where
  "marshal_client r =
     (if ccBody r \<noteq> [] \<and> \<not> json_valid (ccBody r) then None else Some (object_of (client_members r)))"

subsection \<open>The connection\<close>

definition serverURL :: "'q process \<Rightarrow> bytes" where
  "serverURL p = (if trim_space (serverVariable p) \<noteq> [] then trim_space (serverVariable p) else defaultServer)"

definition trim_slashes :: "bytes \<Rightarrow> bytes" where
  "trim_slashes s = rev (dropWhile (\<lambda>c. c = CHR ''/'') (rev s))"

definition unix_base :: url where
  "unix_base = \<lparr>urlScheme = ''http'', urlUser = False, urlHost = ''spoold'', urlPath = [], urlRawQuery = [], urlFragment = []\<rparr>"

definition newUnixClient :: "bytes \<Rightarrow> url \<Rightarrow> bytes + client" where
  "newUnixClient rawURL parsed =
     (if urlHost parsed \<noteq> [] \<or> urlPath parsed = [] \<or> hd (urlPath parsed) \<noteq> CHR ''/''
      then Inl ''unix --server must contain an absolute socket path''
      else if urlUser parsed \<or> urlRawQuery parsed \<noteq> [] \<or> urlFragment parsed \<noteq> []
      then Inl ''unix --server must not include user information, a query, or a fragment''
      else Inr \<lparr>baseURL = unix_base, displayURL = rawURL, socketPath = Some (urlPath parsed)\<rparr>)"

definition newClient :: "'q process \<Rightarrow> bytes \<Rightarrow> bytes + client" where
  "newClient p rawURL0 =
     (let rawURL = trim_space rawURL0
      in case parseURL p rawURL of
        None \<Rightarrow> Inl ''parse --server''
      | Some parsed \<Rightarrow>
          if urlScheme parsed = ''unix'' then newUnixClient rawURL parsed
          else if urlScheme parsed \<noteq> ''http'' \<and> urlScheme parsed \<noteq> ''https''
            then Inl ''--server must use http, https, or unix''
          else if urlHost parsed = [] then Inl ''--server must include a host''
          else if urlUser parsed \<or> urlRawQuery parsed \<noteq> [] \<or> urlFragment parsed \<noteq> []
            then Inl ''--server must not include user information, a query, or a fragment''
          else Inr \<lparr>baseURL = parsed\<lparr>urlPath := trim_slashes (urlPath parsed)\<rparr>, displayURL = rawURL, socketPath = None\<rparr>)"

text \<open>The error object of a reply; what does not decode leaves it empty.\<close>

definition error_member :: "bytes \<times> bytes \<Rightarrow> bytes \<times> bytes \<Rightarrow> (bytes \<times> bytes) option" where
  "error_member m r =
     (case m of (k, v) \<Rightarrow>
        if named ''code'' k then map_option (\<lambda>x. (x, snd r)) (read_string (fst r) v)
        else if named ''message'' k then map_option (\<lambda>x. (fst r, x)) (read_string (snd r) v)
        else Some r)"

definition remote_member :: "bytes \<times> bytes \<Rightarrow> bytes \<times> bytes \<Rightarrow> (bytes \<times> bytes) option" where
  "remote_member m r =
     (case m of (k, v) \<Rightarrow>
        if named ''error'' k then
          (if v = null_text then Some r else Option.bind (object_members v) (\<lambda>ms. read_fields error_member ms r))
        else Some r)"

definition remote_error :: "'q process \<Rightarrow> int \<Rightarrow> bytes \<Rightarrow> ctl_error" where
  "remote_error p code data =
     (case (case read_struct remote_member ([], []) data of None \<Rightarrow> ([], []) | Some (c, m) \<Rightarrow> (c, trim_space m)) of
        (c, m) \<Rightarrow>
          let m1 = (if m = [] then trim_space data else m);
              m2 = (if m1 = [] then statusText p code else m1)
          in CtlRemote code c m2)"

text \<open>\<open>client.do\<close>, with the decoder of the expected answer.\<close>

definition wire_of :: "client \<Rightarrow> apiRequest \<Rightarrow> wire_request" where
  "wire_of c spec =
     (let h = (if specBody spec \<noteq> None then header_set ''Content-Type'' ''application/json'' [] else [])
      in \<lparr>wireMethod = specMethod spec, wirePath = trim_slashes (urlPath (baseURL c)) @ specPath spec,
          wireQuery = encode_query (specQuery spec), wireHeader = header_set ''Accept'' ''application/json'' h,
          wireBody = (case specBody spec of None \<Rightarrow> [] | Some b \<Rightarrow> b)\<rparr>)"

definition client_do ::
  "'q process \<Rightarrow> client \<Rightarrow> apiRequest \<Rightarrow> (bytes \<Rightarrow> 'r option) \<Rightarrow> 'q \<Rightarrow> (ctl_error + int \<times> 'r) \<times> 'q" where
  "client_do p c spec decode q =
     (case exchangeWith p c (wire_of c spec) q of
        (None, q') \<Rightarrow> (Inl (CtlFailed ''contact spoold''), q')
      | (Some rs, q') \<Rightarrow>
          (if \<not> replyWhole rs then (Inl (CtlFailed ''read spoold response''), q')
           else if maxResponse < length (replyData rs) then (Inl (CtlFailed ''spoold response exceeds size limit''), q')
           else if replyStatus rs < 200 \<or> 300 \<le> replyStatus rs
             then (Inl (remote_error p (replyStatus rs) (replyData rs)), q')
           else case decode (replyData rs) of
             None \<Rightarrow> (Inl (CtlFailed ''decode spoold response''), q')
           | Some x \<Rightarrow> (Inr (replyStatus rs, x), q')))"

subsection \<open>Output\<close>

definition delivery_row :: "bytes \<Rightarrow> Delivery \<Rightarrow> bytes" where
  "delivery_row action d =
     (let t = [CHR 0x09]
      in (if action \<noteq> [] then action @ t else []) @ ID d @ t @ Status d @ t @ show_int (Attempts d) @ ''/'' @
         show_int (MaxAttempts d) @ t @ Method d @ t @ TargetURL d @ [CHR 0x0A])"

definition table_head :: bytes where
  "table_head =
     (let t = [CHR 0x09] in ''ID'' @ t @ ''STATUS'' @ t @ ''ATTEMPTS'' @ t @ ''METHOD'' @ t @ ''TARGET'' @ [CHR 0x0A])"

text \<open>Output is a text, or an error if writing fails.\<close>

definition emit :: "'q process \<Rightarrow> bytes \<Rightarrow> ctl_error + bytes" where
  "emit p out = (if stdoutWorks p then Inr out else Inl (CtlFailed ''write''))"

definition printDeliveries :: "'q process \<Rightarrow> bytes \<Rightarrow> Delivery list \<Rightarrow> bool \<Rightarrow> ctl_error + bytes" where
  "printDeliveries p action ds head =
     emit p (tabulate p ((if head then table_head else []) @ concat (List.map (delivery_row action) ds)))"

text \<open>
  \<open>writeJSON\<close> does not escape the HTML characters; the text that \<open>MarshalJSON\<close> returns has them
  escaped already.
\<close>

definition emit_json :: "'q process \<Rightarrow> bytes option \<Rightarrow> ctl_error + bytes" where
  "emit_json p t = (case t of None \<Rightarrow> Inl (CtlFailed ''encode'') | Some s \<Rightarrow> emit p (s @ [CHR 0x0A]))"

definition list_response_json :: "listResponse \<Rightarrow> bytes option" where
  "list_response_json r =
     map_option (\<lambda>t. object_of [(''deliveries'', t), (''count'', show_int (lrCount r))])
       (case lrDeliveries r of None \<Rightarrow> Some null_text | Some ds \<Rightarrow> map_option array_of (those (List.map delivery_json ds)))"

definition array_elements :: "bytes \<Rightarrow> bytes list option" where
  "array_elements s =
     (let t = js_trim s
      in if 2 \<le> length t \<and> hd t = CHR ''['' \<and> last t = CHR '']'' then
           (let inner = butlast (tl t)
            in if js_trim inner = [] then Some [] else Some (List.map js_trim (split_commas 0 Out inner)))
         else None)"

definition list_member :: "bytes \<times> bytes \<Rightarrow> listResponse \<Rightarrow> listResponse option" where
  "list_member m r =
     (case m of (k, v) \<Rightarrow>
        if named ''deliveries'' k then
          (if v = null_text then Some (r\<lparr>lrDeliveries := None\<rparr>)
           else map_option (\<lambda>ds. r\<lparr>lrDeliveries := Some ds\<rparr>)
             (Option.bind (array_elements v) (\<lambda>xs. those (List.map UnmarshalJSON xs))))
        else if named ''count'' k then map_option (\<lambda>n. r\<lparr>lrCount := n\<rparr>) (json_int (lrCount r) v)
        else Some r)"

definition decode_list :: "bytes \<Rightarrow> listResponse option" where
  "decode_list data = read_struct list_member \<lparr>lrDeliveries = None, lrCount = 0\<rparr> data"

subsection \<open>The commands\<close>

text \<open>A command gives an error or its output, and the state of the other side.\<close>

type_synonym 'q outcome = "(ctl_error + bytes) \<times> 'q"

text \<open>What follows an answered request.\<close>

definition answered :: "(ctl_error + int \<times> 'r) \<times> 'q \<Rightarrow> (int \<Rightarrow> 'r \<Rightarrow> ctl_error + bytes) \<Rightarrow> 'q outcome" where
  "answered x output =
     (case x of (Inl e, q') \<Rightarrow> (Inl e, q') | (Inr (code, item), q') \<Rightarrow> (output code item, q'))"

definition parseFlags :: "flag_set \<Rightarrow> bytes list \<Rightarrow> ctl_error + flag_set \<times> bytes list" where
  "parseFlags fs args =
     (case parse_flags headerSet fs args of
        Inl FlagHelp \<Rightarrow> Inl CtlHelp
      | Inl (FlagFailed s) \<Rightarrow> Inl (CtlUsage s)
      | Inr r \<Rightarrow> Inr r)"

definition send_flags :: "'q process \<Rightarrow> flag_set" where
  "send_flags p =
     [(''server'', StringFlag (serverURL p)), (''method'', StringFlag ''POST''), (''idempotency-key'', StringFlag []),
      (''max-attempts'', IntFlag 0), (''data'', StringFlag []), (''data-file'', StringFlag []),
      (''data-binary'', StringFlag []), (''json'', BoolFlag False), (''header'', CustomFlag [])]"

definition send_payload :: "flag_set \<Rightarrow> bytes \<Rightarrow> bytes \<Rightarrow> clientRequest" where
  "send_payload fs target body =
     \<lparr>ccIdempotencyKey = string_flag fs ''idempotency-key'', ccTargetURL = target, ccMethod = string_flag fs ''method'',
      ccHeaders = custom_flag fs ''header'',
      ccBody = (if string_flag fs ''data-binary'' \<noteq> [] then [] else body),
      ccBodyBase64 = (if string_flag fs ''data-binary'' \<noteq> [] then b64_encode body else []),
      ccMaxAttempts = int_flag fs ''max-attempts''\<rparr>"

definition send_request :: "bytes \<Rightarrow> apiRequest" where
  "send_request body = \<lparr>specMethod = ''POST'', specPath = ''/v1/deliveries'', specQuery = [], specBody = Some body\<rparr>"

text \<open>Up to the request: the flags, the payload and the client.\<close>

definition send_prepare :: "'q process \<Rightarrow> bytes list \<Rightarrow> ctl_error + flag_set \<times> clientRequest \<times> client" where
  "send_prepare p args =
     (case parseFlags (send_flags p) args of
        Inl e \<Rightarrow> Inl e
      | Inr (fs, rest) \<Rightarrow>
          if length rest \<noteq> 1 then Inl (CtlUsage ''send requires exactly one target URL'')
          else if 1 < length (filter (\<lambda>s. s \<noteq> []) [string_flag fs ''data'', string_flag fs ''data-file'', string_flag fs ''data-binary''])
            then Inl (CtlUsage ''--data, --data-file, and --data-binary cannot be used together'')
          else
            (let binary = (string_flag fs ''data-binary'' \<noteq> []);
                 path = (if binary then string_flag fs ''data-binary'' else string_flag fs ''data-file'')
             in case readBody p (string_flag fs ''data'') path of
               Inl e \<Rightarrow> Inl e
             | Inr body \<Rightarrow>
                 if \<not> binary \<and> 0 < length body \<and> \<not> json_valid body then Inl (CtlUsage ''request body must be valid JSON'')
                 else case newClient p (string_flag fs ''server'') of
                   Inl e \<Rightarrow> Inl (CtlUsage e)
                 | Inr c \<Rightarrow> Inr (fs, send_payload fs (hd rest) body, c)))"

definition send_output :: "'q process \<Rightarrow> flag_set \<Rightarrow> int \<Rightarrow> Delivery \<Rightarrow> ctl_error + bytes" where
  "send_output p fs code item =
     (if bool_flag fs ''json'' then emit_json p (delivery_json item)
      else printDeliveries p (if code = 201 then ''queued'' else ''existing'') [item] False)"

definition runSend :: "'q process \<Rightarrow> bytes list \<Rightarrow> 'q \<Rightarrow> 'q outcome" where
  "runSend p args q =
     (case send_prepare p args of
        Inl e \<Rightarrow> (Inl e, q)
      | Inr (fs, payload, c) \<Rightarrow>
          (case marshal_client payload of
             None \<Rightarrow> (Inl (CtlFailed ''encode request''), q)
           | Some body \<Rightarrow>
               answered (client_do p c (send_request body) UnmarshalJSON q) (send_output p fs)))"

definition list_flags :: "'q process \<Rightarrow> flag_set" where
  "list_flags p =
     [(''server'', StringFlag (serverURL p)), (''status'', StringFlag []), (''limit'', IntFlag 100), (''json'', BoolFlag False)]"

definition list_query :: "flag_set \<Rightarrow> (bytes \<times> bytes) list" where
  "list_query fs =
     (''limit'', show_int (int_flag fs ''limit'')) #
     (if string_flag fs ''status'' \<noteq> [] then [(''status'', string_flag fs ''status'')] else [])"

definition list_output :: "'q process \<Rightarrow> flag_set \<Rightarrow> int \<Rightarrow> listResponse \<Rightarrow> ctl_error + bytes" where
  "list_output p fs code r =
     (if bool_flag fs ''json'' then emit_json p (list_response_json r)
      else printDeliveries p [] (case lrDeliveries r of None \<Rightarrow> [] | Some ds \<Rightarrow> ds) True)"

definition runList :: "'q process \<Rightarrow> bytes list \<Rightarrow> 'q \<Rightarrow> 'q outcome" where
  "runList p args q =
     (case parseFlags (list_flags p) args of
        Inl e \<Rightarrow> (Inl e, q)
      | Inr (fs, rest) \<Rightarrow>
          if rest \<noteq> [] then (Inl (CtlUsage ''list does not accept positional arguments''), q)
          else if int_flag fs ''limit'' < 1 \<or> 500 < int_flag fs ''limit''
            then (Inl (CtlUsage ''--limit must be between 1 and 500''), q)
          else case newClient p (string_flag fs ''server'') of
            Inl e \<Rightarrow> (Inl (CtlUsage e), q)
          | Inr c \<Rightarrow>
              answered (client_do p c \<lparr>specMethod = ''GET'', specPath = ''/v1/deliveries'', specQuery = list_query fs, specBody = None\<rparr>
                decode_list q) (list_output p fs))"

definition delivery_flags :: "'q process \<Rightarrow> flag_set" where
  "delivery_flags p = [(''server'', StringFlag (serverURL p)), (''json'', BoolFlag False)]"

definition delivery_path :: "bytes \<Rightarrow> bytes \<Rightarrow> bytes" where
  "delivery_path command i =
     ''/v1/deliveries/'' @ pathEscape i @ (if command \<noteq> ''get'' then ''/'' @ command else [])"

definition last_error_line :: "Delivery \<Rightarrow> bytes" where
  "last_error_line item = (if LastError item \<noteq> [] then ''last error: '' @ LastError item @ [CHR 0x0A] else [])"

definition delivery_output :: "'q process \<Rightarrow> flag_set \<Rightarrow> bytes \<Rightarrow> int \<Rightarrow> Delivery \<Rightarrow> ctl_error + bytes" where
  "delivery_output p fs command code item =
     (if bool_flag fs ''json'' then emit_json p (delivery_json item)
      else case printDeliveries p command [item] False of
        Inl e \<Rightarrow> Inl e
      | Inr out \<Rightarrow> Inr (out @ last_error_line item))"

definition runDeliveryCommand :: "'q process \<Rightarrow> bytes \<Rightarrow> bytes \<Rightarrow> bytes list \<Rightarrow> 'q \<Rightarrow> 'q outcome" where
  "runDeliveryCommand p command meth args q =
     (case parseFlags (delivery_flags p) args of
        Inl e \<Rightarrow> (Inl e, q)
      | Inr (fs, rest) \<Rightarrow>
          if length rest \<noteq> 1 then (Inl (CtlUsage (command @ '' requires exactly one delivery ID'')), q)
          else case newClient p (string_flag fs ''server'') of
            Inl e \<Rightarrow> (Inl (CtlUsage e), q)
          | Inr c \<Rightarrow>
              answered (client_do p c \<lparr>specMethod = meth, specPath = delivery_path command (hd rest), specQuery = [], specBody = None\<rparr>
                UnmarshalJSON q) (delivery_output p fs command))"

subsection \<open>\<open>Run\<close>\<close>

text \<open>The exit code, the output, the error, and the state of the other side.\<close>

definition exit_code :: "ctl_error + bytes \<Rightarrow> int" where
  "exit_code r = (case r of Inr _ \<Rightarrow> 0 | Inl CtlHelp \<Rightarrow> 0 | Inl (CtlUsage _) \<Rightarrow> 2 | Inl _ \<Rightarrow> 1)"

definition usage_text :: "bytes list" where
  "usage_text =
     [''spoolctl submits and manages crash-safe HTTP deliveries through a local spoold.'', [],
      ''Usage: spoolctl <command> [options]'', [], ''Commands:'',
      ''  send     persist and enqueue an HTTP delivery'', ''  list     list deliveries'', ''  get      inspect one delivery'',
      ''  retry    start a new retry cycle for a failed delivery'', ''  cancel   cancel pending or in-flight delivery work'',
      ''  version  print version information'', [], ''Set SPOOLD_URL to override the default http://127.0.0.1:8080 API.'']"

definition printUsage :: bytes where
  "printUsage = concat (List.map (\<lambda>l. l @ [CHR 0x0A]) usage_text)"

definition Run :: "'q process \<Rightarrow> bytes list \<Rightarrow> 'q \<Rightarrow> int \<times> bytes \<times> 'q" where
  "Run p args q =
     (case args of
        [] \<Rightarrow> (2, [], q)
      | command # rest \<Rightarrow>
          let finish = (\<lambda>(r, q'). (exit_code r, case r of Inr out \<Rightarrow> out | Inl _ \<Rightarrow> [], q'))
          in if command = ''send'' then finish (runSend p rest q)
             else if command = ''list'' then finish (runList p rest q)
             else if command = ''get'' then finish (runDeliveryCommand p ''get'' ''GET'' rest q)
             else if command = ''retry'' then finish (runDeliveryCommand p ''retry'' ''POST'' rest q)
             else if command = ''cancel'' then finish (runDeliveryCommand p ''cancel'' ''POST'' rest q)
             else if command = ''version'' then (0, ''spoolctl '' @ buildVersion p @ [CHR 0x0A], q)
             else if command = ''help'' \<or> command = ''-h'' \<or> command = ''--help'' then (0, printUsage, q)
             else (2, [], q))"

section \<open>At most one request\<close>

text \<open>What one call of \<open>do\<close> means for the state of the other side.\<close>

definition asked :: "'q process \<Rightarrow> 'q \<Rightarrow> bool \<Rightarrow> 'q \<Rightarrow> bool" where
  "asked p q good q' \<longleftrightarrow>
     (\<exists>c rq r. exchangeWith p c rq q = (r, q') \<and>
        (good \<longrightarrow> (\<exists>rs. r = Some rs \<and> replyWhole rs \<and> 200 \<le> replyStatus rs \<and> replyStatus rs < 300)))"

lemma do_asked:
  assumes "client_do p c spec decode q = (r, q')"
  shows "asked p q (\<exists>x. r = Inr x) q'" "r = Inl e \<Longrightarrow> \<not> (\<exists>m. e = CtlUsage m) \<and> e \<noteq> CtlHelp"
proof -
  obtain a q1 where a: "exchangeWith p c (wire_of c spec) q = (a, q1)"
    by (cases "exchangeWith p c (wire_of c spec) q")
  have f: "q1 = q' \<and> ((\<exists>x. r = Inr x) \<longrightarrow> (\<exists>rs. a = Some rs \<and> replyWhole rs \<and> 200 \<le> replyStatus rs \<and> replyStatus rs < 300)) \<and>
      (\<forall>e. r = Inl e \<longrightarrow> \<not> (\<exists>m. e = CtlUsage m) \<and> e \<noteq> CtlHelp)"
    using assms a
    by (auto simp: client_do_def remote_error_def Let_def split: option.splits prod.splits if_splits)
  then show "asked p q (\<exists>x. r = Inr x) q'"
    unfolding asked_def using a by (intro exI [of _ c] exI [of _ "wire_of c spec"] exI [of _ a]) simp
  show "r = Inl e \<Longrightarrow> \<not> (\<exists>m. e = CtlUsage m) \<and> e \<noteq> CtlHelp"
    using f by simp
qed

text \<open>A command that ends well has made one request, and one that fails early has made none.\<close>

definition polite :: "'q process \<Rightarrow> 'q \<Rightarrow> 'q outcome \<Rightarrow> bool" where
  "polite p q x \<longleftrightarrow>
     (case x of (r, q') \<Rightarrow>
        q' = q \<and> (\<exists>e. r = Inl e) \<or>
        asked p q (\<exists>out. r = Inr out) q' \<and> (\<forall>e. r = Inl e \<longrightarrow> exit_code r = 1))"

lemma asked_weaken: "asked p q a q' \<Longrightarrow> (b \<Longrightarrow> a) \<Longrightarrow> asked p q b q'"
  by (auto simp: asked_def)

lemma emit_error: "emit p out = Inl e \<Longrightarrow> exit_code (Inl e) = 1"
  by (auto simp: emit_def exit_code_def split: if_splits)

lemma print_error: "printDeliveries p action ds h = Inl e \<Longrightarrow> exit_code (Inl e) = 1"
  by (simp add: printDeliveries_def emit_error)

lemma emit_json_error: "emit_json p t = Inl e \<Longrightarrow> exit_code (Inl e) = 1"
  by (auto simp: emit_json_def exit_code_def emit_error split: option.splits dest: emit_error)

lemma send_output_error: "send_output p fs code item = Inl e \<Longrightarrow> exit_code (Inl e) = 1"
  using emit_json_error print_error by (auto simp: send_output_def split: if_splits)

lemma polite_early [simp]: "polite p q (Inl e, q)"
  by (simp add: polite_def)

lemma polite_do:
  assumes "\<And>code x e. f code x = Inl e \<Longrightarrow> exit_code (Inl e) = 1"
  shows "polite p q (answered (client_do p c spec decode q) f)"
proof -
  obtain r q' where d: "client_do p c spec decode q = (r, q')"
    by (cases "client_do p c spec decode q")
  show ?thesis
  proof (cases r)
    case (Inl e)
    then have "exit_code (Inl e) = 1"
      using do_asked(2) [OF d Inl] by (cases e) (auto simp: exit_code_def)
    then show ?thesis
      using do_asked(1) [OF d] Inl d by (auto simp: polite_def answered_def)
  next
    case (Inr a)
    obtain code x where a: "a = (code, x)"
      by (cases a)
    have "asked p q (\<exists>out. f code x = Inr out) q'"
      using do_asked(1) [OF d] Inr by (auto intro: asked_weaken)
    then show ?thesis
      using assms Inr a d by (auto simp: polite_def answered_def)
  qed
qed

lemma polite_send: "polite p q (runSend p args q)"
  by (auto simp: runSend_def intro!: polite_do split: sum.split prod.split option.split dest: send_output_error)

lemma polite_list: "polite p q (runList p args q)"
  by (auto simp: runList_def list_output_def intro!: polite_do split: sum.split prod.split if_splits
      dest: emit_json_error print_error)

lemma polite_delivery: "polite p q (runDeliveryCommand p command meth args q)"
  by (auto simp: runDeliveryCommand_def delivery_output_def intro!: polite_do split: sum.split prod.split
      dest: emit_json_error print_error split: if_splits sum.splits)

lemma Run_cases:
  assumes "Run p args q = (code, out, q')"
  obtains (alone) "q' = q" "code = 0 \<or> code = 2" "code = 2 \<Longrightarrow> out = []" "code = 0 \<Longrightarrow> out = printUsage \<or> out = ''spoolctl '' @ buildVersion p @ [CHR 0x0A]"
  | (command) r where "polite p q (r, q')" "code = exit_code r" "out = (case r of Inr out \<Rightarrow> out | Inl _ \<Rightarrow> [])"
proof (cases args)
  case Nil
  then show thesis
    using assms by (intro alone) (simp_all add: Run_def)
next
  case (Cons c rest)
  have go: thesis if "Run p args q = (case x of (r, q') \<Rightarrow> (exit_code r, case r of Inr out \<Rightarrow> out | Inl _ \<Rightarrow> [], q'))" "polite p q x" for x
    using that assms command by (cases x) auto
  show thesis
  proof (cases "c \<in> {''send'', ''list'', ''get'', ''retry'', ''cancel''}")
    case True
    then show thesis
      using go [OF _ polite_send [of p q rest]] go [OF _ polite_list [of p q rest]] go [OF _ polite_delivery [of p q "''get''" "''GET''" rest]]
        go [OF _ polite_delivery [of p q "''retry''" "''POST''" rest]] go [OF _ polite_delivery [of p q "''cancel''" "''POST''" rest]] Cons
      by (auto simp: Run_def Let_def)
  next
    case False
    then show thesis
      using assms Cons by (intro alone) (auto simp: Run_def Let_def split: if_splits)
  qed
qed

lemma exit_code_range: "exit_code r = 0 \<or> exit_code r = 1 \<or> exit_code r = 2" "exit_code (Inr out) = 0"
  by (auto simp: exit_code_def split: sum.split ctl_error.split)

end
