(* ===== verification/ClientServer.thy ===== *)
theory ClientServer
  imports Spoolctl
begin

text \<open>
  The client of theory \<open>Spoolctl\<close> against the API of theory \<open>Api\<close>: what \<open>send\<close> encodes is what the
  API decodes, and what \<open>send\<close> prints is true of the store, also after a crash.
\<close>

section \<open>What the client says, the server hears\<close>

subsection \<open>The request body\<close>

lemma create_field_simps:
  "create_field (''idempotencyKey'', json_string x) r = Some (r\<lparr>crIdempotencyKey := valid_utf8 x\<rparr>)"
  "create_field (''targetUrl'', json_string x) r = Some (r\<lparr>crTargetURL := valid_utf8 x\<rparr>)"
  "create_field (''method'', json_string x) r = Some (r\<lparr>crMethod := valid_utf8 x\<rparr>)"
  "create_field (''headers'', v) r = map_option (\<lambda>x. r\<lparr>crHeaders := x\<rparr>) (read_headers (crHeaders r) v)"
  "create_field (''body'', v) r = Some (r\<lparr>crBody := v\<rparr>)"
  "create_field (''bodyBase64'', json_string x) r = Some (r\<lparr>crBodyBase64 := Some (valid_utf8 x)\<rparr>)"
  "int64_range i \<Longrightarrow> create_field (''maxAttempts'', show_int i) r = Some (r\<lparr>crMaxAttempts := i\<rparr>)"
  by (simp_all add: create_field_def named_def fold_names json_string_not_null)

text \<open>What a client may have been told: header names in UTF-8, and a JSON body that leaves room for the object around it.\<close>

definition tellable :: "clientRequest \<Rightarrow> bool" where
  "tellable r \<longleftrightarrow>
     gomap_ok (ccHeaders r) \<and> list_all (\<lambda>h. is_utf8 (fst h)) (ccHeaders r) \<and> int64_range (ccMaxAttempts r) \<and>
     (ccBody r \<noteq> [] \<longrightarrow> json_valid_lim 9998 (ccBody r)) \<and> (ccBody r = [] \<or> ccBodyBase64 r = [])"

definition heard :: "clientRequest \<Rightarrow> createRequest" where
  "heard r =
     \<lparr>crIdempotencyKey = valid_utf8 (ccIdempotencyKey r), crTargetURL = valid_utf8 (ccTargetURL r),
      crMethod = valid_utf8 (ccMethod r), crHeaders = restored_headers (ccHeaders r),
      crBody = (if ccBody r = [] then [] else compact_from Out (ccBody r)),
      crBodyBase64 = (if ccBodyBase64 r = [] then None else Some (valid_utf8 (ccBodyBase64 r))),
      crMaxAttempts = ccMaxAttempts r\<rparr>"

lemma client_members_value: "tellable r \<Longrightarrow> \<forall>m \<in> set (client_members r). member_value 9998 (snd m)"
  by (auto simp: client_members_def omit_empty_def member_values headers_text_value member_value_compact tellable_def
      split: if_splits)

lemma client_names_utf8: "List.map (\<lambda>(k, v). (valid_utf8 k, v)) (client_members r) = client_members r"
  by (simp add: client_members_def omit_empty_def)

lemma read_client_members:
  assumes "tellable r"
  shows "read_fields create_field (client_members r) zero_create = Some (heard r)"
proof -
  have "restored_headers [] = []"
    by (simp add: restored_headers_def gokeys_def sort_strings_def)
  then show ?thesis
    using assms read_headers_text [of "ccHeaders r"]
    by (auto simp: client_members_def read_fields_append create_field_simps omit_empty_def zero_create_def heard_def tellable_def)
qed

lemma decode_client:
  assumes "tellable r" "length (object_of (client_members r)) \<le> maxRequestBody"
  shows "decodeJSON (object_of (client_members r)) = Some (heard r)"
  using read_struct_object [OF client_members_value [OF assms(1)] lim_max(1) client_names_utf8, of "[]" create_field zero_create]
    read_client_members [OF assms(1)] assms(2) by (simp add: decodeJSON_def)

lemma heard_body:
  assumes "ccBody r = [] \<or> ccBodyBase64 r = []"
  shows "ccBodyBase64 r = b64_encode b \<Longrightarrow> ccBody r = [] \<Longrightarrow> requestBody (heard r) = Inr b"
    "ccBodyBase64 r = [] \<Longrightarrow> requestBody (heard r) = Inr (if ccBody r = [] then [] else compact_from Out (ccBody r))"
  using assms by (auto simp: requestBody_def heard_def b64_utf8)

subsection \<open>The payload of a command\<close>

text \<open>Every header map that arguments build has unique, canonical keys; every number fits.\<close>

definition flag_fits :: "bytes \<Rightarrow> flag_value \<Rightarrow> bool" where
  "flag_fits n v \<longleftrightarrow> (case v of IntFlag i \<Rightarrow> int64_range i | CustomFlag h \<Rightarrow> gomap_ok h | DurationFlag i \<Rightarrow> False | _ \<Rightarrow> True)"

lemma headerSet_ok: "headerSet h v = Some h' \<Longrightarrow> gomap_ok h \<Longrightarrow> gomap_ok h'"
  by (auto simp: headerSet_def Let_def gomap_ok_update split: prod.splits if_splits)

lemma set_flag_fits: "flag_fits n v \<Longrightarrow> set_flag headerSet v x = Some v' \<Longrightarrow> flag_fits n v'"
  using parse_uint0_bound headerSet_ok
  by (cases v) (auto simp: set_flag_def flag_fits_def int64_range_def)

lemma parseFlags_fits:
  assumes "parseFlags fs args = Inr (fs', rest)" "\<forall>(n, v) \<in> set fs. flag_fits n v"
  shows "int64_range (int_flag fs' n)" "gomap_ok (custom_flag fs' n)"
proof -
  have p: "parse_flags headerSet fs args = Inr (fs', rest)"
    using assms(1) by (auto simp: parseFlags_def split: sum.splits flag_error.splits)
  have f: "flag_fits n v" if "map_of fs' n = Some v" for n v
  proof (rule parse_flags_values [where P = flag_fits, OF p _ set_flag_fits that])
    show "flag_fits m u" if "map_of fs m = Some u" for m u
      using map_of_SomeD [OF that] assms(2) by auto
  qed
  show "int64_range (int_flag fs' n)"
    using f [of n] by (auto simp: int_flag_def flag_fits_def int64_range_def split: option.splits flag_value.splits)
  show "gomap_ok (custom_flag fs' n)"
    using f [of n] by (auto simp: custom_flag_def flag_fits_def gomap_ok_def split: option.splits flag_value.splits)
qed

lemma send_prepare_cases:
  assumes "send_prepare p args = Inr (fs, payload, c)"
  obtains rest body where "parseFlags (send_flags p) args = Inr (fs, [rest])" "payload = send_payload fs rest body"
    "string_flag fs ''data-binary'' = [] \<and> body \<noteq> [] \<longrightarrow> json_valid body"
    "newClient p (string_flag fs ''server'') = Inr c"
    "readBody p (string_flag fs ''data'')
       (if string_flag fs ''data-binary'' \<noteq> [] then string_flag fs ''data-binary'' else string_flag fs ''data-file'') = Inr body"
proof -
  obtain rest where r: "parseFlags (send_flags p) args = Inr (fs, rest)" "length rest = 1"
    using assms by (auto simp: send_prepare_def Let_def split: sum.splits if_splits)
  then obtain target where t: "rest = [target]"
    by (auto simp: length_Suc_conv)
  show thesis
    using assms r t that by (auto simp: send_prepare_def Let_def split: sum.splits if_splits)
qed

text \<open>What the command sends can be told, up to what only the arguments can assure.\<close>

lemma send_tellable:
  assumes "send_prepare p args = Inr (fs, payload, c)" "list_all (\<lambda>h. is_utf8 (fst h)) (ccHeaders payload)"
    "ccBody payload \<noteq> [] \<Longrightarrow> json_valid_lim 9998 (ccBody payload)"
  shows "tellable payload" "marshal_client payload = Some (object_of (client_members payload))"
    "ccBody payload = [] \<or> ccBodyBase64 payload = []"
proof -
  obtain rest body where r: "parseFlags (send_flags p) args = Inr (fs, [rest])" "payload = send_payload fs rest body"
    "string_flag fs ''data-binary'' = [] \<and> body \<noteq> [] \<longrightarrow> json_valid body"
    using send_prepare_cases [OF assms(1)] by metis
  have "\<forall>(n, v) \<in> set (send_flags p). flag_fits n v"
    by (simp add: send_flags_def flag_fits_def int64_range_def gomap_ok_def)
  note fits = parseFlags_fits [OF r(1) this]
  show "ccBody payload = [] \<or> ccBodyBase64 payload = []"
    using r(2) by (simp add: send_payload_def)
  then show "tellable payload"
    using assms(2,3) fits r(2) by (simp add: tellable_def send_payload_def)
  show "marshal_client payload = Some (object_of (client_members payload))"
    using r(2,3) by (auto simp: marshal_client_def send_payload_def)
qed

subsection \<open>The API behind the client\<close>

text \<open>
  The exchange with the API of theory \<open>Api\<close>: the path is cut into its segments, the query looked up. A
  path without handler is answered by the library, with 404 here.
\<close>

fun path_pieces :: "bytes \<Rightarrow> bytes list" where
  "path_pieces [] = [[]]"
| "path_pieces (c # cs) =
     (if c = CHR ''/'' then [] # path_pieces cs
      else case path_pieces cs of [] \<Rightarrow> [[c]] | s # ss \<Rightarrow> (c # s) # ss)"

definition path_segments :: "bytes \<Rightarrow> bytes list" where
  "path_segments s = tl (path_pieces s)"

definition api_exchange ::
  "environment \<Rightarrow> (bytes \<Rightarrow> bytes \<Rightarrow> bytes) \<Rightarrow> client \<Rightarrow> wire_request \<Rightarrow> Store \<times> world \<Rightarrow> wire_reply option \<times> Store \<times> world" where
  "api_exchange env query c rq q =
     (case q of (s, w) \<Rightarrow>
        (case ServeHTTP env \<lparr>apiMethod = wireMethod rq, apiSegments = path_segments (wirePath rq),
             apiQuery = query (wireQuery rq), apiBody = wireBody rq\<rparr> s w of
           (None, s', w') \<Rightarrow> (Some \<lparr>replyStatus = 404, replyData = [], replyWhole = True\<rparr>, s', w')
         | (Some x, s', w') \<Rightarrow> (Some \<lparr>replyStatus = apiStatus x, replyData = apiData x, replyWhole = True\<rparr>, s', w')))"

definition send_api_request :: "(bytes \<Rightarrow> bytes \<Rightarrow> bytes) \<Rightarrow> bytes \<Rightarrow> api_request" where
  "send_api_request query body =
     \<lparr>apiMethod = ''POST'', apiSegments = [''v1'', ''deliveries''], apiQuery = query [], apiBody = body\<rparr>"

lemma send_exchange:
  assumes "trim_slashes (urlPath (baseURL c)) = []"
  shows "api_exchange env query c (wire_of c (send_request body)) (s, w) =
    (case api_create env (send_api_request query body) s w of
       (x, s', w') \<Rightarrow> (Some \<lparr>replyStatus = apiStatus x, replyData = apiData x, replyWhole = True\<rparr>, s', w'))"
proof -
  have "path_segments ''/v1/deliveries'' = [''v1'', ''deliveries'']"
    by (simp add: path_segments_def)
  then show ?thesis
    using assms
    by (simp add: api_exchange_def wire_of_def send_request_def Let_def send_api_request_def ServeHTTP_def route_def handle_def
        split: prod.split)
qed

lemma delivery_json_reads:
  assumes "storable d" "delivery_json d \<noteq> None"
  shows "UnmarshalJSON (encoded (delivery_json d)) = Some (restored d)"
proof -
  have e: "encodable d"
    using assms(1) by (simp add: storable_def)
  obtain ms where ms: "delivery_members d = Some ms"
    using assms(2) by (cases "delivery_members d") (simp_all add: delivery_json_def MarshalJSON_def)
  have v: "\<forall>m \<in> set ms. member_value 9998 (snd m)"
    using ms e by (rule encodable_value)
  then have "compact_from Out (object_of ms) = object_of ms"
    using compacted_object [OF v] by (simp add: compacted_def)
  then have "encoded (delivery_json d) = object_of ms @ [CHR 0x0A]"
    using assms(2) ms by (auto simp: delivery_json_def MarshalJSON_def json_compact_def encoded_def split: if_splits)
  then show ?thesis
    using read_struct_object [OF v lim_max(1) member_names_utf8 [OF ms], of "[CHR 0x0A]" delivery_field]
      read_delivery_members [OF ms e] by (simp add: UnmarshalJSON_def)
qed


section \<open>Properties of the client\<close>

text \<open>
  C34. What the client encodes, the API decodes, if the names of the headers are in UTF-8, a JSON body is nested at most 9998 levels
  deep, and the encoded request is within the size limit of the API (the encoder itself would go further than the decoder
  in each of these): key, target and method (as UTF-8), headers, the number of attempts, and the body, which is the bytes of the
  file for \<open>--data-binary\<close>, whatever they are, and the JSON text without its spacing otherwise.
\<close>

theorem client_request_understood:
  assumes "send_prepare p args = Inr (fs, payload, c)" "list_all (\<lambda>h. is_utf8 (fst h)) (ccHeaders payload)"
    "ccBody payload \<noteq> [] \<Longrightarrow> json_valid_lim 9998 (ccBody payload)"
    "marshal_client payload = Some text" "length text \<le> maxRequestBody"
    "readBody p (string_flag fs ''data'')
       (if string_flag fs ''data-binary'' \<noteq> [] then string_flag fs ''data-binary'' else string_flag fs ''data-file'') = Inr body"
  shows "\<exists>r. decodeJSON text = Some r \<and> crIdempotencyKey r = valid_utf8 (ccIdempotencyKey payload) \<and>
    crTargetURL r = valid_utf8 (ccTargetURL payload) \<and> crMethod r = valid_utf8 (ccMethod payload) \<and>
    crHeaders r = restored_headers (ccHeaders payload) \<and> crMaxAttempts r = ccMaxAttempts payload \<and>
    requestBody r = Inr (if string_flag fs ''data-binary'' \<noteq> [] \<or> body = [] then body else compact_from Out body)"
proof -
  note tell = send_tellable [OF assms(1-3)]
  have d: "decodeJSON text = Some (heard payload)"
    using decode_client [OF tell(1)] tell(2) assms(4,5) by simp
  obtain rest b where r: "payload = send_payload fs rest b"
    "readBody p (string_flag fs ''data'')
       (if string_flag fs ''data-binary'' \<noteq> [] then string_flag fs ''data-binary'' else string_flag fs ''data-file'') = Inr b"
    using send_prepare_cases [OF assms(1)] by metis
  then have "b = body"
    using assms(6) by simp
  then have "requestBody (heard payload) = Inr (if string_flag fs ''data-binary'' \<noteq> [] \<or> body = [] then body else compact_from Out body)"
    using heard_body [OF tell(3)] r(1) by (auto simp: send_payload_def)
  then show ?thesis
    using d by (simp add: heard_def)
qed


text \<open>
  C36. A process of the client makes at most one request. The exit code is 0, 1 or 2; with 2 (bad usage) no request was
  made and nothing was printed on standard output; with 1 nothing was printed either; with 0 either no request was needed (help,
  version), or one was made and answered in full with a status of success.
\<close>

theorem at_most_one_request:
  assumes "Run p args q = (code, out, q')"
  shows "code \<in> {0, 1, 2} \<and> (code = 2 \<longrightarrow> q' = q) \<and> (code \<noteq> 0 \<longrightarrow> out = []) \<and>
    (q' = q \<and> (code = 0 \<longrightarrow> out = [] \<or> out = printUsage \<or> out = ''spoolctl '' @ buildVersion p @ [CHR 0x0A]) \<or>
     (\<exists>c rq r. exchangeWith p c rq q = (r, q') \<and>
        (code = 0 \<longrightarrow> (\<exists>rs. r = Some rs \<and> replyWhole rs \<and> 200 \<le> replyStatus rs \<and> replyStatus rs < 300))))"
  using assms
proof (cases rule: Run_cases)
  case alone
  then show ?thesis
    by auto
next
  case (command r)
  have code: "code = 0 \<or> code = 1 \<or> code = 2" "code \<noteq> 0 \<Longrightarrow> out = []"
    using command(2,3) exit_code_range by (auto split: sum.splits)
  show ?thesis
  proof (cases "asked p q (\<exists>out. r = Inr out) q' \<and> (\<forall>e. r = Inl e \<longrightarrow> exit_code r = 1)")
    case True
    have "code \<noteq> 2" "code = 0 \<longrightarrow> (\<exists>out. r = Inr out)"
      using True command(2) exit_code_range(2) by (cases r; simp)+
    then show ?thesis
      using True code asked_weaken [of p q "\<exists>out. r = Inr out" q' "code = 0"] unfolding asked_def by auto
  next
    case False
    then have "q' = q" "out = []"
      using command(1,3) by (auto simp: polite_def)
    then show ?thesis
      using code by auto
  qed
qed

section \<open>An example\<close>

definition example_process :: "(Store \<times> world) process" where
  "example_process =
     \<lparr>parseURL = example_url, serverVariable = '' http://spool:8080/ '', openFile = (\<lambda>_. None), stdin = ([], True),
      stdoutWorks = True, exchangeWith = api_exchange (example_env 5) (\<lambda>_ _. []), statusText = (\<lambda>_. []),
      buildVersion = ''dev'', tabulate = (\<lambda>x. x)\<rparr>"

definition example_args :: "bytes list" where
  "example_args = [''--data=[1, 2]'', ''--header'', ''accept: text'', ''http://shop/hook'']"

definition example_flags :: flag_set where
  "example_flags =
     [(''server'', StringFlag ''http://spool:8080/''), (''method'', StringFlag ''POST''), (''idempotency-key'', StringFlag []),
      (''max-attempts'', IntFlag 0), (''data'', StringFlag ''[1, 2]''), (''data-file'', StringFlag []),
      (''data-binary'', StringFlag []), (''json'', BoolFlag False), (''header'', CustomFlag [(''Accept'', ''text'')])]"

definition example_told :: clientRequest where
  "example_told =
     \<lparr>ccIdempotencyKey = [], ccTargetURL = ''http://shop/hook'', ccMethod = ''POST'', ccHeaders = [(''Accept'', ''text'')],
      ccBody = ''[1, 2]'', ccBodyBase64 = [], ccMaxAttempts = 0\<rparr>"

definition example_client :: client where
  "example_client =
     \<lparr>baseURL = \<lparr>urlScheme = ''http'', urlUser = False, urlHost = ''spool:8080'', urlPath = [], urlRawQuery = [], urlFragment = []\<rparr>,
      displayURL = ''http://spool:8080/'', socketPath = None\<rparr>"

definition example_wire :: bytes where
  "example_wire =
     concat [''{'', json_string ''targetUrl'', '':'', json_string ''http://shop/hook'', '','', json_string ''method'', '':'',
       json_string ''POST'', '','', json_string ''headers'', '':{'', json_string ''Accept'', '':'', json_string ''text'',
       ''},'', json_string ''body'', '':[1,2]}'']"

lemma example_prepare: "send_prepare example_process example_args = Inr (example_flags, example_told, example_client)"
  by code_simp

lemma example_marshal: "marshal_client example_told = Some example_wire"
  by code_simp

lemma example_wire_short: "length example_wire < 200"
  by code_simp

theorem client_request_understood_witness:
  "\<exists>r. decodeJSON example_wire = Some r \<and> crHeaders r = restored_headers [(''Accept'', ''text'')] \<and>
     requestBody r = Inr (compact_from Out ''[1, 2]'')"
proof -
  have "json_valid_lim 9998 ''[1, 2]''"
    by code_simp
  moreover have "is_utf8 ''Accept''"
    by (simp add: is_utf8_ascii is_ascii_def)
  moreover have "readBody example_process (string_flag example_flags ''data'')
       (if string_flag example_flags ''data-binary'' \<noteq> [] then string_flag example_flags ''data-binary''
        else string_flag example_flags ''data-file'') = Inr ''[1, 2]''"
    "string_flag example_flags ''data-binary'' = []"
    by (simp_all add: readBody_def example_flags_def string_flag_def)
  moreover have "length example_wire \<le> maxRequestBody"
    using example_wire_short by (simp add: maxRequestBody_def)
  ultimately show ?thesis
    using client_request_understood [OF example_prepare _ _ example_marshal, of "''[1, 2]''"]
    by (auto simp: example_told_def)
qed

text \<open>What the API makes of it: the delivery that is created.\<close>

definition example_payload2 :: createRequest where
  "example_payload2 =
     \<lparr>crIdempotencyKey = [], crTargetURL = ''http://shop/hook'', crMethod = ''POST'', crHeaders = [(''Accept'', ''text'')],
      crBody = ''[1,2]'', crBodyBase64 = None, crMaxAttempts = 0\<rparr>"

definition example_normalized2 :: CreateRequest where
  "example_normalized2 =
     \<lparr>reqIdempotencyKey = [], reqTargetURL = ''http://shop/hook'', reqMethod = ''POST'', reqHeaders = [(''Accept'', ''text'')],
      reqBody = ''[1,2]'', reqMaxAttempts = 8\<rparr>"

definition example_queued :: Delivery where
  "example_queued =
     \<lparr>ID = example_id, IdempotencyKey = [], TargetURL = ''http://shop/hook'', Method = ''POST'',
      Headers = [(''Accept'', ''text'')], Body = ''[1,2]'', Status = StatusPending, Attempts = 0,
      MaxAttempts = 8, NextAttemptAt = 5, LeaseUntil = zero_time, LastError = [], LastResponseCode = 0,
      CreatedAt = 5, UpdatedAt = 5\<rparr>"

lemma example_decode2: "decodeJSON example_wire = Some example_payload2" "requestBody example_payload2 = Inr ''[1,2]''"
proof -
  have "read_struct create_field zero_create example_wire = Some example_payload2"
    by code_simp
  then show "decodeJSON example_wire = Some example_payload2"
    using example_wire_short by (simp add: decodeJSON_def maxRequestBody_def)
qed (simp add: requestBody_def example_payload2_def)

lemma example_normalize2: "normalize example_url (create_request_of example_payload2 ''[1,2]'') = Inr example_normalized2"
  by code_simp

lemma example_queued_storable: "storable example_queued" "json_valid_lim 9998 ''[1,2]''"
proof -
  show v: "json_valid_lim 9998 ''[1,2]''"
    by code_simp
  have "is_utf8 example_id" "is_utf8 ''Accept''"
    by (simp_all add: example_id_def is_utf8_ascii hex_ascii is_ascii_def)
  then show "storable example_queued"
    using example_id_nonempty v
    by (simp_all add: storable_def encodable_def example_queued_def gomap_ok_def int64_range_def)
qed

lemma example_Create2:
  obtains s w where
    "Create example_url example_sha (Some example_raw) (create_request_of example_payload2 ''[1,2]'') 5 example_s0 example_w0 =
       (Inr (example_queued, True), s, w)"
proof -
  let ?h = "fingerprint example_sha example_normalized2"
  have n: "New example_url example_sha (Some example_raw) (create_request_of example_payload2 ''[1,2]'') 5 = Inr (example_queued, ?h)"
    unfolding New_def example_normalize2
    by (simp add: newID_def example_normalized2_def example_queued_def example_id_def)
  obtain l where l: "marshalRecord example_queued ?h = Some l"
    using example_queued_storable(1) small_times marshal_defined [of example_queued ?h]
    by (fastforce simp: storable_def example_queued_def zero_time_def)
  have d: "on_disk 0 [] 0 example_w0" "faults example_w0 = []"
    by (simp_all add: on_disk_def example_w0_def boot_world_def)
  obtain w where w: "appendLocked example_queued ?h example_s0 example_w0 = (None, example_s0\<lparr>records := 1\<rparr>, w)"
    by (rule appendLocked_clean [OF d(2) _ _ d(1) l, of example_s0]) (auto simp: example_s0_def new_store_def)
  have "keyToID example_s0 = []" "checkAdmissionLocked example_queued ?h example_s0 example_w0 = (None, example_s0, example_w0)"
    by (simp_all add: checkAdmissionLocked_def example_s0_def new_store_def)
  moreover have "Clone example_queued = example_queued"
    by (simp add: Clone_id example_queued_def gomap_ok_def)
  moreover have "IdempotencyKey example_queued = []"
    by (simp add: example_queued_def)
  ultimately have "Create example_url example_sha (Some example_raw) (create_request_of example_payload2 ''[1,2]'') 5 example_s0 example_w0 =
      (Inr (example_queued, True), setLocked example_queued ?h (example_s0\<lparr>records := 1\<rparr>), w)"
    unfolding Create_def n using w by simp
  then show thesis
    by (rule that)
qed

lemma example_answer_short: "length (encoded (delivery_json example_queued)) < 600"
  by code_simp


text \<open>The command runs to its end.\<close>

lemma example_run:
  "\<exists>s w. Run example_process (''send'' # example_args) (example_s0, example_w0) =
     (0, delivery_row ''queued'' (restored example_queued), s, w)"
proof -
  obtain s w where c: "Create example_url example_sha (Some example_raw) (create_request_of example_payload2 ''[1,2]'') 5
      example_s0 example_w0 = (Inr (example_queued, True), s, w)"
    by (rule example_Create2)
  have url: "trim_slashes (urlPath (baseURL example_client)) = []"
    by (simp add: example_client_def trim_slashes_def)
  obtain x where x: "api_create (example_env 5) (send_api_request (\<lambda>_ _. []) example_wire) example_s0 example_w0 = (x, s, w)"
    "apiStatus x = 201" "apiData x = encoded (delivery_json example_queued)"
    using c by (simp add: api_create_def send_api_request_def example_decode2 example_env_def)
  have data: "UnmarshalJSON (apiData x) = Some (restored example_queued)" "length (apiData x) \<le> maxResponse"
    using created_stored [OF c] x(3) delivery_json_reads [OF example_queued_storable(1)] example_answer_short
    by (simp_all add: maxResponse_def)
  have "exchangeWith example_process example_client (wire_of example_client (send_request example_wire)) (example_s0, example_w0) =
      (Some \<lparr>replyStatus = 201, replyData = apiData x, replyWhole = True\<rparr>, s, w)"
    using x(1,2) send_exchange [OF url, of "example_env 5" "\<lambda>_ _. []" example_wire example_s0 example_w0]
    by (simp add: example_process_def)
  then have "client_do example_process example_client (send_request example_wire) UnmarshalJSON (example_s0, example_w0) =
      (Inr (201, restored example_queued), s, w)"
    using data by (simp add: client_do_def)
  then show ?thesis
    by (simp add: Run_def runSend_def example_prepare example_marshal answered_def send_output_def printDeliveries_def emit_def
        example_flags_def bool_flag_def exit_code_def) (simp add: example_process_def)
qed


theorem at_most_one_request_witness:
  "\<exists>c rq r q'. exchangeWith example_process c rq (example_s0, example_w0) = (r, q') \<and>
     (\<exists>rs. r = Some rs \<and> replyWhole rs \<and> 200 \<le> replyStatus rs \<and> replyStatus rs < 300)"
proof -
  obtain s w where run: "Run example_process (''send'' # example_args) (example_s0, example_w0) =
      (0, delivery_row ''queued'' (restored example_queued), s, w)"
    using example_run by blast
  have row: "hd (delivery_row ''queued'' d) = CHR ''q''" "delivery_row ''queued'' d \<noteq> []" for d
    by (simp_all add: delivery_row_def Let_def)
  have "hd printUsage \<noteq> CHR ''q''"
    by (simp add: printUsage_def usage_text_def)
  then have "delivery_row ''queued'' (restored example_queued) \<noteq> printUsage"
    using row(1) [of "restored example_queued"] by auto
  moreover have "delivery_row ''queued'' (restored example_queued) \<noteq> ''spoolctl '' @ buildVersion example_process @ [CHR 0x0A]"
    by (simp add: delivery_row_def Let_def)
  ultimately show ?thesis
    using at_most_one_request [OF run] row(2) [of "restored example_queued"] by blast
qed

end
