(* ===== verification/Spec2Isabelle.thy ===== *)
theory Spec2Isabelle
  imports Runs Compactor Api Target Daemon ClientServer
begin

text \<open>
  \<^bold>\<open>What the program is.\<close> \<open>spoold\<close> accepts HTTP deliveries over a local API, stores them in an append-only journal
  and sends them to their targets until they succeed, fail for good or are canceled. Its parts, in
  \<open>internal/\<close>: \<open>delivery\<close> (the record, validation, fingerprints, JSON), \<open>store\<close> (the maps, the journal, replay,
  compaction, the lock), \<open>worker\<close> (claims, sending, retry delays), \<open>compactor\<close> (retention, repair, compaction by size),
  \<open>target\<close> (which addresses may be dialed), \<open>api\<close> (the HTTP handlers), \<open>spoolctl\<close> (the command line client), and
  \<open>cmd/spoold\<close> (configuration and shutdown). All parts share one \<open>Store\<close>; each of its methods takes one
  mutex for its whole body, so that the calls of API, workers and compactor happen one after another.

  \<^bold>\<open>Which theory models what.\<close>
  \<^item> \<open>Prelude\<close>, \<open>GoText\<close>, \<open>JsonScan\<close>, \<open>JsonText\<close>, \<open>JsonObject\<close>, \<open>Rfc3339\<close>, \<open>NetText\<close>: what the program uses of Go's
    standard library: maps, trimming, header keys, Base64, the JSON scanner with its nesting limit, JSON
    strings with their escapes, times, hosts and ports.
  \<^item> \<open>Delivery\<close> and \<open>JournalCodec\<close>: \<open>internal/delivery/delivery.go\<close> and the journal's records; \<open>MarshalJSON\<close>,
    \<open>UnmarshalJSON\<close>, \<open>marshalRecord\<close> and \<open>unmarshalRecord\<close> at the level of bytes.
  \<^item> \<open>Disk\<close>: a directory with inodes, what of them is durable, a script of failing system calls, and crashes.
  \<^item> \<open>Store\<close>: \<open>internal/store/store.go\<close> and \<open>lock_unix.go\<close>, one definition for each method, over \<open>Disk\<close>.
  \<^item> \<open>StoreInv\<close>, \<open>Lifecycle\<close>: the invariant of the three maps, the operations as a type (\<open>op\<close>, \<open>run_op\<close>), the life of a
    delivery (\<open>step\<close>, \<open>evolves\<close>), and that every operation moves by its steps. \<open>Scheduling\<close>, \<open>StoreOps\<close>,
    \<open>ErrorState\<close>: the order of claims and lists, leases, the limit on the journal, the recorded error.
  \<^item> \<open>JournalLog\<close>, \<open>Recovery\<close>, \<open>Durability\<close>, \<open>Compaction\<close>, \<open>CrashSafety\<close>, \<open>TornTail\<close>, \<open>Utf8\<close>: the journal as a log of entries
    (locale \<open>line_log\<close>, interpreted on the codec), the relation \<open>durable\<close> between store and disk, that every operation
    keeps it, compaction by rename, recovery after a crash, runs (\<open>history\<close>), and the two ways in which a start can fail.
  \<^item> \<open>StoreSpec\<close>: the abstract store (\<open>shelf_of\<close>) and what each operation is asked to do on it (\<open>asks\<close>), without journal,
    index and iteration order, and that every operation does it. \<open>PendingWrites\<close>: which part of it a crash in the middle of the
    operation leaves, and what a store with a failed write answers. \<open>Runs\<close>: what holds over a stretch of a run (\<open>later\<close>): an
    outcome stands, a lease holds, a key stays filed.
  \<^item> \<open>Compactor\<close>: \<open>internal/compactor\<close> over its interface (locales \<open>journal_contract\<close> and \<open>settling_journal\<close>, interpreted
    on the store). \<open>Backoff\<close>, \<open>Worker\<close>: \<open>internal/worker\<close>, the pool as a step relation (locale \<open>slot_table\<close>, interpreted
    on \<open>activeTargets\<close>). \<open>Target\<close>: \<open>internal/target\<close>. \<open>Api\<close>: \<open>internal/api\<close>, from the request to the answer.
  \<^item> \<open>Flags\<close>, \<open>LockFrame\<close>, \<open>Daemon\<close>: Go's flag parser, what the store's operations leave of the lock, and \<open>cmd/spoold\<close>: its
    configuration, the listener, the order of start and stop, the exit code. \<open>Spoolctl\<close>, \<open>ClientServer\<close>: the client
    \<open>internal/spoolctl\<close>, and the client against the API over the store.
  \<^item> \<open>Examples\<close>: a concrete run of the store, at which the properties are instantiated.

  \<^bold>\<open>How state corresponds.\<close> The record \<open>Store\<close> has the fields of the Go struct; \<open>journalFile\<close> is the inode of the open file.
  Strings and byte slices are lists of bytes, Go maps association lists (the order stands for the iteration order),
  counters 64-bit words, times and durations integers in nanoseconds with the zero time 0. Errors are constructors
  of \<open>store_error\<close>, \<open>delivery_error\<close> and others, and each return of an error in the code is a branch of the model. Outcomes of system
  calls come from the script \<open>faults\<close>, over which theorems quantify. SHA-256, \<open>url.Parse\<close>, random bytes, the
  resolver, the network and the Unicode case tables are arguments of the definitions.

  \<^bold>\<open>What is shown.\<close> In this theory: crash safety of the whole store (after a crash at any point of any operation
  \<open>Open\<close> finds what was acknowledged, and at most more of what the operation was asked to do), the refinement of the
  abstract store, leases, outcomes and idempotency over whole runs, admission, failed writes and their repair, pruning, listing,
  the lock, and the round trips of the codec. In the theories of the components: the limit for each target under every
  interleaving of workers, what an attempt records, the window of the retry delay with the rounding of \<open>float64\<close>, that the
  dialer dials what the table of networks allows and in which order, what maintenance may remove, repair and compact, what each
  answer of the API says of the store, what the client reports, and how the daemon takes and leaves its socket and its lock.

  \<^bold>\<open>The inputs of runs.\<close> Statements about runs (\<open>history\<close>) hold for operations the journal can hold (\<open>inputs_ok\<close>; for
  requests \<open>request_fit\<close>, for the daemon \<open>fit_work\<close>): a new identifier that is not in use, a JSON body nested at most 9998 levels
  deep, a key in UTF-8, response codes and attempt numbers of 64 bits. The program accepts deeper JSON bodies, and then
  the next start fails (\<open>deep_body_breaks_restart\<close>). A run restarts only from states without a failed write, after
  which a torn record may be left (\<open>torn_tail_breaks_restart\<close>).

  \<^bold>\<open>Bounds and termination.\<close> No fuel is used: loops are structural recursions or functions with a measure (the scaling
  of \<open>round64\<close>, the JSON scanner, replay). \<open>Backoff\<close> is treated for maxima up to \<open>2 ^ 62\<close> nanoseconds.

  \<^bold>\<open>Not modelled.\<close> \<open>internal/buildinfo\<close> (version strings set by the linker), the example receiver, the lock on other
  platforms (it always fails), log lines other than the compactor's, the timers between polls, and the goroutines themselves:
  \<open>Wait\<close> and \<open>Shutdown\<close> only wait.
\<close>

section \<open>Crashes\<close>

text \<open>
  C1. No acknowledged change is lost. A run consists of starts, operations with any outcomes of their system
  calls, and crashes with restarts as long as no write has failed (after a failed write a restart can leave a
  torn record: C4); its operations are ones the journal can hold: a new identifier is not in use, a JSON body is
  nested at most 9998 levels deep (necessarily: C5), a key is in UTF-8, response codes and attempt numbers have
  64 bits. Take any state of a run in which no write has failed, and crash there, keeping any part of what was
  not synced and either meaning of the journal's name: \<open>Open\<close> succeeds and gives back the same
  maps, each delivery as the journal restores it, and the run goes on from there.
\<close>

theorem crash_keeps_acknowledged:
  assumes "history up sha s w" "persistenceErr s = None" "0 \<le> limit"
  shows "\<exists>s' w'. Open [limit] (crash keep old w) = (Inr s', w') \<and> tables_eq s' (restored_tables s) \<and>
    persistenceErr s' = None \<and> history up sha s' w'"
proof -
  have "durable s w"
    using history_ok [OF assms(1)] by simp
  then obtain s' w' where "Open [limit] (crash keep old w) = (Inr s', w')" "persistenceErr s' = None"
    "persistenceErr s = None \<longrightarrow> tables_eq s' (restored_tables s) \<and> durable s' w'"
    using assms(3) by (rule crash_recovers)
  then show ?thesis
    using assms history.restart by blast
qed

theorem crash_keeps_acknowledged_witness:
  "\<exists>s' w'. Open [0] (crash (\<lambda>_. 0) True example_w1) = (Inr s', w') \<and>
     map_of (items s') example_id = Some (restored example_delivery)"
proof -
  obtain s' w' where "Open [0] (crash (\<lambda>_. 0) True example_w1) = (Inr s', w')" "tables_eq s' (restored_tables example_s1)"
    using crash_keeps_acknowledged [OF example_history(2) example_s1_simps(4), of 0 "\<lambda>_. 0" True] by auto
  then show ?thesis
    by (auto simp: tables_eq_def example_s1_simps example_Clone)
qed

text \<open>
  C2. A crash at any point of an operation changes nothing but what the operation was asked to change. In a
  state of a run (as in C1) without a failed write, an operation runs with any outcomes of its system calls (a
  crash in the middle is a run in which the rest fails), and then the machine crashes: \<open>Open\<close>
  succeeds. If the operation had to be refused, it reported that error, and what is found is what was stored
  before. Otherwise let \<open>es\<close> be the changes it was asked to make (by \<open>asks\<close>, on the
  abstract store): it acknowledged the first \<open>k\<close> of them, all if it reported no error, and what is
  found is the old store with the first \<open>j\<close> of them, where \<open>j\<close> is at least
  \<open>k\<close>, each delivery as the journal restores it. Nothing acknowledged is lost, nothing else that
  was stored is touched, and nothing appears that was not asked for.
\<close>

theorem crash_during_operation:
  assumes "history up sha s w" "persistenceErr s = None" "inputs_ok up x s"
    "run_op up sha x s (w\<lparr>faults := fs\<rparr>) = (s1, w1)" "0 \<le> limit"
  shows "\<exists>r s2 w2. asks up sha (shelf_of s) x r \<and> Open [limit] (crash keep old w1) = (Inr s2, w2) \<and> tables_ok s2 \<and>
    (case r of
       Inl e \<Rightarrow> op_error up sha x s (w\<lparr>faults := fs\<rparr>) = Some e \<and> s1 = s \<and> shelf_of s2 = restored_shelf (shelf_of s)
     | Inr es \<Rightarrow> \<exists>k j. k \<le> j \<and> j \<le> length es \<and> (op_error up sha x s (w\<lparr>faults := fs\<rparr>) = None \<longrightarrow> k = length es) \<and>
         shelf_of s1 = fold put_entry (take k es) (shelf_of s) \<and>
         shelf_of s2 = restored_shelf (fold put_entry (take j es) (shelf_of s)))"
  using crash_in_operation [OF _ assms(2,4,3,5)] history_ok [OF history.environment [OF assms(1)]] by blast

text \<open>The creation of the example, whose write breaks off after seven bytes.\<close>

definition example_broken :: "Store \<times> world" where
  "example_broken = run_op example_url example_sha (OpCreate (Some example_raw) example_request 5) example_s0
     (example_w0\<lparr>faults := [Failure 7]\<rparr>)"

lemma example_s0_shelf: "shelf_of example_s0 = (\<lambda>_. None)" "persistenceErr example_s0 = None"
  by (simp_all add: shelf_of_def example_s0_def new_store_def fun_eq_iff)

lemma example_asks:
  "asks example_url example_sha (\<lambda>_. None) (OpCreate (Some example_raw) example_request 5) r \<Longrightarrow>
     r = Inr [Put example_delivery example_hash]"
  by (erule asks_createE) (simp_all add: example_New)

theorem crash_during_operation_witness:
  "\<exists>s2 w2. Open [0] (crash (\<lambda>_. 3) False (snd example_broken)) = (Inr s2, w2) \<and>
     (shelf_of s2 = Map.empty \<or> shelf_of s2 = [example_id \<mapsto> (restored example_delivery, example_hash)])"
proof -
  obtain s1 w1 where b: "example_broken = (s1, w1)"
    by (cases example_broken)
  let ?w = "example_w0\<lparr>faults := [Failure 7]\<rparr>"
  let ?x = "OpCreate (Some example_raw) example_request 5"
  have run: "run_op example_url example_sha ?x example_s0 ?w = (s1, w1)"
    using b by (simp only: example_broken_def)
  obtain r s2 w2 where r: "asks example_url example_sha (shelf_of example_s0) ?x r"
    "Open [0] (crash (\<lambda>_. 3) False w1) = (Inr s2, w2)"
    "case r of
       Inl e \<Rightarrow> op_error example_url example_sha ?x example_s0 ?w = Some e \<and> s1 = example_s0 \<and>
         shelf_of s2 = restored_shelf (shelf_of example_s0)
     | Inr es \<Rightarrow> \<exists>k j. k \<le> j \<and> j \<le> length es \<and> (op_error example_url example_sha ?x example_s0 ?w = None \<longrightarrow> k = length es) \<and>
         shelf_of s1 = fold put_entry (take k es) (shelf_of example_s0) \<and>
         shelf_of s2 = restored_shelf (fold put_entry (take j es) (shelf_of example_s0))"
    using crash_during_operation [OF example_history(1) example_s0_shelf(2) example_inputs(1) run order_refl, of "\<lambda>_. 3" False] by blast
  then have "r = Inr [Put example_delivery example_hash]"
    using example_asks example_s0_shelf(1) by simp
  then obtain j where "j \<le> 1" "shelf_of s2 = restored_shelf (fold put_entry (take j [Put example_delivery example_hash]) (\<lambda>_. None))"
    using r(3) example_s0_shelf(1) by auto
  moreover have "ID example_delivery = example_id"
    by (simp add: example_delivery_def)
  ultimately have "shelf_of s2 = Map.empty \<or> shelf_of s2 = [example_id \<mapsto> (restored example_delivery, example_hash)]"
    by (cases j) (auto simp: restored_shelf_def fun_eq_iff)
  then show ?thesis
    using r(2) unfolding b by (intro exI [of _ s2] exI [of _ w2]) simp
qed

text \<open>
  C3. In every state of a run as described in C1 (JSON bodies nested at most 9998 levels deep, keys in UTF-8,
  new identifiers not in use, integers of 64 bits, restarts as long as no write has failed) the three maps fit
  together, every delivery is well formed, and the disk holds what is needed to rebuild the maps.
\<close>

theorem history_invariant:
  assumes "history up sha s w"
  shows "tables_ok s \<and> deliveries_ok s \<and> durable s w"
  using history_ok [OF assms] by (simp add: durable_def)

theorem history_invariant_witness:
  "tables_ok example_s2 \<and> deliveries_ok example_s2 \<and> durable example_s2 example_w2"
  by (rule history_invariant [OF example_history(3)])

text \<open>
  C4. A torn record at the end of the journal, which \<open>Open\<close> accepts, stays there, and the next
  record is appended to it: the append is acknowledged, and the start after it fails on the
  line the two make. This is how the code behaves, not how it should.
\<close>

theorem torn_tail_breaks_restart:
  assumes "list_all entry_ok es" "entry_ok e" "entry_line e = t @ [CHR 0x0A]" "strict_prefix p t" "p \<noteq> []"
    "entry_ok (Put d h)" "0 \<le> limit"
  shows "\<exists>s w s' w'. Open [limit] (journal_world b (journal.log es @ p)) = (Inr s, w) \<and>
    appendLocked d h s w = (None, s', w') \<and> fst (Open [limit] (kill w')) = Inl (DecodeLine (length es + 1))"
  using assms by (elim torn_append_unreadable) blast+

lemma example_entry: "entry_ok (Put example_delivery example_hash)"
proof -
  have "marshalRecord example_delivery example_hash \<noteq> None"
    using example_storable(1) small_times marshal_defined [of example_delivery example_hash]
    by (simp add: storable_def example_delivery_def zero_time_def)
  then show ?thesis
    using example_storable(1) example_hash_utf8 by (simp add: entry_ok_def entry_text_def)
qed

theorem torn_tail_breaks_restart_witness:
  "\<exists>s w s' w'. Open [0] (journal_world ''spool'' (journal.log [] @ ''{'')) = (Inr s, w) \<and>
     appendLocked example_delivery example_hash s w = (None, s', w') \<and> fst (Open [0] (kill w')) = Inl (DecodeLine 1)"
proof -
  obtain t where t: "entry_line (Put example_delivery example_hash) = t @ [CHR 0x0A]" "record_text t"
    using entry_record [OF example_entry] by metis
  then have p: "strict_prefix ''{'' t"
    by (auto simp: record_text_def strict_prefix_def)
  show ?thesis
    using torn_tail_breaks_restart [OF _ example_entry t(1) p _ example_entry, of "[]" 0 "''spool''"] by simp
qed

text \<open>
  C5. A JSON body nested 9999 levels deep passes every check on the way in and is written to
  the journal and acknowledged, but the record is nested deeper than the decoder goes: the
  next start fails.
\<close>

theorem deep_body_breaks_restart:
  assumes "New up sha raw req now = Inr (d, h)" "reqBody req = nested 9999" "format_time now \<noteq> None"
  shows "\<exists>line. marshalRecord d h = Some line \<and> unmarshalRecord line = None"
proof -
  obtain i r where r: "normalize up req = Inr r" "Body d = reqBody r" "fresh_delivery d" "CreatedAt d = now"
    using assms(1) by (rule New_cases)
  have b: "Body d = nested 9999"
    using r(1,2) assms(2) normalize_request_ok(2) by simp
  have "delivery_members d \<noteq> None"
    using assms(3) r(3,4)
    by (auto simp: delivery_members_def time_member_def optional_time_def time_text_def fresh_delivery_def split: option.splits)
  then obtain ms where "delivery_members d = Some ms"
    by auto
  with b show ?thesis
    using deep_body_line invalid_line_unreadable by metis
qed

definition deep_request :: CreateRequest where
  "deep_request = example_request\<lparr>reqBody := nested 9999\<rparr>"

lemma normalize_body:
  "normalize up req = Inr r \<Longrightarrow> int (length b) \<le> MaxBodyBytes \<Longrightarrow>
     normalize up (req\<lparr>reqBody := b\<rparr>) = Inr (r\<lparr>reqBody := b\<rparr>)"
  by (auto simp: Delivery.normalize_def Let_def split: option.splits sum.splits if_splits)

lemma deep_New: "\<exists>d h. New example_url example_sha (Some example_raw) deep_request 5 = Inr (d, h)"
proof -
  have "int (length (nested 9999)) \<le> MaxBodyBytes"
    by (simp add: nested_def MaxBodyBytes_def)
  then have "\<exists>r. normalize example_url deep_request = Inr r"
    using normalize_body [OF example_normalize] by (auto simp: deep_request_def)
  then show ?thesis
    using New_defined by blast
qed

theorem deep_body_breaks_restart_witness:
  "\<exists>d h line. New example_url example_sha (Some example_raw) deep_request 5 = Inr (d, h) \<and>
     marshalRecord d h = Some line \<and> unmarshalRecord line = None"
proof -
  obtain d h where d: "New example_url example_sha (Some example_raw) deep_request 5 = Inr (d, h)"
    using deep_New by blast
  have "reqBody deep_request = nested 9999" "format_time 5 \<noteq> None"
    using small_times by (simp_all add: deep_request_def)
  then show ?thesis
    using deep_body_breaks_restart [OF d] d by blast
qed

section \<open>The machine behind the store\<close>

text \<open>
  C6. Refinement of the abstract store. In a store with consistent maps, whatever the outcomes of the system
  calls, an operation (with a new identifier that is not in use) either is refused with exactly the error the
  specification \<open>asks\<close> gives, and changes nothing, or makes the changes \<open>asks\<close> lists:
  all of them if it reports no error; none if it reports one (a claim: a proper initial part), and then the
  record could not be encoded, the journal is full, or the error is the recorded failure of a write (only
  compaction, which never changes anything here, has other errors). The maps stay consistent.
  \<open>asks\<close> says for each operation, on a map from identifiers to deliveries and request hashes, which
  status it needs, which error it answers otherwise, and which fields it sets.
\<close>

theorem operation_refines_machine:
  assumes "run_op up sha x s w = (s', w')" "tables_ok s" "fresh_id x s"
  shows "tables_ok s' \<and> (\<exists>r. asks up sha (shelf_of s) x r \<and>
    (case r of
       Inl e \<Rightarrow> op_error up sha x s w = Some e \<and> s' = s
     | Inr es \<Rightarrow> \<exists>k. k \<le> length es \<and> shelf_of s' = fold put_entry (take k es) (shelf_of s) \<and>
         (case op_error up sha x s w of
            None \<Rightarrow> k = length es
          | Some e \<Rightarrow> (if is_claim x then k < length es else k = 0) \<and>
              (x = OpCompact \<or> e = EncodeRecord \<or> e = ErrJournalFull \<or> persistenceErr s' = Some e))))"
proof (intro conjI exI)
  show "tables_ok s'"
    using steps_tables_ok [OF run_op_steps [OF assms]] assms(2) by simp
  show "asks up sha (shelf_of s) x (planned up sha x s)"
    using planned_asks [OF assms(2)] .
  show "case planned up sha x s of
       Inl e \<Rightarrow> op_error up sha x s w = Some e \<and> s' = s
     | Inr es \<Rightarrow> \<exists>k. k \<le> length es \<and> shelf_of s' = fold put_entry (take k es) (shelf_of s) \<and>
         (case op_error up sha x s w of
            None \<Rightarrow> k = length es
          | Some e \<Rightarrow> (if is_claim x then k < length es else k = 0) \<and>
              (x = OpCompact \<or> e = EncodeRecord \<or> e = ErrJournalFull \<or> persistenceErr s' = Some e))"
  proof (cases "planned up sha x s")
    case (Inl e)
    then show ?thesis
      using op_refused [OF assms(1,2)] by simp
  next
    case (Inr es)
    note o = op_shelf [OF assms(1,2) Inr] and f = op_failed [OF assms(1,2) Inr]
    show ?thesis
      unfolding Inr sum.case
      by (intro exI [of _ "acked up sha x s w"] conjI o(1,2))
        (use o(3) f in \<open>auto simp: write_error_def split: option.split\<close>)
  qed
qed

lemma example_tables_ok: "tables_ok example_s1" "tables_ok example_s2"
  using example_history(2,3) history_ok by (auto simp: durable_def)

theorem operation_refines_machine_witness:
  "\<exists>es. asks example_url example_sha (shelf_of example_s1) (OpClaim 10 30 1 (\<lambda>_. True)) (Inr es) \<and>
     shelf_of example_s2 = fold put_entry es (shelf_of example_s1)"
proof -
  have run: "run_op example_url example_sha (OpClaim 10 30 1 (\<lambda>_. True)) example_s1 example_w1 = (example_s2, example_w2)"
    by (simp add: example_Claim(1))
  have f: "fresh_id (OpClaim 10 30 1 (\<lambda>_. True)) example_s1"
    by (simp add: fresh_id_def)
  have none: "op_error example_url example_sha (OpClaim 10 30 1 (\<lambda>_. True)) example_s1 example_w1 = None"
    by (simp add: example_Claim(1))
  from operation_refines_machine [OF run example_tables_ok(1) f, unfolded none option.case]
  obtain r where r: "asks example_url example_sha (shelf_of example_s1) (OpClaim 10 30 1 (\<lambda>_. True)) r"
    "case r of Inl e \<Rightarrow> None = Some e \<and> example_s2 = example_s1
     | Inr es \<Rightarrow> \<exists>k. k \<le> length es \<and> shelf_of example_s2 = fold put_entry (take k es) (shelf_of example_s1) \<and> k = length es"
    by blast
  then show ?thesis
    by (cases r) auto
qed

text \<open>
  C7. A worker that does not hold the lease is refused: completing or failing a delivery that is
  not in flight at that very attempt returns an error and changes nothing, in memory or on disk.
\<close>

theorem stale_worker_refused:
  assumes "\<forall>d. map_of (items s) i = Some d \<longrightarrow> Status d = StatusInFlight \<longrightarrow> Attempts d \<noteq> att"
  shows "Succeed i att code now s w = (Some (if map_of (items s) i = None then ErrNotFound else ErrStaleLease), s, w) \<and>
    Fail i att code msg nxt terminal now s w = (Some (if map_of (items s) i = None then ErrNotFound else ErrStaleLease), s, w)"
  using lease_refused [of s i att] assms by (simp add: Succeed_def Fail_def)

theorem stale_worker_refused_witness:
  "Succeed example_id 2 200 20 example_s2 example_w2 = (Some ErrStaleLease, example_s2, example_w2) \<and>
   Fail example_id 2 200 [] 30 False 20 example_s2 example_w2 = (Some ErrStaleLease, example_s2, example_w2)"
  using stale_worker_refused [where s = example_s2 and i = example_id and att = 2 and code = 200 and now = 20
      and w = example_w2 and msg = "[]" and nxt = 30 and terminal = False]
  by (simp add: example_s2_simps example_later_simps)

text \<open>
  C8. An outcome is recorded at most once: after a completion or failure has been accepted for a claim in a run
  (as in C1), every further report for that delivery, with whatever attempt number, is refused and changes
  nothing, in every later state of the run, whatever operations, crashes and restarts come in between, as long
  as none of these operations is a claim that returns the delivery.
\<close>

theorem outcome_recorded_once:
  assumes "history up sha s w" "int64_range code"
    "Succeed i att code now s w = (None, s1, w1) \<or> Fail i att code msg nxt terminal now s w = (None, s1, w1)"
    "later up sha (\<lambda>x t v. \<not> claims x i t v) s1 w1 s2 w2"
  shows "Succeed i att2 code2 now2 s2 w3 = (Some (if map_of (items s2) i = None then ErrNotFound else ErrStaleLease), s2, w3) \<and>
    Fail i att2 code2 msg2 nxt2 terminal2 now2 s2 w3 =
      (Some (if map_of (items s2) i = None then ErrNotFound else ErrStaleLease), s2, w3)"
proof -
  have "inputs_ok up (OpSucceed i att code now) s" "inputs_ok up (OpFail i att code msg nxt terminal now) s"
    using assms(2) by (simp_all add: inputs_ok_def fresh_id_def)
  then have h: "history up sha s1 w1"
    using history.operation [OF assms(1), of "OpSucceed i att code now" s1 w1]
      history.operation [OF assms(1), of "OpFail i att code msg nxt terminal now" s1 w1] assms(3) by auto
  have "idle i (shelf_of s1)"
    using outcome_idle assms(3) history_tables [OF assms(1)] by blast
  then have "idle i (shelf_of s2)"
    using later_idle [OF assms(4) h] by blast
  then have "currentLeaseLocked i att2 s2 = Inl (if map_of (items s2) i = None then ErrNotFound else ErrStaleLease)"
    by (intro lease_refused) (simp add: idle_def shelf_Some)
  then show ?thesis
    by (simp add: Succeed_def Fail_def)
qed

theorem outcome_recorded_once_witness:
  "Succeed example_id 1 200 20 example_s4 example_w4 = (Some ErrStaleLease, example_s4, example_w4) \<and>
   Fail example_id 1 500 [] 30 False 20 example_s4 example_w4 = (Some ErrStaleLease, example_s4, example_w4)"
proof -
  have "later example_url example_sha (\<lambda>x t v. \<not> claims x example_id t v) example_s3 example_w3 example_s4 example_w4"
    by (rule later_operation [OF later.here, where x = "OpRetry example_id 13"])
      (simp_all add: inputs_ok_def fresh_id_def claims_def example_Retry(1))
  from outcome_recorded_once [OF example_history(3) _ disjI2 [OF example_Fail(1)] this] show ?thesis
    by (simp add: int64_range_def example_s4_simps)
qed

text \<open>
  C9. Leases exclude each other: after a claim in a run (as in C1) has returned a delivery, no claim, with any
  limit and eligibility, made at a time before its lease has run out returns it, and it is still in flight with
  that lease, whatever operations, crashes and restarts of the run come in between, as long as they spare the
  lease: no report or cancellation of that very delivery is accepted (which ends the lease), and claims are made
  at times before the end of the lease.
\<close>

theorem leases_exclusive:
  assumes "history up sha s w" "inputs_ok up (OpClaim now lease limit eligible) s"
    "ClaimDueMatching now lease limit eligible s w = ((cl, err), s1, w1)" "d \<in> set cl"
    "later up sha (spares up sha (ID d) (now + lease)) s1 w1 s2 w2" "t < now + lease"
  shows "ID d \<notin> ID ` set (fst (fst (ClaimDueMatching t lease2 limit2 eligible2 s2 w3))) \<and>
    (\<exists>e. map_of (items s2) (ID d) = Some e \<and> Status e = StatusInFlight \<and> LeaseUntil e = now + lease)"
proof -
  have h: "history up sha s1 w1"
    by (rule history.operation [OF assms(1,2)]) (simp add: assms(3))
  have "leased (ID d) (now + lease) (shelf_of s1)"
    using claimed_stored(1-3) [OF assms(3) _ assms(4)] history_tables [OF assms(1)] by (auto simp: leased_def shelf_Some)
  then have "leased (ID d) (now + lease) (shelf_of s2)"
    using later_leased [OF assms(5) h] by blast
  then obtain e where e: "map_of (items s2) (ID d) = Some e" "Status e = StatusInFlight" "LeaseUntil e = now + lease"
    by (auto simp: leased_def shelf_Some)
  have ok: "tables_ok s2"
    using history_tables [OF later_history [OF assms(5) h]] by blast
  obtain cl2 err2 s3 w4 where c: "ClaimDueMatching t lease2 limit2 eligible2 s2 w3 = ((cl2, err2), s3, w4)"
    by (cases "ClaimDueMatching t lease2 limit2 eligible2 s2 w3") auto
  have False if m: "x \<in> set cl2" "ID x = ID d" for x
    using claimed_stored(5) [OF c ok m(1)] m(2) e assms(6) status_distinct by (auto simp: due_def)
  then show ?thesis
    using e c by force
qed

theorem leases_exclusive_witness:
  "\<exists>s w. Open [0] (crash (\<lambda>_. 0) True example_w2) = (Inr s, w) \<and>
     example_id \<notin> ID ` set (fst (fst (ClaimDueMatching 39 30 1 (\<lambda>_. True) s w)))"
proof -
  have "durable example_s2 example_w2"
    using history_ok [OF example_history(3)] by simp
  from crash_recovers [OF this order_refl, of "\<lambda>_. 0" True]
  obtain s w where o: "Open [0] (crash (\<lambda>_. 0) True example_w2) = (Inr s, w)"
    by metis
  have "later example_url example_sha (spares example_url example_sha (ID example_claim) (10 + 30)) example_s2 example_w2 s w"
    by (rule later.restart [OF later.here _ _ o]) (simp_all add: example_s2_simps)
  from leases_exclusive [OF example_history(2) example_inputs(2) example_Claim(1) _ this, of 39] show ?thesis
    using o by (auto simp: example_later_simps)
qed

text \<open>
  C10. A claim takes the deliveries that are due, at most \<open>limit\<close> of them, earliest first: the
  candidates are the first \<open>limit\<close> of all due and eligible deliveries in the order of next attempt,
  creation and identifier, whatever the iteration order of the map; each is returned and stored in
  flight, with its attempt number raised and its lease set.
\<close>

theorem claim_takes_first_due:
  assumes "tables_ok s" "1 \<le> limit" "ClaimDueMatching now lease limit eligible s w = ((cl, None), s', w')"
  shows "\<exists>q. sorted (List.map claim_key q) \<and> distinct (List.map ID q) \<and>
    (\<forall>d. d \<in> set q \<longleftrightarrow> map_of (items s) (ID d) = Some d \<and> due now d \<and> eligible (Clone d)) \<and>
    cl = List.map (\<lambda>c. Clone (claim_item now lease c)) (take (nat limit) q) \<and>
    (\<forall>d \<in> set cl. map_of (items s') (ID d) = Some d)"
proof -
  obtain k where k: "cl = List.map (\<lambda>c. Clone (claim_item now lease c)) (take k (candidates now eligible (nat limit) s))"
    "k = length (candidates now eligible (nat limit) s)"
    using Claim_cases [OF assms(3,1)] by auto
  then have "take k (candidates now eligible (nat limit) s) = candidates now eligible (nat limit) s"
    by simp
  then have "cl = List.map (\<lambda>c. Clone (claim_item now lease c)) (take (nat limit) (due_queue now eligible s))"
    using k(1) candidates_queue [of now eligible "nat limit" s] by (simp only:)
  moreover have "\<forall>d \<in> set cl. map_of (items s') (ID d) = Some d"
    using claimed_stored(1) [OF assms(3,1)] by blast
  ultimately show ?thesis
    using due_queue_facts [OF assms(1)] by (intro exI [of _ "due_queue now eligible s"]) blast
qed

theorem claim_takes_first_due_witness:
  "\<exists>q. sorted (List.map claim_key q) \<and> distinct (List.map ID q) \<and>
    (\<forall>d. d \<in> set q \<longleftrightarrow> map_of (items example_s1) (ID d) = Some d \<and> due 10 d \<and> True) \<and>
    [example_claim] = List.map (\<lambda>c. Clone (claim_item 10 30 c)) (take (nat 1) q) \<and>
    (\<forall>d \<in> set [example_claim]. map_of (items example_s2) (ID d) = Some d)"
  by (rule claim_takes_first_due [OF example_tables_ok(1) _ example_Claim(1)]) simp

text \<open>
  C11. After a retry the attempt numbers start again at 1: the next claim has attempt 1, and the
  report of any worker that still holds attempt 1 of the cycle before is accepted for it, although
  that worker's lease is not the current one. The code tells claims apart by the attempt number only.
\<close>

theorem retry_reuses_attempts:
  assumes "tables_ok s" "Retry i now s w = (Inr d, s1, w1)"
    "ClaimDueMatching t lease limit eligible s1 w2 = ((cl, err), s2, w3)" "c \<in> set cl" "ID c = i"
  shows "Attempts c = 1 \<and> Succeed i 1 code now2 s2 w4 = persistLocked (succeeded_item code now2 c) s2 w4"
proof -
  obtain x where x: "map_of (items s) i = Some x" "Status x = StatusFailed" "persist_return (retried_item now x) s w = (Inr d, s1, w1)"
    using assms(2) by (auto simp: Retry_def split: option.splits if_splits)
  then have p: "persistLocked (retried_item now x) s w = (None, s1, w1)"
    by (auto simp: persist_return_def split: option.splits prod.splits)
  have i1: "map_of (items s1) i = Some (retried_item now x)"
    using persist_stored(1) [OF p assms(1) x(1)] by simp
  have "steps (view s) (view s1)"
    using persist_steps(1) [OF p x(1) evolves.retry [OF x(2)] assms(1)] .
  then have ok: "tables_ok s1"
    using steps_tables_ok assms(1) by force
  note c = claimed_stored [OF assms(3) ok assms(4)]
  have "c = Clone (claim_item t lease (retried_item now x))"
    using c(5) i1 assms(5) by auto
  then have "Attempts c = 1"
    by (simp add: claim_item_def retried_item_def)
  then show ?thesis
    using c(1,2) assms(5) by (simp add: Succeed_def currentLeaseLocked_def)
qed

lemma example_s3_ok: "tables_ok example_s3"
  using Fail_steps [OF example_Fail(1) example_tables_ok(2)] steps_tables_ok example_tables_ok(2) by force

theorem retry_reuses_attempts_witness:
  "\<exists>s2. \<forall>w4. Succeed example_id 1 200 50 s2 w4 =
     persistLocked (succeeded_item 200 50 (Clone (claim_item 14 30 example_retried))) s2 w4"
proof -
  obtain s' w' where r: "ClaimDueMatching 14 30 1 (\<lambda>_. True) example_s4 example_w4 =
      (([Clone (claim_item 14 30 example_retried)], None), s', w')"
    using example_reclaim by blast
  show ?thesis
    using retry_reuses_attempts [OF example_s3_ok example_Retry(1) r, of "Clone (claim_item 14 30 example_retried)"]
    by (auto simp: example_later_simps)
qed

section \<open>Creation\<close>

lemma example_sha_inj: "inj example_sha"
  by (simp add: inj_def example_sha_def)

text \<open>
  C12. Idempotency: after a request with a key has created a delivery in a run (as in C1), every later valid
  request with the same key is answered from the store and changes nothing, whatever operations, crashes and
  restarts of the run come in between, as long as the delivery has stayed in the store. If the hash function is
  free of collisions, the URL parser refuses control characters, and random bytes are available, it gets the
  delivery, as it is by then, when it asks for the same method, target, attempts, headers and body, and a
  conflict when it differs in any of them.
\<close>

theorem create_idempotent:
  assumes "inj sha" "rejects_control up" "history up sha s w" "inputs_ok up (OpCreate raw req now) s"
    "Create up sha raw req now s w = (Inr (d, True), s1, w1)" "normalize up req = Inr r" "reqIdempotencyKey r \<noteq> []"
    "later up sha (\<lambda>x t v. map_of (items (fst (run_op up sha x t v))) (ID d) \<noteq> None) s1 w1 s2 w2"
    "normalize up req' = Inr r'" "reqIdempotencyKey r' = reqIdempotencyKey r"
  shows "\<exists>e. map_of (items s2) (ID d) = Some e \<and>
    Create up sha (Some raw') req' now' s2 w3 =
      (if same_request r' r then Inr (e, False) else Inl ErrIdempotencyConflict, s2, w3)"
proof -
  have h: "history up sha s1 w1"
    by (rule history.operation [OF assms(3,4)]) (simp add: assms(5))
  have f: "fingerprint sha r' = fingerprint sha r \<longleftrightarrow> same_request r' r"
    using fingerprint_preimage_inject [OF normalize_request_ok(1) [OF assms(9)] normalize_request_ok(1) [OF assms(6)] assms(2)]
      assms(1) by (simp add: fingerprint_def inj_eq)
  have "filed (ID d) (reqIdempotencyKey r) (fingerprint sha r) (shelf_of s1)"
    using Create_filed [OF assms(5,6)] .
  then have "filed (ID d) (reqIdempotencyKey r) (fingerprint sha r) (shelf_of s2)"
    using later_filed [OF assms(8) h] by blast
  from Create_filed_again [OF this _ assms(7,9,10)] show ?thesis
    using f history_tables [OF later_history [OF assms(8) h]] by auto
qed

theorem create_idempotent_witness:
  "Create example_url example_sha (Some []) example_request 9 example_s2 example_w2 =
     (if same_request example_normalized example_normalized then Inr (example_claim, False)
      else Inl ErrIdempotencyConflict, example_s2, example_w2)"
proof -
  have "later example_url example_sha
      (\<lambda>x t v. map_of (items (fst (run_op example_url example_sha x t v))) (ID (Clone example_delivery)) \<noteq> None)
      example_s1 example_w1 example_s2 example_w2"
    by (rule later_operation [OF later.here example_inputs(2)])
      (simp_all add: example_Claim(1) example_s2_simps, simp add: example_delivery_def)
  from create_idempotent [OF example_sha_inj example_url_rejects example_history(1) example_inputs(1) example_Create(1)
      example_normalize _ this example_normalize refl, of "[]" 9 example_w2] show ?thesis
    by (auto simp: example_s2_simps example_normalized_def split: if_splits)
qed

text \<open>
  C13. The fingerprint identifies the request: for normalized requests and a hash function free
  of collisions two fingerprints are equal exactly when method, target, attempts, headers (as
  a map) and body are, although JSON bodies and other bodies are written in two formats.
\<close>

theorem fingerprint_identifies:
  assumes "inj sha" "rejects_control up" "request_ok up r" "request_ok up r'"
  shows "fingerprint sha r = fingerprint sha r' \<longleftrightarrow> same_request r r'"
  using fingerprint_preimage_inject [OF assms(3,4,2)] assms(1) by (simp add: fingerprint_def inj_eq)

theorem fingerprint_identifies_witness:
  "fingerprint example_sha example_normalized = fingerprint example_sha (example_normalized\<lparr>reqBody := ''[1,2]''\<rparr>) \<longleftrightarrow>
   same_request example_normalized (example_normalized\<lparr>reqBody := ''[1,2]''\<rparr>)"
proof (rule fingerprint_identifies [OF example_sha_inj example_url_rejects])
  show ok: "request_ok example_url example_normalized"
    using normalize_request_ok(1) [OF example_normalize] .
  then show "request_ok example_url (example_normalized\<lparr>reqBody := ''[1,2]''\<rparr>)"
    by (simp add: request_ok_def MaxBodyBytes_def)
qed

text \<open>
  C14. Whatever \<open>normalize\<close> accepts satisfies every rule it enforces: trimmed key of at most
  256 bytes, trimmed URL with an accepted scheme, host, no user information and no fragment, an
  upper-case token as method, between 1 and 100 attempts, canonical headers that are valid, not
  reserved, single-line and distinct, and a body within the limit. It is a fixed point:
  normalizing the result again changes nothing.
\<close>

theorem normalize_establishes:
  assumes "normalize url_parse req = Inr r"
  shows "request_ok url_parse r \<and> reqBody r = reqBody req \<and> normalize url_parse r = Inr r"
  using normalize_request_ok [OF assms] normalize_fixed by blast

theorem normalize_establishes_witness:
  "request_ok example_url example_normalized \<and> reqBody example_normalized = reqBody example_request \<and>
   normalize example_url example_normalized = Inr example_normalized"
  by (rule normalize_establishes [OF example_normalize])

text \<open>
  C15. With an admission limit, a creation that is acknowledged leaves the journal within it.
\<close>

theorem admission_respects_limit:
  assumes "Create up sha raw req now s w = (Inr (d, True), s1, w1)" "maxJournalBytes s \<noteq> 0" "journalFile s = Some f"
  shows "int (length (file_data f w1)) \<le> maxJournalBytes s"
  using assms by (rule Create_admitted)

definition example_limit :: int where
  "example_limit = int (length (the (marshalRecord example_delivery example_hash)))"

definition limited_store :: Store where
  "limited_store = example_s0\<lparr>maxJournalBytes := example_limit\<rparr>"

lemma limited_Create:
  "\<exists>s w. Create example_url example_sha (Some example_raw) example_request 5 limited_store example_w0 =
     (Inr (Clone example_delivery, True), s, w)" "example_limit \<noteq> 0"
proof -
  obtain l where l: "marshalRecord example_delivery example_hash = Some l"
    using example_entry by (auto simp: entry_ok_def entry_text_def)
  then have lim: "example_limit = int (length l)"
    by (simp add: example_limit_def)
  have d: "on_disk 0 [] 0 example_w0" "faults example_w0 = []" "os_stat 0 example_w0 = (Some 0, example_w0)"
    by (simp_all add: on_disk_def example_w0_def boot_world_def os_stat_def file_data_def)
  have s: "persistenceErr limited_store = None" "journalFile limited_store = Some 0" "keyToID limited_store = []"
    "maxJournalBytes limited_store = int (length l)"
    by (simp_all add: limited_store_def example_s0_def new_store_def lim)
  obtain w where w: "appendLocked example_delivery example_hash limited_store example_w0 =
      (None, limited_store\<lparr>records := records limited_store + 1\<rparr>, w)"
    using appendLocked_clean [OF d(2) s(1,2) d(1) l] by metis
  have a: "checkAdmissionLocked example_delivery example_hash limited_store example_w0 = (None, limited_store, example_w0)"
    using s d(3) l by (simp add: checkAdmissionLocked_def)
  show "\<exists>s w. Create example_url example_sha (Some example_raw) example_request 5 limited_store example_w0 =
     (Inr (Clone example_delivery, True), s, w)"
    unfolding Create_def example_New using a w s(3) by simp
  have "entry_line (Put example_delivery example_hash) = l"
    using l by (simp add: entry_line_def entry_text_def)
  then have "l \<noteq> []"
    using entry_record [OF example_entry] by (metis snoc_eq_iff_butlast)
  then show "example_limit \<noteq> 0"
    by (simp add: lim)
qed

theorem admission_respects_limit_witness:
  "\<exists>s w. Create example_url example_sha (Some example_raw) example_request 5 limited_store example_w0 =
     (Inr (Clone example_delivery, True), s, w) \<and> int (length (file_data 0 w)) \<le> example_limit"
proof -
  obtain s w where c: "Create example_url example_sha (Some example_raw) example_request 5 limited_store example_w0 =
     (Inr (Clone example_delivery, True), s, w)"
    using limited_Create(1) by blast
  have "maxJournalBytes limited_store = example_limit" "journalFile limited_store = Some 0"
    by (simp_all add: limited_store_def example_s0_def new_store_def)
  then show ?thesis
    using admission_respects_limit [OF c] limited_Create(2) c by fastforce
qed

section \<open>Failing disks\<close>

text \<open>
  C16. A failed write blocks the store. If in a store with consistent maps an operation other than compaction
  that is not to be refused reports an error that is neither that its record cannot be encoded nor that the
  journal is full, then that error has been recorded; and after any operations without compaction, with any
  outcomes of their system calls, the store is what it was, no file has changed, readiness reports the error,
  and every operation but compaction that has something to do or to refuse reports an error: the recorded one,
  unless its record cannot be encoded, the journal is full, or it is to be refused anyway.
\<close>

theorem failed_write_blocks:
  assumes "tables_ok s" "fresh_id x s" "x \<noteq> OpCompact" "run_op up sha x s w = (s1, w1)"
    "\<forall>e. \<not> asks up sha (shelf_of s) x (Inl e)" "op_error up sha x s w = Some e" "e \<noteq> EncodeRecord" "e \<noteq> ErrJournalFull"
    "OpCompact \<notin> fst ` set xs" "run_ops up sha xs s1 w1 = (s2, w2)"
    "y \<noteq> OpCompact" "\<not> asks up sha (shelf_of s1) y (Inr [])"
  shows "persistenceErr s1 = Some e \<and> s2 = s1 \<and> same_place w1 w2 \<and> inodes w2 = inodes w1 \<and>
    Ready s2 w3 = (Some e, w3) \<and>
    (\<exists>e'. op_error up sha y s2 w3 = Some e' \<and>
       (e' = e \<or> e' = EncodeRecord \<or> e' = ErrJournalFull \<or> asks up sha (shelf_of s1) y (Inl e')))"
proof -
  obtain es where "planned up sha x s = Inr es"
    using planned_asks [OF assms(1), of up sha x] assms(5) by (cases "planned up sha x s") auto
  then have p: "persistenceErr s1 = Some e"
    using op_failed(2) [OF assms(4,1) _ assms(6)] assms(3,7,8) by (simp add: write_error_def)
  then have same: "s2 = s1 \<and> same_place w1 w2 \<and> inodes w2 = inodes w1"
    using ops_blocked assms(9,10) by blast
  have ok: "tables_ok s1"
    using steps_tables_ok [OF run_op_steps [OF assms(4,1,2)]] assms(1) by simp
  have "\<exists>e'. op_error up sha y s1 w3 = Some e' \<and>
      (e' = e \<or> e' = EncodeRecord \<or> e' = ErrJournalFull \<or> asks up sha (shelf_of s1) y (Inl e'))"
    using blocked_error [OF p assms(11) ok assms(12)] .
  then show ?thesis
    using p same Ready_blocked by auto
qed

text \<open>A cancellation whose write breaks off after three bytes.\<close>

definition example_stuck :: "Store \<times> world" where
  "example_stuck = run_op example_url example_sha (OpCancel example_id 50) example_s1 (example_w1\<lparr>faults := [Failure 3]\<rparr>)"

lemma example_s1_shelf: "shelf_of example_s1 example_id = Some (example_delivery, example_hash)" "Status example_delivery = StatusPending"
  by (simp_all add: shelf_of_def example_s1_simps example_Clone lookup_or_def) (simp add: example_delivery_def)

lemma example_cancel_asks:
  "asks example_url example_sha (shelf_of example_s1) (OpCancel example_id now) r \<Longrightarrow>
     r = Inr [Put (canceled_item now example_delivery) example_hash]"
  by (erule asks_cancelE) (auto simp: example_s1_shelf canceled_item_def)

lemma example_stuck:
  "Cancel example_id 50 example_s1 (example_w1\<lparr>faults := [Failure 3]\<rparr>) =
     (Inl (ErrPersistence [WriteJournal]), example_s1\<lparr>persistenceErr := Some (ErrPersistence [WriteJournal])\<rparr>, snd example_stuck)"
proof -
  have "encodable (canceled_item 50 example_delivery)"
    using example_storable(1) by (simp add: storable_def encodable_def canceled_item_def)
  then have "marshalRecord (canceled_item 50 example_delivery) example_hash \<noteq> None"
    using small_times by (intro marshal_defined) (simp_all add: canceled_item_def example_delivery_def zero_time_def)
  then obtain l where l: "marshalRecord (canceled_item 50 example_delivery) example_hash = Some l"
    by auto
  have i: "ID (canceled_item 50 example_delivery) = example_id"
    by (simp add: canceled_item_def example_delivery_def)
  show ?thesis
    using l i example_s1_shelf(2)
    by (simp add: example_stuck_def Cancel_def persist_return_def persistLocked_def appendLocked_def appendDataLocked_def os_write_def
        syscall_def failPersistenceLocked_def example_s1_simps example_Clone lookup_or_def)
qed

theorem failed_write_blocks_witness:
  "persistenceErr (fst example_stuck) = Some (ErrPersistence [WriteJournal]) \<and>
   Ready (fst example_stuck) example_w1 = (Some (ErrPersistence [WriteJournal]), example_w1) \<and>
   (\<exists>e. op_error example_url example_sha (OpCancel example_id 70) (fst example_stuck) example_w1 = Some e)"
proof -
  let ?w = "example_w1\<lparr>faults := [Failure 3]\<rparr>"
  let ?e = "ErrPersistence [WriteJournal]"
  obtain s1 w1 where st: "example_stuck = (s1, w1)"
    by (cases example_stuck)
  then have run: "run_op example_url example_sha (OpCancel example_id 50) example_s1 ?w = (s1, w1)"
    by (simp only: example_stuck_def)
  have "s1 = example_s1\<lparr>persistenceErr := Some ?e\<rparr>"
    using example_stuck run by simp
  then have "shelf_of s1 = shelf_of example_s1"
    by (simp add: shelf_of_def fun_eq_iff)
  then have y: "\<not> asks example_url example_sha (shelf_of s1) (OpCancel example_id 70) (Inr [])"
    using example_cancel_asks by force
  have x: "\<forall>e. \<not> asks example_url example_sha (shelf_of example_s1) (OpCancel example_id 50) (Inl e)"
    using example_cancel_asks by force
  have e: "op_error example_url example_sha (OpCancel example_id 50) example_s1 ?w = Some ?e"
    by (simp add: example_stuck)
  obtain s2 w2 where later: "run_ops example_url example_sha [(OpRetry example_id 60, [])] s1 w1 = (s2, w2)"
    by (cases "run_ops example_url example_sha [(OpRetry example_id 60, [])] s1 w1")
  from failed_write_blocks [OF example_tables_ok(1) _ _ run x e _ _ _ later _ y, of example_w1] show ?thesis
    unfolding st by (auto simp: fresh_id_def)
qed

text \<open>
  C17. Compaction repairs: if the system calls succeed, \<open>Compact\<close> succeeds whatever the error
  was, the maps are unchanged, the error is cleared, readiness is reported again, and the store is
  durable again, so that a crash right after it loses nothing.
\<close>

theorem compaction_repairs:
  assumes "durable s w" "faults w = []" "journalFile s = Some f" "compactionHook s = (\<lambda>_. False)"
    "\<forall>x \<in> set (snapshot s). marshalRecord (fst (snd x)) (snd (snd x)) \<noteq> None"
  shows "\<exists>s' w'. Compact s w = (None, s', w') \<and> view s' = view s \<and> persistenceErr s' = None \<and>
    fst (Ready s' w') = None \<and> durable s' w'"
proof -
  obtain s' w' where c: "Compact s w = (None, s', w')" "persistenceErr s' = None" "journalFile s' \<noteq> None"
    "view s' = view s" "faults w' = []"
    using assms(2-5) by (rule Compact_clean)
  have "fst (Ready s' w') = None"
    using c by (auto simp: Ready_def os_stat_def)
  then show ?thesis
    using c durable_Compact [OF assms(1) c(1)] by blast
qed

theorem compaction_repairs_witness:
  "\<exists>s' w'. Compact example_s1 example_w1 = (None, s', w') \<and> view s' = view example_s1 \<and> persistenceErr s' = None \<and>
    fst (Ready s' w') = None \<and> durable s' w'"
proof (rule compaction_repairs)
  show "durable example_s1 example_w1"
    using example_history(2) history_ok by blast
  show "compactionHook example_s1 = (\<lambda>_. False)"
    by (simp add: example_s1_def example_s0_def new_store_def setLocked_def Let_def)
  have "marshalRecord example_delivery example_hash \<noteq> None"
    using example_entry by (auto simp: entry_ok_def entry_text_def)
  then show "\<forall>x \<in> set (snapshot example_s1). marshalRecord (fst (snd x)) (snd (snd x)) \<noteq> None"
    by (simp add: snapshot_def example_s1_simps gokeys_def sort_strings_def lookup_or_def example_Clone)
qed (simp_all add: example_Create(2) example_s1_simps)

text \<open>
  C18. Pruning removes exactly the terminal deliveries that were last updated at or before the given
  time: pending and in-flight deliveries are never touched, and if it fails, nothing is.
\<close>

theorem prune_removes_old_terminal:
  assumes "tables_ok s" "PruneTerminal before s w = ((n, r), s', w')"
  shows "map_of (items s') i =
    (case map_of (items s) i of
       None \<Rightarrow> None
     | Some d \<Rightarrow> if r = None \<and> terminal_status (Status d) \<and> UpdatedAt d \<le> before then None else Some d)"
proof -
  note ids = prune_ids_facts(2) [OF assms(1), where before = before and i = i]
  show ?thesis
    using assms(2)
  proof (cases rule: Prune_cases)
    case none
    then show ?thesis
      using ids by (auto simp: prunable_def split: option.split)
  next
    case (failed e)
    then have "items s' = items s"
      using appendData_frame(1) items_cong(1) by blast
    then show ?thesis
      using failed by (simp split: option.split)
  next
    case (pruned s1)
    then have "items s' = items (fold deleteLocked (prune_ids before s) (view s))"
      by (metis view_simps(1))
    then show ?thesis
      using ids pruned(3) by (auto simp: items_fold_delete prunable_def split: option.split)
  qed
qed

theorem prune_removes_old_terminal_witness:
  "map_of (items (fst (snd (PruneTerminal 20 example_s3 example_w3)))) example_id =
    (if snd (fst (PruneTerminal 20 example_s3 example_w3)) = None then None else Some example_failed)"
proof (cases "PruneTerminal 20 example_s3 example_w3")
  case (fields r s w)
  have "terminal_status (Status example_failed)" "UpdatedAt example_failed \<le> 20"
    by (simp_all add: terminal_status_def example_failed_def failed_item_def Let_def)
  then show ?thesis
    using prune_removes_old_terminal [OF example_s3_ok, of 20 example_w3 "fst r" "snd r" s w example_id] fields
    by (simp add: example_s3_simps)
qed

text \<open>
  C19. Listing returns exactly the stored deliveries of the wanted status, each once, by creation time
  and then identifier, and does not depend on the iteration order of the map.
\<close>

theorem list_sorted_complete:
  assumes "tables_ok s" "tables_ok t" "map_of (items s) = map_of (items t)"
  shows "ListDeliveries st s = ListDeliveries st t \<and> sorted (List.map list_key (ListDeliveries st s)) \<and>
    distinct (List.map ID (ListDeliveries st s)) \<and>
    (\<forall>d. d \<in> set (ListDeliveries st s) \<longleftrightarrow> map_of (items s) (ID d) = Some d \<and> (st = [] \<or> Status d = st))"
  using list_order [OF assms] list_facts [OF assms(1)] by blast

theorem list_sorted_complete_witness:
  "ListDeliveries StatusPending example_s1 = ListDeliveries StatusPending example_s1 \<and>
   sorted (List.map list_key (ListDeliveries StatusPending example_s1)) \<and>
   distinct (List.map ID (ListDeliveries StatusPending example_s1)) \<and>
   (\<forall>d. d \<in> set (ListDeliveries StatusPending example_s1) \<longleftrightarrow>
      map_of (items example_s1) (ID d) = Some d \<and> (StatusPending = [] \<or> Status d = StatusPending))"
  by (rule list_sorted_complete [OF example_tables_ok(1) example_tables_ok(1) refl])

text \<open>
  One process at a time: while the lock on the journal is held, \<open>Open\<close> fails, whatever its
  options and the outcomes of its system calls, and touches no file.
\<close>

theorem open_excluded_by_lock:
  assumes "flockHeld w"
  shows "(\<exists>e. fst (Open options w) = Inl e) \<and> same_place w (snd (Open options w)) \<and>
    inodes (snd (Open options w)) = inodes w"
  using Open_held [OF assms, of options "fst (Open options w)" "snd (Open options w)"] by simp

theorem open_excluded_by_lock_witness:
  "(\<exists>e. fst (Open [0] example_w0) = Inl e) \<and> same_place example_w0 (snd (Open [0] example_w0)) \<and>
    inodes (snd (Open [0] example_w0)) = inodes example_w0"
  by (rule open_excluded_by_lock) (simp add: example_w0_def boot_world_def)

section \<open>The journal's text\<close>

text \<open>
  C20. A record that can be written is read back, for every delivery whose header names are in UTF-8, whose
  integers have 64 bits, and whose body, if it is JSON, is nested at most 9998 levels deep (for a deeper one it
  is not: C5): the delivery as it was, up to what JSON text cannot hold (bytes that are not UTF-8 become the
  replacement character, a JSON body loses its spacing), and its request hash.
\<close>

theorem record_roundtrip:
  assumes "marshalRecord d h = Some line" "encodable d"
  shows "unmarshalRecord line = Some \<lparr>Version = currentJournalVersion, recDelivery = Some (restored d),
    RequestHash = valid_utf8 h, DeletedID = []\<rparr>"
  using assms by (rule unmarshal_record_line)

theorem record_roundtrip_witness:
  "\<exists>line. marshalRecord example_delivery example_hash = Some line \<and>
     unmarshalRecord line = Some \<lparr>Version = currentJournalVersion, recDelivery = Some (restored example_delivery),
       RequestHash = example_hash, DeletedID = []\<rparr>"
proof -
  obtain line where l: "marshalRecord example_delivery example_hash = Some line"
    using example_entry by (auto simp: entry_ok_def entry_text_def)
  have "encodable example_delivery" "valid_utf8 example_hash = example_hash"
    using example_storable(1) example_hash_utf8 by (simp_all add: storable_def is_utf8_def)
  then show ?thesis
    using record_roundtrip [OF l] l by simp
qed

text \<open>
  The JSON of a delivery reads back as that delivery, every field and every time to the
  nanosecond, up to what the text cannot hold (\<open>restored\<close>).
\<close>

theorem delivery_json_roundtrip:
  assumes "MarshalJSON d = Some t" "encodable d"
  shows "UnmarshalJSON t = Some (restored d)"
  using assms by (rule unmarshal_marshal)

theorem delivery_json_roundtrip_witness:
  "\<exists>t. MarshalJSON example_claim = Some t \<and> UnmarshalJSON t = Some (restored example_claim)"
proof -
  have "encodable example_claim"
    using example_storable(2) by (simp add: storable_def example_claim_def)
  moreover from this have "marshalRecord example_claim [] \<noteq> None"
    using small_times
    by (intro marshal_defined) (simp_all add: example_claim_def claim_item_def example_delivery_def zero_time_def)
  then have "MarshalJSON example_claim \<noteq> None"
    by (auto simp: marshalRecord_def split: Option.bind_splits)
  ultimately show ?thesis
    using delivery_json_roundtrip by auto
qed

text \<open>
  C21. A restart changes what is delivered. In a run (as in C1) without a failed write, every delivery found by
  the start after a stop or crash has the body it had if that is not JSON; a body that is valid JSON, however it
  was submitted, has become its compact form, so that the bytes sent afterwards are not those that were
  accepted.
\<close>

theorem restart_rewrites_json_body:
  assumes "history up sha s w" "persistenceErr s = None" "0 \<le> limit" "map_of (items s) i = Some d"
    "Open [limit] (crash keep old w) = (Inr s', w')"
  shows "\<exists>e. map_of (items s') i = Some e \<and>
    Body e = (if json_valid (Body d) then compact_from Out (Body d) else Body d)"
proof -
  have "shelf_of s' i = restored_shelf (shelf_of s) i"
    using restart_shelf [OF assms(1-3,5)] by simp
  then have "map_of (items s') i = Some (restored d)"
    using assms(4) by (auto simp: restored_shelf_def shelf_of_def)
  then show ?thesis
    by (simp add: restored_body_def)
qed

theorem restart_rewrites_json_body_witness:
  "\<exists>s w e. Open [0] (crash (\<lambda>_. 0) True example_w1) = (Inr s, w) \<and> map_of (items example_s1) example_id = Some example_delivery \<and>
     Body example_delivery = ''[1, 2]'' \<and> map_of (items s) example_id = Some e \<and> Body e = ''[1,2]''"
proof -
  have "durable example_s1 example_w1"
    using history_ok [OF example_history(2)] by simp
  from crash_recovers [OF this order_refl, of "\<lambda>_. 0" True]
  obtain s w where o: "Open [0] (crash (\<lambda>_. 0) True example_w1) = (Inr s, w)"
    by metis
  have d: "map_of (items example_s1) example_id = Some example_delivery" "Body example_delivery = ''[1, 2]''"
    by (simp add: example_s1_simps example_Clone) (simp add: example_delivery_def)
  have "json_valid ''[1, 2]''" "compact_from Out ''[1, 2]'' = ''[1,2]''"
    by code_simp+
  then show ?thesis
    using restart_rewrites_json_body [OF example_history(2) example_s1_simps(4) order_refl d(1) o] o d by auto
qed

end
